(* ===== verification/Prelude.thy ===== *)
theory Prelude
  imports Complex_Main "HOL-Library.Word" "HOL-Library.AList"
begin

text \<open>
  Shared vocabulary of the development: the machine integers of the Rust sources as words,
  the 32-byte hash as a 256-bit word, results and panics as values, and the generic facts on
  lists, association lists and words that the component theories use.

  Conventions:
  \<^item> \<open>u8\<close>, \<open>u16\<close>, \<open>u32\<close>, \<open>u64\<close> and \<open>u256\<close> are words of that width; \<open>+\<close> wraps, as in a release
    build. \<open>usize\<close> values are lengths and indices of containers and are \<open>nat\<close>.
  \<^item> \<open>h256\<close> stands for the byte array \<^verbatim>\<open>[u8; 32]\<close> of \<^verbatim>\<open>primitives::hash::H256\<close>: byte \<open>i\<close> of the
    array is \<open>drop_bit (8 * i)\<close> of the word, cut to eight bits. The all-zero hash is \<open>0\<close>.
  \<^item> a Rust panic (\<^verbatim>\<open>panic!\<close>, \<^verbatim>\<open>assert!\<close>, \<^verbatim>\<open>expect\<close>, \<^verbatim>\<open>unwrap\<close>, an index out of range) is \<open>None\<close>;
    a Rust \<^verbatim>\<open>Result\<close> is a sum with the error on the left.
  \<^item> a \<^verbatim>\<open>HashMap\<close> over which the code iterates is an association list with distinct keys, its
    order being the iteration order; statements about it are order-insensitive. Other maps
    are partial functions.
\<close>

section \<open>Types\<close>

type_synonym u8 = "8 word"
type_synonym u16 = "16 word"
type_synonym u32 = "32 word"
type_synonym u64 = "64 word"
type_synonym u256 = "256 word"
type_synonym h256 = "256 word"
type_synonym bytes = "u8 list"

section \<open>Positions in lists\<close>

text \<open>Index of the first occurrence, the value of \<^verbatim>\<open>iter().position(..)\<close>.\<close>

fun find_pos :: "'a \<Rightarrow> 'a list \<Rightarrow> nat option" where
  "find_pos x [] = None"
| "find_pos x (y # ys) = (if y = x then Some 0 else map_option Suc (find_pos x ys))"

lemma find_pos_None_iff [simp]: "find_pos x xs = None \<longleftrightarrow> x \<notin> set xs"
  by (induction xs) auto

lemma find_pos_notin [simp]: "x \<notin> set xs \<Longrightarrow> find_pos x xs = None"
  by simp

lemma find_pos_Some:
  "find_pos x xs = Some i \<Longrightarrow> i < length xs \<and> xs ! i = x \<and> x \<notin> set (take i xs)"
proof (induction xs arbitrary: i)
  case (Cons y ys)
  show ?case
  proof (cases "y = x")
    case False
    with Cons.prems obtain j where "find_pos x ys = Some j" "i = Suc j" by auto
    with Cons.IH [of j] False show ?thesis by auto
  qed (use Cons.prems in auto)
qed simp

lemma find_pos_nth:
  assumes "distinct xs" "i < length xs"
  shows "find_pos (xs ! i) xs = Some i"
proof (cases "find_pos (xs ! i) xs")
  case None
  with assms show ?thesis by simp
next
  case (Some j)
  from find_pos_Some [OF Some] have "j < length xs" "xs ! j = xs ! i" by simp_all
  with assms have "j = i" by (simp add: nth_eq_iff_index_eq)
  with Some show ?thesis by simp
qed

lemma take_drop_remove1:
  assumes "find_pos x xs = Some i"
  shows "take i xs @ drop (Suc i) xs = remove1 x xs"
  using assms
proof (induction xs arbitrary: i)
  case (Cons y ys)
  then show ?case by (cases "y = x") auto
qed simp

lemma remove1_decomp:
  assumes "distinct xs" "find_pos x xs = Some i"
  shows "xs = take i xs @ x # drop (Suc i) xs" "x \<notin> set (drop (Suc i) xs)"
proof -
  from find_pos_Some [OF assms(2)] have i: "i < length xs" "xs ! i = x" by auto
  show eq: "xs = take i xs @ x # drop (Suc i) xs" using id_take_nth_drop [OF i(1)] i(2) by simp
  from assms(1) have "distinct (take i xs @ x # drop (Suc i) xs)" by (subst eq [symmetric])
  then show "x \<notin> set (drop (Suc i) xs)" by simp
qed

lemma filter_enumerate_find_pos:
  "filter (\<lambda>(p, h). x = h) (enumerate n xs) =
     (case find_pos x xs of None \<Rightarrow> []
      | Some i \<Rightarrow> (n + i, x) # filter (\<lambda>(p, h). x = h) (enumerate (Suc (n + i)) (drop (Suc i) xs)))"
proof (induction xs arbitrary: n)
  case (Cons y ys)
  show ?case
  proof (cases "y = x")
    case False
    with Cons.IH [of "Suc n"] show ?thesis by (cases "find_pos x ys") auto
  qed simp
qed simp

lemma find_pos_append:
  "find_pos x (xs @ ys) =
     (case find_pos x xs of Some i \<Rightarrow> Some i | None \<Rightarrow> map_option ((+) (length xs)) (find_pos x ys))"
  by (induction xs; cases "find_pos x ys") (auto split: option.splits)

section \<open>Words\<close>

lemma unat_of_nat_u32 [simp]: "n < 2 ^ 32 \<Longrightarrow> unat (of_nat n :: u32) = n"
  by (simp add: unat_of_nat take_bit_nat_eq_self)

lemma unat_inc_u32: "unat (n :: u32) < 2 ^ 32 - 1 \<Longrightarrow> unat (n + 1) = unat n + 1"
  by (simp add: unat_word_ariths)

lemma unat_dec_u32: "0 < (n :: u32) \<Longrightarrow> unat (n - 1) = unat n - 1"
  by (simp add: unat_minus_one word_neq_0_conv)

lemma of_nat_u32_eq_iff:
  "i < 2 ^ 32 \<Longrightarrow> j < 2 ^ 32 \<Longrightarrow> (of_nat i :: u32) = of_nat j \<longleftrightarrow> i = j"
  using unat_of_nat_u32 by metis

lemma unat_eq_of_nat_u32: "k < 2 ^ 32 \<Longrightarrow> unat (n :: u32) = k \<longleftrightarrow> n = of_nat k"
  by (simp add: word_unat_eq_iff)

section \<open>Association lists\<close>

lemma map_of_update [simp]: "map_of (AList.update k v xs) = (map_of xs)(k \<mapsto> v)"
  by (rule update_conv')

lemma map_of_delete [simp]: "map_of (AList.delete k xs) = (map_of xs)(k := None)"
  by (rule delete_conv')

end
