(* ===== verification/Serialization.thy ===== *)
theory Serialization
  imports Prelude
begin

text \<open>
  The wire and storage format of \<^verbatim>\<open>serialization/src\<close>: the byte reader with its one-byte
  look-ahead, little-endian integers, hashes, compact integers, byte strings and lists. The
  pair \<^verbatim>\<open>Serializable\<close>/\<^verbatim>\<open>Deserializable\<close> is the locale \<open>codec\<close>; the round trips of lists and of
  whole buffers are proved once in it and every wire type interprets it.
\<close>

unbundle bit_operations_syntax

section \<open>Little-endian integers and fixed-size hashes\<close>

definition le_bytes :: "nat \<Rightarrow> 'a::len word \<Rightarrow> bytes" where
  "le_bytes n w = map (\<lambda>i. ucast (drop_bit (8 * i) w)) [0..<n]"

fun of_le_bytes :: "bytes \<Rightarrow> 'a::len word" where
  "of_le_bytes [] = 0"
| "of_le_bytes (b # bs) = ucast b OR push_bit 8 (of_le_bytes bs)"

section \<open>Reader\<close>

datatype ReaderError = MalformedData | UnexpectedEnd | UnreadData

record Reader =
  buffer :: bytes
  peeked :: "u8 option"

type_synonym 'a read_result = "ReaderError + 'a \<times> Reader"
type_synonym 'a deserializer = "Reader \<Rightarrow> 'a read_result"

text \<open>The question mark operator: the first error is the result.\<close>

definition bind_read :: "'a read_result \<Rightarrow> ('a \<Rightarrow> Reader \<Rightarrow> 'b read_result) \<Rightarrow> 'b read_result" where
  "bind_read m f = (case m of Inl e \<Rightarrow> Inl e | Inr (x, r) \<Rightarrow> f x r)"

definition reader_new :: "bytes \<Rightarrow> Reader" where
  "reader_new bs = \<lparr>buffer = bs, peeked = None\<rparr>"

definition reader_read :: "Reader \<Rightarrow> nat \<Rightarrow> bytes \<times> Reader" where
  "reader_read r n =
     (case peeked r of
        None \<Rightarrow> (take n (buffer r), r\<lparr>buffer := drop n (buffer r)\<rparr>)
      | Some p \<Rightarrow>
          if n = 0 then ([], r)
          else (p # take (n - 1) (buffer r), r\<lparr>buffer := drop (n - 1) (buffer r), peeked := None\<rparr>))"

text \<open>\<^verbatim>\<open>io::Read::read_exact\<close>: read until the slice is full; a read of nothing is the end.\<close>

function read_slice :: "nat \<Rightarrow> bytes deserializer" where
  "read_slice n r =
     (if n = 0 then Inr ([], r)
      else let (bs, r') = reader_read r n
           in if bs = [] then Inl UnexpectedEnd
              else bind_read (read_slice (n - length bs) r') (\<lambda>bs' r''. Inr (bs @ bs', r'')))"
  by pat_completeness auto
termination
  by (relation "measure fst") (auto simp: length_greater_0_conv [symmetric] simp del: length_greater_0_conv)

declare read_slice.simps [simp del]

definition reader_is_finished :: "Reader \<Rightarrow> bool \<times> Reader" where
  "reader_is_finished r =
     (if peeked r \<noteq> None then (False, r)
      else case read_slice 1 r of
             Inr (bs, r') \<Rightarrow> (False, r'\<lparr>peeked := Some (hd bs)\<rparr>)
           | Inl _ \<Rightarrow> (True, r))"

function skip_while :: "(u8 \<Rightarrow> bool) \<Rightarrow> Reader \<Rightarrow> Reader" where
  "skip_while predicate r =
     (case peeked r of
        Some next \<Rightarrow> if predicate next then skip_while predicate (r\<lparr>peeked := None\<rparr>) else r
      | None \<Rightarrow>
          (case buffer r of
             [] \<Rightarrow> r
           | next # rest \<Rightarrow>
               if predicate next then skip_while predicate (r\<lparr>buffer := rest\<rparr>)
               else r\<lparr>buffer := rest, peeked := Some next\<rparr>))"
  by pat_completeness auto
termination
  by (relation "measure (\<lambda>(p, r). length (buffer r) + (if peeked r = None then 0 else 1))") auto

declare skip_while.simps [simp del]

definition deserialize :: "'a deserializer \<Rightarrow> bytes \<Rightarrow> ReaderError + 'a" where
  "deserialize de bs =
     (case de (reader_new bs) of
        Inl e \<Rightarrow> Inl e
      | Inr (x, r) \<Rightarrow> if fst (reader_is_finished r) then Inr x else Inl UnreadData)"

definition read_iterator_next :: "'a deserializer \<Rightarrow> Reader \<Rightarrow> 'a read_result option" where
  "read_iterator_next de r =
     (let (finished, r') = reader_is_finished r in if finished then None else Some (de r'))"

text \<open>
  \<^verbatim>\<open>read_with_proxy\<close>: the proxy sees exactly the bytes the deserializer takes from the reader.
\<close>

definition remaining :: "Reader \<Rightarrow> bytes" where
  "remaining r = (case peeked r of None \<Rightarrow> buffer r | Some p \<Rightarrow> p # buffer r)"

definition read_with_proxy :: "'a deserializer \<Rightarrow> ('a \<times> bytes) deserializer" where
  "read_with_proxy de r =
     bind_read (de r)
       (\<lambda>x r'. Inr ((x, take (length (remaining r) - length (remaining r')) (remaining r)), r'))"

section \<open>Primitive types\<close>

definition de_le :: "nat \<Rightarrow> 'a::len word deserializer" where
  "de_le n r = bind_read (read_slice n r) (\<lambda>bs r'. Inr (of_le_bytes bs, r'))"

definition ser_u8 :: "u8 \<Rightarrow> bytes" where "ser_u8 w = le_bytes 1 w"
definition ser_u16 :: "u16 \<Rightarrow> bytes" where "ser_u16 w = le_bytes 2 w"
definition ser_u32 :: "u32 \<Rightarrow> bytes" where "ser_u32 w = le_bytes 4 w"
definition ser_u64 :: "u64 \<Rightarrow> bytes" where "ser_u64 w = le_bytes 8 w"
definition ser_i32 :: "32 word \<Rightarrow> bytes" where "ser_i32 w = le_bytes 4 w"
definition ser_i64 :: "64 word \<Rightarrow> bytes" where "ser_i64 w = le_bytes 8 w"
definition ser_h256 :: "h256 \<Rightarrow> bytes" where "ser_h256 w = le_bytes 32 w"

definition de_u8 :: "u8 deserializer" where "de_u8 = de_le 1"
definition de_u16 :: "u16 deserializer" where "de_u16 = de_le 2"
definition de_u32 :: "u32 deserializer" where "de_u32 = de_le 4"
definition de_u64 :: "u64 deserializer" where "de_u64 = de_le 8"
definition de_i32 :: "32 word deserializer" where "de_i32 = de_le 4"
definition de_i64 :: "64 word deserializer" where "de_i64 = de_le 8"
definition de_h256 :: "h256 deserializer" where "de_h256 = de_le 32"

definition ser_bool :: "bool \<Rightarrow> bytes" where
  "ser_bool b = [if b then 1 else 0]"

definition de_bool :: "bool deserializer" where
  "de_bool r =
     bind_read (de_u8 r) (\<lambda>v r'. if v = 0 then Inr (False, r') else if v = 1 then Inr (True, r')
                                 else Inl MalformedData)"

section \<open>Compact integers\<close>

definition ser_compact_integer :: "u64 \<Rightarrow> bytes" where
  "ser_compact_integer i =
     (if i \<le> 0xfc then ser_u8 (ucast i)
      else if i \<le> 0xffff then ser_u8 0xfd @ ser_u16 (ucast i)
      else if i \<le> 0xffffffff then ser_u8 0xfe @ ser_u32 (ucast i)
      else ser_u8 0xff @ ser_u64 i)"

definition compact_integer_size :: "u64 \<Rightarrow> nat" where
  "compact_integer_size i =
     (if i \<le> 0xfc then 1 else if i \<le> 0xffff then 3 else if i \<le> 0xffffffff then 5 else 9)"

definition de_compact_integer :: "u64 deserializer" where
  "de_compact_integer r =
     bind_read (de_u8 r) (\<lambda>i r.
       if i \<le> 0xfc then Inr (ucast i, r)
       else if i = 0xfd then bind_read (de_u16 r) (\<lambda>x r. Inr (ucast x, r))
       else if i = 0xfe then bind_read (de_u32 r) (\<lambda>x r. Inr (ucast x, r))
       else bind_read (de_u64 r) (\<lambda>x r. Inr (x, r)))"

section \<open>Byte strings and lists\<close>

definition ser_bytes :: "bytes \<Rightarrow> bytes" where
  "ser_bytes bs = ser_compact_integer (of_nat (length bs)) @ bs"

definition bytes_size :: "bytes \<Rightarrow> nat" where
  "bytes_size bs = compact_integer_size (of_nat (length bs)) + length bs"

definition de_bytes :: "bytes deserializer" where
  "de_bytes r = bind_read (de_compact_integer r) (\<lambda>len r. read_slice (unat len) r)"

definition ser_list :: "('a \<Rightarrow> bytes) \<Rightarrow> 'a list \<Rightarrow> bytes" where
  "ser_list ser xs = ser_compact_integer (of_nat (length xs)) @ concat (map ser xs)"

definition serialized_list_size :: "('a \<Rightarrow> nat) \<Rightarrow> 'a list \<Rightarrow> nat" where
  "serialized_list_size item_size xs =
     compact_integer_size (of_nat (length xs)) + sum_list (map item_size xs)"

fun read_n :: "'a deserializer \<Rightarrow> nat \<Rightarrow> 'a list deserializer" where
  "read_n de 0 r = Inr ([], r)"
| "read_n de (Suc n) r =
     bind_read (de r) (\<lambda>x r. bind_read (read_n de n r) (\<lambda>xs r. Inr (x # xs, r)))"

definition read_list :: "'a deserializer \<Rightarrow> 'a list deserializer" where
  "read_list de r = bind_read (de_compact_integer r) (\<lambda>len r. read_n de (unat len) r)"

definition read_list_max :: "'a deserializer \<Rightarrow> nat \<Rightarrow> 'a list deserializer" where
  "read_list_max de limit r =
     bind_read (de_compact_integer r)
       (\<lambda>len r. if unat len > limit then Inl MalformedData else read_n de (unat len) r)"

text \<open>\<^verbatim>\<open>str::as_bytes\<close> of an ASCII string, and its encoding.\<close>

definition ascii :: "string \<Rightarrow> bytes" where
  "ascii s = map of_char s"

definition ser_str :: "string \<Rightarrow> bytes" where
  "ser_str s = ser_compact_integer (of_nat (length (ascii s))) @ ascii s"

section \<open>Facts on little-endian words\<close>

lemma length_le_bytes [simp]: "length (le_bytes n w) = n"
  by (simp add: le_bytes_def)

lemma bit_of_le_bytes:
  "bit (of_le_bytes bs :: 'a::len word) k \<longleftrightarrow>
     k < LENGTH('a) \<and> k < 8 * length bs \<and> bit (bs ! (k div 8)) (k mod 8)"
proof (induction bs arbitrary: k)
  case (Cons b bs)
  show ?case
  proof (cases "k < 8")
    case True
    then show ?thesis by (auto simp: bit_simps)
  next
    case False
    then obtain j where k: "k = j + 8" using le_Suc_ex by (metis add.commute not_less)
    then have "bit (ucast b :: 'a word) k \<longleftrightarrow> False" by (auto simp: bit_simps dest: bit_imp_le_length)
    then show ?thesis using k Cons.IH [of j] by (auto simp: bit_simps)
  qed
qed simp

lemma of_le_bytes_le_bytes [simp]:
  assumes "LENGTH('a::len) = 8 * n"
  shows "of_le_bytes (le_bytes n (w :: 'a word)) = w"
proof (rule bit_word_eqI)
  fix k assume "k < LENGTH('a)"
  with assms have "k div 8 < n" "k mod 8 < 8" by (auto simp: less_mult_imp_div_less mult.commute)
  with \<open>k < LENGTH('a)\<close> assms show "bit (of_le_bytes (le_bytes n w) :: 'a word) k = bit w k"
    by (simp add: bit_of_le_bytes le_bytes_def bit_simps)
qed

section \<open>Facts on the reader\<close>

lemma bind_read_simps [simp]:
  "bind_read (Inl e) f = Inl e" "bind_read (Inr (x, r)) f = f x r"
  by (simp_all add: bind_read_def)

lemma remaining_reader_new [simp]: "remaining (reader_new bs) = bs"
  by (simp add: remaining_def reader_new_def)

lemma reader_read_remaining:
  assumes "n \<noteq> 0"
  shows "reader_read r n = (take n (remaining r), reader_new (drop n (remaining r)))"
  using assms
  by (cases r; cases "peeked r"; cases n) (auto simp: reader_read_def remaining_def reader_new_def)

lemma read_slice_eq:
  "read_slice n r =
     (if n = 0 then Inr ([], r)
      else if n \<le> length (remaining r)
           then Inr (take n (remaining r), reader_new (drop n (remaining r)))
           else Inl UnexpectedEnd)"
proof (induction n r rule: read_slice.induct)
  case (1 n r)
  show ?case
  proof (cases "n = 0 \<or> remaining r = []")
    case True
    then show ?thesis by (auto simp: read_slice.simps [of n r] reader_read_remaining)
  next
    case False
    let ?k = "n - length (take n (remaining r))"
    from False have rr: "reader_read r n = (take n (remaining r), reader_new (drop n (remaining r)))"
      by (simp add: reader_read_remaining)
    from False have ne: "take n (remaining r) \<noteq> []" by simp
    have "read_slice n r = bind_read (read_slice ?k (reader_new (drop n (remaining r))))
        (\<lambda>bs' r''. Inr (take n (remaining r) @ bs', r''))"
      using False ne by (simp add: read_slice.simps [of n r] rr)
    then show ?thesis using "1" [OF _ rr [symmetric] refl] False ne by simp
  qed
qed

lemma read_slice_append [simp]: "read_slice (length bs) (reader_new (bs @ rest)) = Inr (bs, reader_new rest)"
  by (simp add: read_slice_eq)

lemma reader_finished_iff: "fst (reader_is_finished r) \<longleftrightarrow> remaining r = []"
  by (auto simp: reader_is_finished_def read_slice_eq remaining_def Suc_le_eq split: option.splits)

lemma reader_is_finished_remaining: "remaining (snd (reader_is_finished r)) = remaining r"
  by (auto simp: reader_is_finished_def read_slice_eq remaining_def reader_new_def Suc_le_eq
      neq_Nil_conv split: option.splits)

lemma de_le_le_bytes:
  assumes "LENGTH('a::len) = 8 * n"
  shows "de_le n (reader_new (le_bytes n (w :: 'a word) @ rest)) = Inr (w, reader_new rest)"
proof -
  have "read_slice n (reader_new (le_bytes n w @ rest)) = Inr (le_bytes n w, reader_new rest)"
    using read_slice_append [of "le_bytes n w" rest] by simp
  with assms show ?thesis by (simp add: de_le_def)
qed

section \<open>Compact integers round trip\<close>

lemma unat_ucast_le:
  fixes i :: "'a::len word"
  assumes "unat i < 2 ^ LENGTH('b::len)"
  shows "unat (ucast i :: 'b word) = unat i"
  using assms by (simp add: unsigned_ucast_eq take_bit_nat_eq_self)

lemma ucast_ucast_id:
  fixes i :: "'a::len word"
  assumes "unat i < 2 ^ LENGTH('b::len)"
  shows "ucast (ucast i :: 'b word) = i"
proof -
  have "unat (ucast i :: 'b word) = unat i" using assms by (rule unat_ucast_le)
  moreover have "unat i < 2 ^ LENGTH('a)" by (rule unsigned_less)
  ultimately have "unat (ucast (ucast i :: 'b word) :: 'a word) = unat i"
    by (subst unat_ucast_le) simp_all
  then show ?thesis by (rule unsigned_word_eqI)
qed

lemma de_ser_primitive:
  "de_u8 (reader_new (ser_u8 a @ rest)) = Inr (a, reader_new rest)"
  "de_u16 (reader_new (ser_u16 b @ rest)) = Inr (b, reader_new rest)"
  "de_u32 (reader_new (ser_u32 c @ rest)) = Inr (c, reader_new rest)"
  "de_u64 (reader_new (ser_u64 d @ rest)) = Inr (d, reader_new rest)"
  "de_i32 (reader_new (ser_i32 c @ rest)) = Inr (c, reader_new rest)"
  "de_i64 (reader_new (ser_i64 d @ rest)) = Inr (d, reader_new rest)"
  "de_h256 (reader_new (ser_h256 h @ rest)) = Inr (h, reader_new rest)"
  by (simp_all add: de_u8_def ser_u8_def de_u16_def ser_u16_def de_u32_def ser_u32_def de_u64_def
      ser_u64_def de_i32_def ser_i32_def de_i64_def ser_i64_def de_h256_def ser_h256_def
      de_le_le_bytes)

lemma length_ser_primitive [simp]:
  "length (ser_u8 a) = 1" "length (ser_u16 b) = 2" "length (ser_u32 c) = 4" "length (ser_u64 d) = 8"
  "length (ser_i32 c) = 4" "length (ser_i64 d) = 8" "length (ser_h256 h) = 32"
  by (simp_all add: ser_u8_def ser_u16_def ser_u32_def ser_u64_def ser_i32_def ser_i64_def ser_h256_def)

lemma de_ser_compact_integer:
  "de_compact_integer (reader_new (ser_compact_integer i @ rest)) = Inr (i, reader_new rest)"
proof -
  consider "i \<le> 0xfc" | "\<not> i \<le> 0xfc" "i \<le> 0xffff" | "\<not> i \<le> 0xffff" "i \<le> 0xffffffff"
    | "\<not> i \<le> 0xffffffff" by blast
  then show ?thesis
  proof cases
    case 1
    then have "unat i \<le> 0xfc" by (simp add: word_le_nat_alt)
    then have "unat (ucast i :: u8) = unat i" by (intro unat_ucast_le) simp
    with \<open>unat i \<le> 0xfc\<close> have "(ucast i :: u8) \<le> 0xfc" by (simp add: word_le_nat_alt)
    moreover have "ucast (ucast i :: u8) = i" using \<open>unat i \<le> 0xfc\<close> by (intro ucast_ucast_id) simp
    ultimately show ?thesis using 1
      by (simp add: de_compact_integer_def ser_compact_integer_def de_ser_primitive)
  next
    case 2
    then have "ucast (ucast i :: u16) = i"
      by (intro ucast_ucast_id) (simp add: word_le_nat_alt)
    with 2 show ?thesis
      by (simp add: de_compact_integer_def ser_compact_integer_def de_ser_primitive)
  next
    case 3
    then have "ucast (ucast i :: u32) = i"
      by (intro ucast_ucast_id) (simp add: word_le_nat_alt)
    moreover from 3 have "\<not> i \<le> 0xfc" by (auto simp: word_le_nat_alt)
    ultimately show ?thesis using 3
      by (simp add: de_compact_integer_def ser_compact_integer_def de_ser_primitive)
  next
    case 4
    then have "\<not> i \<le> 0xfc" "\<not> i \<le> 0xffff" by (auto simp: word_le_nat_alt)
    with 4 show ?thesis
      by (simp add: de_compact_integer_def ser_compact_integer_def de_ser_primitive)
  qed
qed

lemma length_ser_compact_integer: "length (ser_compact_integer i) = compact_integer_size i"
  by (simp add: ser_compact_integer_def compact_integer_size_def)

lemma compact_integer_size_pos [simp]: "0 < compact_integer_size i"
  by (simp add: compact_integer_size_def)

lemma unat_of_nat_u64 [simp]: "n < 2 ^ 64 \<Longrightarrow> unat (of_nat n :: u64) = n"
  by (simp add: unat_of_nat take_bit_nat_eq_self)

section \<open>The codec interface\<close>

text \<open>
  \<^verbatim>\<open>Serializable\<close> and \<^verbatim>\<open>Deserializable\<close> of one type: reading back what was appended gives the value
  and leaves the reader right behind it.
\<close>

locale codec =
  fixes ser :: "'a \<Rightarrow> bytes"
    and de :: "'a deserializer"
    and valid :: "'a \<Rightarrow> bool"
  assumes round_trip: "valid x \<Longrightarrow> de (reader_new (ser x @ rest)) = Inr (x, reader_new rest)"
begin

lemma deserialize_serialize: "valid x \<Longrightarrow> deserialize de (ser x) = Inr x"
  using round_trip [of x "[]"] by (simp add: deserialize_def reader_finished_iff)

lemma deserialize_trailing:
  "valid x \<Longrightarrow> rest \<noteq> [] \<Longrightarrow> deserialize de (ser x @ rest) = Inl UnreadData"
  using round_trip [of x rest] by (simp add: deserialize_def reader_finished_iff)

lemma reader_new_inject: "reader_new a = reader_new b \<longleftrightarrow> a = b"
  by (simp add: reader_new_def)

lemma prefix_free:
  assumes "valid x" "valid y" "ser x @ r = ser y @ s"
  shows "x = y \<and> r = s"
proof -
  from round_trip [OF assms(1), of r] round_trip [OF assms(2), of s] assms(3)
  have "Inr (x, reader_new r) = (Inr (y, reader_new s) :: 'a read_result)" by simp
  then show ?thesis by (simp add: reader_new_inject)
qed

lemma proxy_sees_encoding:
  "valid x \<Longrightarrow> read_with_proxy de (reader_new (ser x @ rest)) = Inr ((x, ser x), reader_new rest)"
  by (simp add: read_with_proxy_def round_trip)

lemma read_n_concat:
  "list_all valid xs \<Longrightarrow>
   read_n de (length xs) (reader_new (concat (map ser xs) @ rest)) = Inr (xs, reader_new rest)"
  by (induction xs) (simp_all add: round_trip)

lemma read_list_ser_list:
  "list_all valid xs \<Longrightarrow> length xs < 2 ^ 64 \<Longrightarrow>
   read_list de (reader_new (ser_list ser xs @ rest)) = Inr (xs, reader_new rest)"
  by (simp add: read_list_def ser_list_def de_ser_compact_integer read_n_concat)

lemma list_codec: "codec (ser_list ser) (read_list de) (\<lambda>xs. list_all valid xs \<and> length xs < 2 ^ 64)"
  by unfold_locales (simp add: read_list_ser_list)

lemma read_list_max_ser_list:
  "list_all valid xs \<Longrightarrow> length xs < 2 ^ 64 \<Longrightarrow>
   read_list_max de limit (reader_new (ser_list ser xs @ rest)) =
     (if length xs \<le> limit then Inr (xs, reader_new rest) else Inl MalformedData)"
  by (simp add: read_list_max_def ser_list_def de_ser_compact_integer read_n_concat)

end

text \<open>A codec whose \<^verbatim>\<open>serialized_size\<close> is the length of the encoding.\<close>

locale sized_codec = codec +
  fixes size_of :: "'a \<Rightarrow> nat"
  assumes size_of: "length (ser x) = size_of x"
begin

lemma list_size: "length (ser_list ser xs) = serialized_list_size size_of xs"
proof -
  have "length (concat (map ser xs)) = sum_list (map size_of xs)"
    by (induction xs) (simp_all add: size_of)
  then show ?thesis by (simp add: ser_list_def serialized_list_size_def length_ser_compact_integer)
qed

end

interpretation u8: sized_codec ser_u8 de_u8 "\<lambda>_. True" "\<lambda>_. 1"
  by unfold_locales (simp_all add: de_ser_primitive)

interpretation u16: sized_codec ser_u16 de_u16 "\<lambda>_. True" "\<lambda>_. 2"
  by unfold_locales (simp_all add: de_ser_primitive)

interpretation u32: sized_codec ser_u32 de_u32 "\<lambda>_. True" "\<lambda>_. 4"
  by unfold_locales (simp_all add: de_ser_primitive)

interpretation u64: sized_codec ser_u64 de_u64 "\<lambda>_. True" "\<lambda>_. 8"
  by unfold_locales (simp_all add: de_ser_primitive)

interpretation i32: sized_codec ser_i32 de_i32 "\<lambda>_. True" "\<lambda>_. 4"
  by unfold_locales (simp_all add: de_ser_primitive)

interpretation i64: sized_codec ser_i64 de_i64 "\<lambda>_. True" "\<lambda>_. 8"
  by unfold_locales (simp_all add: de_ser_primitive)

interpretation h256: sized_codec ser_h256 de_h256 "\<lambda>_. True" "\<lambda>_. 32"
  by unfold_locales (simp_all add: de_ser_primitive)

lemma ser_bool_u8: "ser_bool b = ser_u8 (if b then 1 else 0)"
  by (simp add: ser_bool_def ser_u8_def le_bytes_def)

interpretation bool: sized_codec ser_bool de_bool "\<lambda>_. True" "\<lambda>_. 1"
  by unfold_locales (simp_all add: de_bool_def ser_bool_u8 de_ser_primitive)

interpretation compact_integer:
  sized_codec ser_compact_integer de_compact_integer "\<lambda>_. True" compact_integer_size
  by unfold_locales (simp_all add: de_ser_compact_integer length_ser_compact_integer)

interpretation byte_string: sized_codec ser_bytes de_bytes "\<lambda>bs. length bs < 2 ^ 64" bytes_size
  by unfold_locales (simp_all add: de_bytes_def ser_bytes_def bytes_size_def de_ser_compact_integer
      length_ser_compact_integer)

lemma of_char_u8_inject: "(of_char c :: u8) = of_char d \<longleftrightarrow> c = d"
proof
  assume "(of_char c :: u8) = of_char d"
  then have "unat (of_nat (of_char c) :: u8) = unat (of_nat (of_char d) :: u8)"
    by (simp only: of_nat_of_char)
  moreover have "unat (of_nat (of_char e) :: u8) = (of_char e :: nat)" for e
    by (simp add: unat_of_nat take_bit_nat_eq_self)
  ultimately have "(of_char c :: nat) = of_char d" by simp
  then show "c = d" by simp
qed simp

lemma ascii_inject: "ascii s = ascii t \<longleftrightarrow> s = t"
  by (simp add: ascii_def inj_map_eq_map inj_def of_char_u8_inject)

lemma ser_str_inject: "ser_str s = ser_str t \<longleftrightarrow> s = t"
  using compact_integer.prefix_free
      [of "of_nat (length (ascii s))" "ascii s" "of_nat (length (ascii t))" "ascii t"]
  by (auto simp: ser_str_def ascii_inject)

end
