(* ===== verification/Externals.thy ===== *)
theory Externals
  imports Serialization
begin

text \<open>
  The third-party code the program calls, as parameters. \<open>externs\<close> bundles the functions of the
  crates \<^verbatim>\<open>rug\<close> (big integers), \<^verbatim>\<open>rust-crypto\<close>/\<^verbatim>\<open>sha2\<close> (SHA-256) and \<^verbatim>\<open>ecvrf\<close> (public keys); the
  definitions that use them take it as their first argument. What the program relies on is
  stated by the predicates below, each the documented behaviour of one crate; the instance
  \<open>reference_externs\<close> shows that they can hold together.

  \<^item> A \<^verbatim>\<open>rug::Integer\<close> is an \<open>int\<close>; its multiplication, shift and floor remainder are those of
    \<open>int\<close>.
  \<^item> A \<^verbatim>\<open>VrfPk\<close> is represented by the 32 bytes \<^verbatim>\<open>to_bytes\<close> returns.
\<close>

record externs =
  sha256 :: "bytes \<Rightarrow> h256"
  to_digits_msf :: "int \<Rightarrow> bytes"
  from_digits_msf :: "bytes \<Rightarrow> int"
  to_digits_lsf :: "int \<Rightarrow> bytes"
  from_digits_lsf :: "bytes \<Rightarrow> int"
  pow_mod :: "int \<Rightarrow> int \<Rightarrow> int \<Rightarrow> int option"
  vrf_from_bytes :: "h256 \<Rightarrow> h256 option"

text \<open>\<^verbatim>\<open>Integer::to_digits\<close>/\<^verbatim>\<open>from_digits\<close> with base-256 digits: a non-negative integer is recovered.\<close>

definition digits_ok :: "externs \<Rightarrow> bool" where
  "digits_ok X \<longleftrightarrow> (\<forall>n \<ge> 0. from_digits_msf X (to_digits_msf X n) = n)"

text \<open>\<^verbatim>\<open>Integer::pow_mod\<close>: the power modulo a positive modulus, for a non-negative exponent.\<close>

definition pow_mod_ok :: "externs \<Rightarrow> bool" where
  "pow_mod_ok X \<longleftrightarrow> (\<forall>b e m. 0 \<le> e \<longrightarrow> 0 < m \<longrightarrow> pow_mod X b e m = Some (b ^ nat e mod m))"

section \<open>Double SHA-256\<close>

definition dhash256 :: "externs \<Rightarrow> bytes \<Rightarrow> h256" where
  "dhash256 X input = sha256 X (ser_h256 (sha256 X input))"

definition checksum :: "externs \<Rightarrow> bytes \<Rightarrow> u32" where
  "checksum X data = ucast (dhash256 X data)"

section \<open>An instance\<close>

fun lsf_digits :: "nat \<Rightarrow> bytes" where
  "lsf_digits n = (if n = 0 then [] else of_nat (n mod 256) # lsf_digits (n div 256))"

declare lsf_digits.simps [simp del]

fun lsf_value :: "bytes \<Rightarrow> nat" where
  "lsf_value [] = 0"
| "lsf_value (b # bs) = unat b + 256 * lsf_value bs"

lemma lsf_value_digits [simp]: "lsf_value (lsf_digits n) = n"
proof (induction n rule: lsf_digits.induct)
  case (1 n)
  have "unat (of_nat (n mod 256) :: u8) = n mod 256" by (simp add: unat_of_nat take_bit_nat_eq_self)
  with "1" show ?case by (subst lsf_digits.simps) simp
qed

definition reference_externs :: externs where
  "reference_externs =
     \<lparr>sha256 = (\<lambda>bs. of_nat (lsf_value bs)),
      to_digits_msf = (\<lambda>n. rev (lsf_digits (nat \<bar>n\<bar>))),
      from_digits_msf = (\<lambda>bs. int (lsf_value (rev bs))),
      to_digits_lsf = (\<lambda>n. lsf_digits (nat \<bar>n\<bar>)),
      from_digits_lsf = (\<lambda>bs. int (lsf_value bs)),
      pow_mod = (\<lambda>b e m. if 0 \<le> e \<and> 0 < m then Some (b ^ nat e mod m) else None),
      vrf_from_bytes = Some\<rparr>"

lemma reference_externs_ok: "digits_ok reference_externs" "pow_mod_ok reference_externs"
  by (simp_all add: digits_ok_def pow_mod_ok_def reference_externs_def)

end
