(* ===== verification/Block_Types.thy ===== *)
theory Block_Types
  imports Externals
begin

text \<open>
  Blocks and block headers (\<^verbatim>\<open>chain/src\<close>): the records, their encoding, the header hash, and the
  deserialization of an indexed header, which hashes the bytes while it parses them.
\<close>

section \<open>Headers and blocks\<close>

record BlockHeader =
  version :: u32
  previous_header_hash :: h256
  time :: u32
  bits :: u32
  pubkey :: h256
  iterations :: u32
  randomness :: int

record Block =
  block_header :: BlockHeader
  block_proof :: "int list"

record IndexedBlockHeader =
  hash :: h256
  raw :: BlockHeader

record IndexedBlock =
  header :: IndexedBlockHeader
  vdf_proof :: "int list"

section \<open>Encoding\<close>

text \<open>\<^verbatim>\<open>Compact\<close> is a wrapped \<^verbatim>\<open>u32\<close> and is encoded as one.\<close>

definition ser_compact :: "u32 \<Rightarrow> bytes" where "ser_compact c = ser_u32 c"
definition de_compact :: "u32 deserializer" where "de_compact = de_u32"

definition ser_integer :: "externs \<Rightarrow> int \<Rightarrow> bytes" where
  "ser_integer X n =
     (let digits = to_digits_msf X n
      in ser_compact_integer (of_nat (length digits)) @ digits)"

definition integer_size :: "externs \<Rightarrow> int \<Rightarrow> nat" where
  "integer_size X n =
     (let digits = to_digits_msf X n
      in compact_integer_size (of_nat (length digits)) + length digits)"

definition de_integer :: "externs \<Rightarrow> int deserializer" where
  "de_integer X r = bind_read (de_bytes r) (\<lambda>digits r. Inr (from_digits_msf X digits, r))"

definition ser_header :: "externs \<Rightarrow> BlockHeader \<Rightarrow> bytes" where
  "ser_header X h =
     ser_u32 (version h) @ ser_h256 (previous_header_hash h) @ ser_u32 (time h) @
     ser_compact (bits h) @ ser_bytes (ser_h256 (pubkey h)) @ ser_u32 (iterations h) @
     ser_integer X (randomness h)"

definition de_pubkey :: "externs \<Rightarrow> h256 deserializer" where
  "de_pubkey X r =
     bind_read (de_bytes r) (\<lambda>pk_bytes r.
       if length pk_bytes \<noteq> 32 then Inl MalformedData
       else case vrf_from_bytes X (of_le_bytes pk_bytes) of
              None \<Rightarrow> Inl MalformedData
            | Some pk \<Rightarrow> Inr (pk, r))"

definition de_header :: "externs \<Rightarrow> BlockHeader deserializer" where
  "de_header X r =
     bind_read (de_u32 r) (\<lambda>version r.
     bind_read (de_h256 r) (\<lambda>previous_header_hash r.
     bind_read (de_u32 r) (\<lambda>time r.
     bind_read (de_compact r) (\<lambda>bits r.
     bind_read (de_pubkey X r) (\<lambda>pubkey r.
     bind_read (de_u32 r) (\<lambda>iterations r.
     bind_read (de_integer X r) (\<lambda>randomness r.
       Inr (\<lparr>version = version, previous_header_hash = previous_header_hash, time = time,
             bits = bits, pubkey = pubkey, iterations = iterations,
             randomness = randomness\<rparr>, r))))))))"

definition block_header_hash :: "externs \<Rightarrow> BlockHeader \<Rightarrow> h256" where
  "block_header_hash X h = dhash256 X (ser_header X h)"

definition ser_block :: "externs \<Rightarrow> Block \<Rightarrow> bytes" where
  "ser_block X b = ser_header X (block_header b) @ ser_list (ser_integer X) (block_proof b)"

definition de_block :: "externs \<Rightarrow> Block deserializer" where
  "de_block X r =
     bind_read (de_header X r) (\<lambda>h r.
     bind_read (read_list (de_integer X) r) (\<lambda>p r.
       Inr (\<lparr>block_header = h, block_proof = p\<rparr>, r)))"

section \<open>Indexed blocks\<close>

definition indexed_header_from_raw :: "externs \<Rightarrow> BlockHeader \<Rightarrow> IndexedBlockHeader" where
  "indexed_header_from_raw X h = \<lparr>hash = block_header_hash X h, raw = h\<rparr>"

definition indexed_block_from_raw :: "externs \<Rightarrow> Block \<Rightarrow> IndexedBlock" where
  "indexed_block_from_raw X b =
     \<lparr>header = indexed_header_from_raw X (block_header b), vdf_proof = block_proof b\<rparr>"

definition to_raw_block :: "IndexedBlock \<Rightarrow> Block" where
  "to_raw_block b = \<lparr>block_header = raw (header b), block_proof = vdf_proof b\<rparr>"

abbreviation block_hash_of :: "IndexedBlock \<Rightarrow> h256" where
  "block_hash_of b \<equiv> hash (header b)"

definition indexed_block_size :: "externs \<Rightarrow> IndexedBlock \<Rightarrow> nat" where
  "indexed_block_size X b =
     length (ser_header X (raw (header b))) + serialized_list_size (integer_size X) (vdf_proof b)"

record 'a HashedData =
  hd_size :: nat
  hd_hash :: h256
  hd_data :: 'a

definition read_and_hash :: "externs \<Rightarrow> 'a deserializer \<Rightarrow> 'a HashedData deserializer" where
  "read_and_hash X de r =
     bind_read (read_with_proxy de r) (\<lambda>(data, seen) r.
       Inr (\<lparr>hd_size = length seen, hd_hash = dhash256 X seen, hd_data = data\<rparr>, r))"

definition de_indexed_header :: "externs \<Rightarrow> IndexedBlockHeader deserializer" where
  "de_indexed_header X r =
     bind_read (read_and_hash X (de_header X) r) (\<lambda>d r. Inr (\<lparr>hash = hd_hash d, raw = hd_data d\<rparr>, r))"

definition de_indexed_block :: "externs \<Rightarrow> IndexedBlock deserializer" where
  "de_indexed_block X r =
     bind_read (de_indexed_header X r) (\<lambda>h r.
     bind_read (read_list (de_integer X) r) (\<lambda>p r.
       Inr (\<lparr>header = h, vdf_proof = p\<rparr>, r)))"

section \<open>Round trips\<close>

text \<open>
  The values that can be encoded: the number of digits and of proof elements fits the length
  prefix, and the public key is one the key parser accepts and leaves unchanged.
\<close>

definition valid_integer :: "externs \<Rightarrow> int \<Rightarrow> bool" where
  "valid_integer X n \<longleftrightarrow> 0 \<le> n \<and> length (to_digits_msf X n) < 2 ^ 64"

definition valid_header :: "externs \<Rightarrow> BlockHeader \<Rightarrow> bool" where
  "valid_header X h \<longleftrightarrow>
     valid_integer X (randomness h) \<and> vrf_from_bytes X (pubkey h) = Some (pubkey h)"

definition valid_block :: "externs \<Rightarrow> Block \<Rightarrow> bool" where
  "valid_block X b \<longleftrightarrow> valid_header X (block_header b) \<and>
     list_all (valid_integer X) (block_proof b) \<and> length (block_proof b) < 2 ^ 64"

lemma ser_integer_bytes: "ser_integer X n = ser_bytes (to_digits_msf X n)"
  by (simp add: ser_integer_def ser_bytes_def Let_def)

lemma integer_codec:
  assumes "digits_ok X"
  shows "sized_codec (ser_integer X) (de_integer X) (valid_integer X) (integer_size X)"
proof unfold_locales
  fix n rest
  assume "valid_integer X n"
  with assms show "de_integer X (reader_new (ser_integer X n @ rest)) = Inr (n, reader_new rest)"
    by (simp add: de_integer_def ser_integer_bytes byte_string.round_trip valid_integer_def digits_ok_def)
next
  fix n
  show "length (ser_integer X n) = integer_size X n"
    by (simp add: ser_integer_bytes byte_string.size_of integer_size_def bytes_size_def Let_def)
qed

lemma de_pubkey_ser:
  assumes "vrf_from_bytes X pk = Some pk"
  shows "de_pubkey X (reader_new (ser_bytes (ser_h256 pk) @ rest)) = Inr (pk, reader_new rest)"
proof -
  have "of_le_bytes (ser_h256 pk) = pk" by (simp add: ser_h256_def)
  with assms show ?thesis by (simp add: de_pubkey_def byte_string.round_trip)
qed

lemma header_codec:
  assumes "digits_ok X"
  shows "codec (ser_header X) (de_header X) (valid_header X)"
proof unfold_locales
  fix h rest
  assume "valid_header X h"
  with assms show "de_header X (reader_new (ser_header X h @ rest)) = Inr (h, reader_new rest)"
    by (simp add: de_header_def ser_header_def ser_compact_def de_compact_def valid_header_def
        u32.round_trip h256.round_trip de_pubkey_ser
        sized_codec.axioms(1) [OF integer_codec, THEN codec.round_trip])
qed

lemma block_codec:
  assumes "digits_ok X"
  shows "codec (ser_block X) (de_block X) (valid_block X)"
proof unfold_locales
  fix b rest
  assume "valid_block X b"
  with assms show "de_block X (reader_new (ser_block X b @ rest)) = Inr (b, reader_new rest)"
    by (simp add: de_block_def ser_block_def valid_block_def codec.round_trip [OF header_codec]
        codec.read_list_ser_list [OF sized_codec.axioms(1) [OF integer_codec]])
qed

lemma de_indexed_header_ser:
  assumes "digits_ok X" "valid_header X h"
  shows "de_indexed_header X (reader_new (ser_header X h @ rest)) =
           Inr (indexed_header_from_raw X h, reader_new rest)"
  using codec.proxy_sees_encoding [OF header_codec [OF assms(1)] assms(2), of rest]
  by (simp add: de_indexed_header_def read_and_hash_def indexed_header_from_raw_def block_header_hash_def)

text \<open>C21: a block that is written and read back is the same block, whatever follows it in the stream
  is left for the next reader, and a buffer with trailing bytes is rejected.\<close>

theorem block_round_trip:
  assumes "digits_ok X" "valid_block X b"
  shows "de_block X (reader_new (ser_block X b @ rest)) = Inr (b, reader_new rest) \<and>
         deserialize (de_block X) (ser_block X b @ rest) = (if rest = [] then Inr b else Inl UnreadData)"
  using codec.round_trip [OF block_codec [OF assms(1)] assms(2)]
    codec.deserialize_serialize [OF block_codec [OF assms(1)] assms(2)]
    codec.deserialize_trailing [OF block_codec [OF assms(1)] assms(2)]
  by simp

definition sample_header :: BlockHeader where
  "sample_header = \<lparr>version = 1, previous_header_hash = 2, time = 4, bits = 5, pubkey = 6,
                    iterations = 7, randomness = 8\<rparr>"

definition sample_block :: Block where
  "sample_block = \<lparr>block_header = sample_header, block_proof = [1, 2]\<rparr>"

lemma sample_valid: "valid_header reference_externs sample_header"
    "valid_block reference_externs sample_block"
  by (simp_all add: sample_header_def sample_block_def valid_header_def valid_block_def
      valid_integer_def reference_externs_def lsf_digits.simps)

theorem block_round_trip_witness:
  "de_block reference_externs (reader_new (ser_block reference_externs sample_block @ [7])) =
     Inr (sample_block, reader_new [7])"
  using block_round_trip [OF reference_externs_ok(1) sample_valid(2), of "[7]"] by simp

lemma de_indexed_block_raw:
  "de_block X r = (case de_indexed_block X r of Inl e \<Rightarrow> Inl e | Inr (b, r') \<Rightarrow> Inr (to_raw_block b, r'))"
  by (auto simp: de_block_def de_indexed_block_def de_indexed_header_def read_and_hash_def read_with_proxy_def
      bind_read_def to_raw_block_def Let_def split: sum.splits)

text \<open>C20: on the bytes that serializing a block gives, hashing while the block is parsed gives the same indexed block as
  parsing first and hashing the encoded header, and the advertised size of the indexed block is the length of these bytes.
  On any bytes at all, parsing to an indexed block and parsing to a block fail with the same error or read the same block and
  leave the same rest.\<close>

theorem indexed_block_parse_hash:
  assumes "digits_ok X" "valid_block X b"
  shows "de_block X r = (case de_indexed_block X r of Inl e \<Rightarrow> Inl e | Inr (b', r') \<Rightarrow> Inr (to_raw_block b', r')) \<and>
         de_indexed_block X (reader_new (ser_block X b @ rest)) =
           Inr (indexed_block_from_raw X b, reader_new rest) \<and>
         to_raw_block (indexed_block_from_raw X b) = b \<and>
         indexed_block_size X (indexed_block_from_raw X b) = length (ser_block X b)"
proof -
  from assms(2) have v: "valid_header X (block_header b)" "list_all (valid_integer X) (block_proof b)"
    "length (block_proof b) < 2 ^ 64" by (simp_all add: valid_block_def)
  have "de_indexed_block X (reader_new (ser_block X b @ rest)) =
          Inr (indexed_block_from_raw X b, reader_new rest)"
    using v by (simp add: de_indexed_block_def ser_block_def indexed_block_from_raw_def
        de_indexed_header_ser [OF assms(1)]
        codec.read_list_ser_list [OF sized_codec.axioms(1) [OF integer_codec [OF assms(1)]]])
  moreover have "indexed_block_size X (indexed_block_from_raw X b) = length (ser_block X b)"
    by (simp add: indexed_block_size_def indexed_block_from_raw_def indexed_header_from_raw_def
        ser_block_def sized_codec.list_size [OF integer_codec [OF assms(1)]])
  ultimately show ?thesis using de_indexed_block_raw
    by (simp add: to_raw_block_def indexed_block_from_raw_def indexed_header_from_raw_def)
qed

theorem indexed_block_parse_hash_witness:
  "de_indexed_block reference_externs (reader_new (ser_block reference_externs sample_block @ [])) =
     Inr (indexed_block_from_raw reference_externs sample_block, reader_new [])"
  using indexed_block_parse_hash [OF reference_externs_ok(1) sample_valid(2), where rest = "[]"] by simp

text \<open>
  The length prefix of the public key written with three bytes instead of one, as a sender may
  do.
\<close>

definition ser_header_wide :: "externs \<Rightarrow> BlockHeader \<Rightarrow> bytes" where
  "ser_header_wide X h =
     ser_u32 (version h) @ ser_h256 (previous_header_hash h) @ ser_u32 (time h) @
     ser_compact (bits h) @ (ser_u8 0xfd @ ser_u16 32 @ ser_h256 (pubkey h)) @
     ser_u32 (iterations h) @ ser_integer X (randomness h)"

lemma de_pubkey_wide:
  assumes "vrf_from_bytes X pk = Some pk"
  shows "de_pubkey X (reader_new (ser_u8 0xfd @ ser_u16 32 @ ser_h256 pk @ rest)) =
           Inr (pk, reader_new rest)"
proof -
  have "of_le_bytes (ser_h256 pk) = pk" by (simp add: ser_h256_def)
  moreover have "read_slice 32 (reader_new (ser_h256 pk @ rest)) = Inr (ser_h256 pk, reader_new rest)"
    using read_slice_append [of "ser_h256 pk" rest] by simp
  ultimately show ?thesis using assms
    by (simp add: de_pubkey_def de_bytes_def de_compact_integer_def u8.round_trip u16.round_trip)
qed

text \<open>The length prefixes inside a header are not required to be minimal, so a header has further
  encodings that parse to the same fields; the indexed header then carries the hash of the
  bytes received, which is the hash of a different string than the canonical encoding.\<close>

theorem indexed_header_hash_malleable:
  assumes "digits_ok X" "valid_header X h"
  shows "de_indexed_header X (reader_new (ser_header_wide X h)) =
           Inr (\<lparr>hash = dhash256 X (ser_header_wide X h), raw = h\<rparr>, reader_new []) \<and>
         ser_header_wide X h \<noteq> ser_header X h"
proof -
  have "de_header X (reader_new (ser_header_wide X h @ [])) = Inr (h, reader_new [])"
    using assms
    by (simp add: de_header_def ser_header_wide_def ser_compact_def de_compact_def valid_header_def
        u32.round_trip h256.round_trip de_pubkey_wide
        sized_codec.axioms(1) [OF integer_codec, THEN codec.round_trip] del: append_Nil2)
  then have "read_with_proxy (de_header X) (reader_new (ser_header_wide X h)) =
      Inr ((h, ser_header_wide X h), reader_new [])"
    by (simp add: read_with_proxy_def)
  moreover have "length (ser_header_wide X h) = length (ser_header X h) + 2"
    by (simp add: ser_header_wide_def ser_header_def ser_bytes_def length_ser_compact_integer
        compact_integer_size_def ser_compact_def)
  ultimately show ?thesis by (auto simp: de_indexed_header_def read_and_hash_def)
qed

theorem indexed_header_hash_malleable_witness:
  "ser_header_wide reference_externs sample_header \<noteq> ser_header reference_externs sample_header"
  using indexed_header_hash_malleable [OF reference_externs_ok(1) sample_valid(1)] by simp

end
