(* ===== verification/Messages.thy ===== *)
theory Messages
  imports Block_Types
begin

text \<open>
  The messages of the peer-to-peer protocol (\<^verbatim>\<open>message/src\<close>) and the framing of messages on a connection
  (\<^verbatim>\<open>p2p/src/io\<close>). The trait \<^verbatim>\<open>Payload\<close> is a record of the operations of a type; its contract is the locale
  \<open>payload_codec\<close>, which every message type interprets. Shown: a message that is framed and sent is read back,
  whatever follows it on the connection.

  A \<^verbatim>\<open>String\<close> is the list of its UTF-8 bytes, an IP address the word of its octets in network order, and the bytes that
  arrive on a connection are a list.
\<close>

section \<open>Strings\<close>

text \<open>
  \<^verbatim>\<open>String::from_utf8_lossy\<close>: the number of bytes of the next well-formed character, or the number of bytes that
  are replaced by U+FFFD.
\<close>

definition utf8_cont :: "u8 \<Rightarrow> bool" where
  "utf8_cont b \<longleftrightarrow> 0x80 \<le> b \<and> b \<le> 0xbf"

fun utf8_second :: "u8 \<Rightarrow> u8 \<Rightarrow> bool" where
  "utf8_second a b =
     (if a = 0xe0 then 0xa0 \<le> b \<and> b \<le> 0xbf
      else if a = 0xed then 0x80 \<le> b \<and> b \<le> 0x9f
      else if a = 0xf0 then 0x90 \<le> b \<and> b \<le> 0xbf
      else if a = 0xf4 then 0x80 \<le> b \<and> b \<le> 0x8f
      else utf8_cont b)"

definition utf8_width :: "u8 \<Rightarrow> nat" where
  "utf8_width a =
     (if a < 0x80 then 1 else if 0xc2 \<le> a \<and> a \<le> 0xdf then 2 else if 0xe0 \<le> a \<and> a \<le> 0xef then 3
      else if 0xf0 \<le> a \<and> a \<le> 0xf4 then 4 else 0)"

definition utf8_next :: "u8 \<Rightarrow> bytes \<Rightarrow> bool \<times> nat" where
  "utf8_next a rest =
     (let w = utf8_width a; ok = (\<lambda>i p. i < length rest \<and> p (rest ! i))
      in if w = 0 then (False, 1)
         else if w = 1 then (True, 1)
         else if \<not> ok 0 (utf8_second a) then (False, 1)
         else if w = 2 then (True, 2)
         else if \<not> ok 1 utf8_cont then (False, 2)
         else if w = 3 then (True, 3)
         else if \<not> ok 2 utf8_cont then (False, 3) else (True, 4))"

function utf8_lossy :: "bytes \<Rightarrow> bytes" where
  "utf8_lossy [] = []"
| "utf8_lossy (a # rest) =
     (let (valid, n) = utf8_next a rest
      in (if valid then take n (a # rest) else [0xef, 0xbf, 0xbd]) @ utf8_lossy (drop (n - 1) rest))"
  by pat_completeness auto
termination by (relation "measure length") auto

definition ser_string :: "bytes \<Rightarrow> bytes" where
  "ser_string s = ser_compact_integer (of_nat (length s)) @ s"

definition de_string :: "bytes deserializer" where
  "de_string r = bind_read (de_bytes r) (\<lambda>bs r. Inr (utf8_lossy bs, r))"

section \<open>Common types\<close>

datatype InventoryType = InvError | MessageBlock

definition inventory_from_u32 :: "u32 \<Rightarrow> InventoryType option" where
  "inventory_from_u32 v = (if v = 0 then Some InvError else if v = 1 then Some MessageBlock else None)"

fun inventory_to_u32 :: "InventoryType \<Rightarrow> u32" where
  "inventory_to_u32 InvError = 0"
| "inventory_to_u32 MessageBlock = 1"

definition ser_inventory_type :: "InventoryType \<Rightarrow> bytes" where
  "ser_inventory_type t = ser_u32 (inventory_to_u32 t)"

definition de_inventory_type :: "InventoryType deserializer" where
  "de_inventory_type r =
     bind_read (de_u32 r) (\<lambda>t r. case inventory_from_u32 t of Some t \<Rightarrow> Inr (t, r) | None \<Rightarrow> Inl MalformedData)"

record InventoryVector =
  inv_type :: InventoryType
  inv_hash :: h256

definition inventory_block :: "h256 \<Rightarrow> InventoryVector" where
  "inventory_block h = \<lparr>inv_type = MessageBlock, inv_hash = h\<rparr>"

definition ser_inventory :: "InventoryVector \<Rightarrow> bytes" where
  "ser_inventory v = ser_inventory_type (inv_type v) @ ser_h256 (inv_hash v)"

definition de_inventory :: "InventoryVector deserializer" where
  "de_inventory r =
     bind_read (de_inventory_type r) (\<lambda>t r. bind_read (de_h256 r) (\<lambda>h r. Inr (\<lparr>inv_type = t, inv_hash = h\<rparr>, r)))"

type_synonym Services = u64

definition services_set_bit :: "Services \<Rightarrow> nat \<Rightarrow> bool \<Rightarrow> Services" where
  "services_set_bit s k v = (if v then s OR push_bit k 1 else s AND NOT (push_bit k 1))"

definition services_bit_at :: "Services \<Rightarrow> nat \<Rightarrow> bool" where
  "services_bit_at s k \<longleftrightarrow> s AND push_bit k 1 \<noteq> 0"

definition services_network :: "Services \<Rightarrow> bool" where
  "services_network s = services_bit_at s 0"

definition services_with_network :: "Services \<Rightarrow> bool \<Rightarrow> Services" where
  "services_with_network s v = services_set_bit s 0 v"

definition services_includes :: "Services \<Rightarrow> Services \<Rightarrow> bool" where
  "services_includes s other \<longleftrightarrow> s AND other = other"

definition ser_port :: "u16 \<Rightarrow> bytes" where
  "ser_port p = rev (le_bytes 2 p)"

definition de_port :: "u16 deserializer" where
  "de_port r = bind_read (read_slice 2 r) (\<lambda>bs r. Inr (of_le_bytes (rev bs), r))"

datatype IpAddress = IpV4 u32 | IpV6 "128 word"

definition ip_default :: IpAddress where
  "ip_default = IpV4 0"

fun ser_ip :: "IpAddress \<Rightarrow> bytes" where
  "ser_ip (IpV4 a) = replicate 12 0 @ rev (le_bytes 4 a)"
| "ser_ip (IpV6 a) = rev (le_bytes 16 a)"

definition de_ip :: "IpAddress deserializer" where
  "de_ip r =
     bind_read (read_slice 12 r) (\<lambda>bs r.
       if bs = replicate 12 0
       then bind_read (read_slice 4 r) (\<lambda>a r. Inr (IpV4 (of_le_bytes (rev a)), r))
       else bind_read (read_slice 4 r) (\<lambda>low r. Inr (IpV6 (of_le_bytes (rev (bs @ low))), r)))"

record NetAddress =
  na_services :: Services
  na_address :: IpAddress
  na_port :: u16

definition ser_net_address :: "NetAddress \<Rightarrow> bytes" where
  "ser_net_address a = ser_u64 (na_services a) @ ser_ip (na_address a) @ ser_port (na_port a)"

definition de_net_address :: "NetAddress deserializer" where
  "de_net_address r =
     bind_read (de_u64 r) (\<lambda>s r. bind_read (de_ip r) (\<lambda>a r. bind_read (de_port r) (\<lambda>p r.
       Inr (\<lparr>na_services = s, na_address = a, na_port = p\<rparr>, r))))"

section \<open>Commands\<close>

text \<open>A command is an \<^verbatim>\<open>H96\<close>: twelve bytes, padded with zeros on the right.\<close>

type_synonym Command = "96 word"

datatype MessageError = Deserialize | InvalidCommand | InvalidMagic | InvalidChecksum | InvalidVersion

definition command_from_str :: "string \<Rightarrow> MessageError + Command" where
  "command_from_str s =
     (if \<not> list_all (\<lambda>c. of_char c < (128 :: nat)) s \<or> length s > 12 then Inl InvalidCommand
      else Inr (of_le_bytes (ascii s)))"

definition command_len :: "Command \<Rightarrow> nat" where
  "command_len c = 12 - length (takeWhile ((=) 0) (rev (le_bytes 12 c)))"

definition command_is :: "Command \<Rightarrow> string \<Rightarrow> bool" where
  "command_is c s \<longleftrightarrow> command_len c = length s \<and> take (length s) (le_bytes 12 c) = ascii s"

definition ser_command :: "Command \<Rightarrow> bytes" where "ser_command c = le_bytes 12 c"
definition de_command :: "Command deserializer" where "de_command = de_le 12"

section \<open>The Payload trait\<close>

record 'a Payload =
  pl_version :: u32
  pl_command :: string
  pl_de :: "u32 \<Rightarrow> 'a deserializer"
  pl_ser :: "u32 \<Rightarrow> 'a \<Rightarrow> bytes"

definition deserialize_payload :: "'a Payload \<Rightarrow> bytes \<Rightarrow> u32 \<Rightarrow> MessageError + 'a" where
  "deserialize_payload P bs ver =
     (if pl_version P > ver then Inl InvalidVersion
      else case pl_de P ver (reader_new bs) of
             Inl _ \<Rightarrow> Inl Deserialize
           | Inr (x, r) \<Rightarrow> if fst (reader_is_finished r) then Inr x else Inl Deserialize)"

definition serialize_payload :: "'a Payload \<Rightarrow> 'a \<Rightarrow> u32 \<Rightarrow> MessageError + bytes" where
  "serialize_payload P x ver = (if pl_version P > ver then Inl InvalidVersion else Inr (pl_ser P ver x))"

section \<open>Message types\<close>

datatype Verack = Verack

definition Verack_payload :: "Verack Payload" where
  "Verack_payload = \<lparr>pl_version = 0, pl_command = ''verack'', pl_de = \<lambda>_ r. Inr (Verack, r), pl_ser = \<lambda>_ _. []\<rparr>"

datatype GetAddr = GetAddr

definition GetAddr_payload :: "GetAddr Payload" where
  "GetAddr_payload = \<lparr>pl_version = 0, pl_command = ''getaddr'', pl_de = \<lambda>_ r. Inr (GetAddr, r), pl_ser = \<lambda>_ _. []\<rparr>"

datatype SendHeaders = SendHeaders

definition SendHeaders_payload :: "SendHeaders Payload" where
  "SendHeaders_payload =
     \<lparr>pl_version = 70012, pl_command = ''sendheaders'', pl_de = \<lambda>_ r. Inr (SendHeaders, r), pl_ser = \<lambda>_ _. []\<rparr>"

record Ping =
  ping_nonce :: u64

definition Ping_payload :: "Ping Payload" where
  "Ping_payload =
     \<lparr>pl_version = 0, pl_command = ''ping'',
      pl_de = \<lambda>_ r. bind_read (de_u64 r) (\<lambda>n r. Inr (\<lparr>ping_nonce = n\<rparr>, r)),
      pl_ser = \<lambda>_ m. ser_u64 (ping_nonce m)\<rparr>"

record Pong =
  pong_nonce :: u64

definition Pong_payload :: "Pong Payload" where
  "Pong_payload =
     \<lparr>pl_version = 0, pl_command = ''pong'',
      pl_de = \<lambda>_ r. bind_read (de_u64 r) (\<lambda>n r. Inr (\<lparr>pong_nonce = n\<rparr>, r)),
      pl_ser = \<lambda>_ m. ser_u64 (pong_nonce m)\<rparr>"

record Inv =
  inv_inventory :: "InventoryVector list"

definition Inv_payload :: "Inv Payload" where
  "Inv_payload =
     \<lparr>pl_version = 0, pl_command = ''inv'',
      pl_de = \<lambda>_ r. bind_read (read_list_max de_inventory 50000 r) (\<lambda>xs r. Inr (\<lparr>inv_inventory = xs\<rparr>, r)),
      pl_ser = \<lambda>_ m. ser_list ser_inventory (inv_inventory m)\<rparr>"

record GetData =
  gd_inventory :: "InventoryVector list"

definition GetData_payload :: "GetData Payload" where
  "GetData_payload =
     \<lparr>pl_version = 0, pl_command = ''getdata'',
      pl_de = \<lambda>_ r. bind_read (read_list_max de_inventory 50000 r) (\<lambda>xs r. Inr (\<lparr>gd_inventory = xs\<rparr>, r)),
      pl_ser = \<lambda>_ m. ser_list ser_inventory (gd_inventory m)\<rparr>"

record NotFound =
  nf_inventory :: "InventoryVector list"

definition NotFound_payload :: "NotFound Payload" where
  "NotFound_payload =
     \<lparr>pl_version = 0, pl_command = ''notfound'',
      pl_de = \<lambda>_ r. bind_read (read_list_max de_inventory 50000 r) (\<lambda>xs r. Inr (\<lparr>nf_inventory = xs\<rparr>, r)),
      pl_ser = \<lambda>_ m. ser_list ser_inventory (nf_inventory m)\<rparr>"

record GetBlocks =
  gb_version :: u32
  gb_locator :: "h256 list"
  gb_hash_stop :: h256

definition GetBlocks_payload :: "GetBlocks Payload" where
  "GetBlocks_payload =
     \<lparr>pl_version = 0, pl_command = ''getblocks'',
      pl_de = \<lambda>_ r. bind_read (de_u32 r) (\<lambda>v r. bind_read (read_list_max de_h256 500 r) (\<lambda>l r.
        bind_read (de_h256 r) (\<lambda>h r. Inr (\<lparr>gb_version = v, gb_locator = l, gb_hash_stop = h\<rparr>, r)))),
      pl_ser = \<lambda>_ m. ser_u32 (gb_version m) @ ser_list ser_h256 (gb_locator m) @ ser_h256 (gb_hash_stop m)\<rparr>"

record GetHeaders =
  gh_version :: u32
  gh_locator :: "h256 list"
  gh_hash_stop :: h256

definition with_block_locator_hashes :: "h256 list \<Rightarrow> GetHeaders" where
  "with_block_locator_hashes hashes = \<lparr>gh_version = 0, gh_locator = hashes, gh_hash_stop = 0\<rparr>"

definition GetHeaders_payload :: "GetHeaders Payload" where
  "GetHeaders_payload =
     \<lparr>pl_version = 0, pl_command = ''getheaders'',
      pl_de = \<lambda>_ r. bind_read (de_u32 r) (\<lambda>v r. bind_read (read_list_max de_h256 2000 r) (\<lambda>l r.
        bind_read (de_h256 r) (\<lambda>h r. Inr (\<lparr>gh_version = v, gh_locator = l, gh_hash_stop = h\<rparr>, r)))),
      pl_ser = \<lambda>_ m. ser_u32 (gh_version m) @ ser_list ser_h256 (gh_locator m) @ ser_h256 (gh_hash_stop m)\<rparr>"

record Headers =
  headers_list :: "BlockHeader list"

definition ser_headers_item :: "externs \<Rightarrow> BlockHeader \<Rightarrow> bytes" where
  "ser_headers_item X h = ser_header X h @ ser_compact_integer 0"

definition de_headers_item :: "externs \<Rightarrow> BlockHeader deserializer" where
  "de_headers_item X r =
     bind_read (de_header X r) (\<lambda>h r. bind_read (de_compact_integer r) (\<lambda>n r.
       if n \<noteq> 0 then Inl MalformedData else Inr (h, r)))"

definition Headers_payload :: "externs \<Rightarrow> Headers Payload" where
  "Headers_payload X =
     \<lparr>pl_version = 0, pl_command = ''headers'',
      pl_de = \<lambda>_ r. bind_read (read_list (de_headers_item X) r) (\<lambda>hs r. Inr (\<lparr>headers_list = hs\<rparr>, r)),
      pl_ser = \<lambda>_ m. ser_list (ser_headers_item X) (headers_list m)\<rparr>"

record BlockMessage =
  bm_block :: Block

definition Block_payload :: "externs \<Rightarrow> BlockMessage Payload" where
  "Block_payload X =
     \<lparr>pl_version = 0, pl_command = ''block'',
      pl_de = \<lambda>_ r. bind_read (de_block X r) (\<lambda>b r. Inr (\<lparr>bm_block = b\<rparr>, r)),
      pl_ser = \<lambda>_ m. ser_block X (bm_block m)\<rparr>"

datatype RejectCode = Malformed | Invalid | Obsolate | Duplicate | Nonstandard | Checkpoint

fun reject_to_u8 :: "RejectCode \<Rightarrow> u8" where
  "reject_to_u8 Malformed = 0x01"
| "reject_to_u8 Invalid = 0x10"
| "reject_to_u8 Obsolate = 0x11"
| "reject_to_u8 Duplicate = 0x12"
| "reject_to_u8 Nonstandard = 0x40"
| "reject_to_u8 Checkpoint = 0x41"

definition reject_from_u8 :: "u8 \<Rightarrow> RejectCode option" where
  "reject_from_u8 v =
     (if v = 0x01 then Some Malformed else if v = 0x10 then Some Invalid else if v = 0x11 then Some Obsolate
      else if v = 0x12 then Some Duplicate else if v = 0x40 then Some Nonstandard
      else if v = 0x41 then Some Checkpoint else None)"

definition ser_reject_code :: "RejectCode \<Rightarrow> bytes" where
  "ser_reject_code c = ser_u8 (reject_to_u8 c)"

definition de_reject_code :: "RejectCode deserializer" where
  "de_reject_code r =
     bind_read (de_u8 r) (\<lambda>v r. case reject_from_u8 v of Some c \<Rightarrow> Inr (c, r) | None \<Rightarrow> Inl MalformedData)"

record Reject =
  rj_message :: bytes
  rj_code :: RejectCode
  rj_reason :: bytes

definition Reject_payload :: "Reject Payload" where
  "Reject_payload =
     \<lparr>pl_version = 0, pl_command = ''reject'',
      pl_de = \<lambda>_ r. bind_read (de_string r) (\<lambda>m r. bind_read (de_reject_code r) (\<lambda>c r. bind_read (de_string r) (\<lambda>s r.
        Inr (\<lparr>rj_message = m, rj_code = c, rj_reason = s\<rparr>, r)))),
      pl_ser = \<lambda>_ m. ser_string (rj_message m) @ ser_reject_code (rj_code m) @ ser_string (rj_reason m)\<rparr>"

subsection \<open>Version\<close>

record VersionV0 =
  v0_version :: u32
  v0_services :: Services
  v0_timestamp :: "64 word"
  v0_receiver :: NetAddress

record VersionV106 =
  v106_from :: NetAddress
  v106_nonce :: u64
  v106_user_agent :: bytes
  v106_start_height :: "32 word"

record VersionV70001 =
  v70001_relay :: bool

datatype Version = V0 VersionV0 | V106 VersionV0 VersionV106 | V70001 VersionV0 VersionV106 VersionV70001

definition ser_v0 :: "VersionV0 \<Rightarrow> bytes" where
  "ser_v0 v = ser_u32 (v0_version v) @ ser_u64 (v0_services v) @ ser_i64 (v0_timestamp v) @ ser_net_address (v0_receiver v)"

definition de_v0 :: "VersionV0 deserializer" where
  "de_v0 r =
     bind_read (de_u32 r) (\<lambda>v r. bind_read (de_u64 r) (\<lambda>s r. bind_read (de_i64 r) (\<lambda>t r.
     bind_read (de_net_address r) (\<lambda>a r.
       Inr (\<lparr>v0_version = v, v0_services = s, v0_timestamp = t, v0_receiver = a\<rparr>, r)))))"

definition ser_v106 :: "VersionV106 \<Rightarrow> bytes" where
  "ser_v106 v =
     ser_net_address (v106_from v) @ ser_u64 (v106_nonce v) @ ser_string (v106_user_agent v) @ ser_i32 (v106_start_height v)"

definition de_v106 :: "VersionV106 deserializer" where
  "de_v106 r =
     bind_read (de_net_address r) (\<lambda>a r. bind_read (de_u64 r) (\<lambda>n r. bind_read (de_string r) (\<lambda>u r.
     bind_read (de_i32 r) (\<lambda>h r.
       Inr (\<lparr>v106_from = a, v106_nonce = n, v106_user_agent = u, v106_start_height = h\<rparr>, r)))))"

definition ser_v70001 :: "VersionV70001 \<Rightarrow> bytes" where
  "ser_v70001 v = ser_bool (v70001_relay v)"

definition de_v70001 :: "VersionV70001 deserializer" where
  "de_v70001 r = bind_read (de_bool r) (\<lambda>b r. Inr (\<lparr>v70001_relay = b\<rparr>, r))"

definition de_version :: "Version deserializer" where
  "de_version r =
     bind_read (de_v0 r) (\<lambda>simple r.
       if v0_version simple < 106 then Inr (V0 simple, r)
       else bind_read (de_v106 r) (\<lambda>v106 r.
         if v0_version simple < 70001 then Inr (V106 simple v106, r)
         else bind_read (de_v70001 r) (\<lambda>v70001 r. Inr (V70001 simple v106 v70001, r))))"

fun ser_version :: "Version \<Rightarrow> bytes" where
  "ser_version (V0 simple) = ser_v0 simple"
| "ser_version (V106 simple v106) = ser_v0 simple @ ser_v106 v106"
| "ser_version (V70001 simple v106 v70001) = ser_v0 simple @ ser_v106 v106 @ ser_v70001 v70001"

definition Version_payload :: "Version Payload" where
  "Version_payload =
     \<lparr>pl_version = 0, pl_command = ''version'', pl_de = \<lambda>_. de_version, pl_ser = \<lambda>_. ser_version\<rparr>"

fun version_simple :: "Version \<Rightarrow> VersionV0" where
  "version_simple (V0 s) = s"
| "version_simple (V106 s _) = s"
| "version_simple (V70001 s _ _) = s"

definition version_number :: "Version \<Rightarrow> u32" where
  "version_number v = v0_version (version_simple v)"

definition version_services :: "Version \<Rightarrow> Services" where
  "version_services v = v0_services (version_simple v)"

fun version_nonce :: "Version \<Rightarrow> u64 option" where
  "version_nonce (V0 _) = None"
| "version_nonce (V106 _ v) = Some (v106_nonce v)"
| "version_nonce (V70001 _ v _) = Some (v106_nonce v)"

fun version_relay :: "Version \<Rightarrow> bool" where
  "version_relay (V70001 _ _ v) = v70001_relay v"
| "version_relay _ = True"

fun version_user_agent :: "Version \<Rightarrow> bytes option" where
  "version_user_agent (V0 _) = None"
| "version_user_agent (V106 _ v) = Some (v106_user_agent v)"
| "version_user_agent (V70001 _ v _) = Some (v106_user_agent v)"

subsection \<open>Addr\<close>

record AddressEntry =
  ae_timestamp :: u32
  ae_address :: NetAddress

datatype Addr = AddrV0 "NetAddress list" | AddrV31402 "AddressEntry list"

definition ser_address_entry :: "AddressEntry \<Rightarrow> bytes" where
  "ser_address_entry e = ser_u32 (ae_timestamp e) @ ser_net_address (ae_address e)"

definition de_address_entry :: "AddressEntry deserializer" where
  "de_address_entry r =
     bind_read (de_u32 r) (\<lambda>t r. bind_read (de_net_address r) (\<lambda>a r.
       Inr (\<lparr>ae_timestamp = t, ae_address = a\<rparr>, r)))"

definition de_addr :: "u32 \<Rightarrow> Addr deserializer" where
  "de_addr ver r =
     (if ver < 31402 then bind_read (read_list_max de_net_address 1000 r) (\<lambda>xs r. Inr (AddrV0 xs, r))
      else bind_read (read_list_max de_address_entry 1000 r) (\<lambda>xs r. Inr (AddrV31402 xs, r)))"

fun ser_addr :: "u32 \<Rightarrow> Addr \<Rightarrow> bytes" where
  "ser_addr ver (AddrV0 xs) = ser_list ser_net_address xs"
| "ser_addr ver (AddrV31402 xs) =
     (if ver < 31402 then ser_list ser_net_address (map ae_address xs) else ser_list ser_address_entry xs)"

definition Addr_payload :: "Addr Payload" where
  "Addr_payload = \<lparr>pl_version = 0, pl_command = ''addr'', pl_de = de_addr, pl_ser = ser_addr\<rparr>"

section \<open>Framing\<close>

record MessageHeader =
  mh_magic :: u32
  mh_command :: Command
  mh_len :: u32
  mh_checksum :: u32

definition header_for_data :: "externs \<Rightarrow> u32 \<Rightarrow> Command \<Rightarrow> bytes \<Rightarrow> MessageHeader" where
  "header_for_data X magic command data =
     \<lparr>mh_magic = magic, mh_command = command, mh_len = of_nat (length data), mh_checksum = checksum X data\<rparr>"

definition ser_message_header :: "MessageHeader \<Rightarrow> bytes" where
  "ser_message_header h =
     ser_u32 (mh_magic h) @ ser_command (mh_command h) @ ser_u32 (mh_len h) @ ser_u32 (mh_checksum h)"

definition message_header_deserialize :: "bytes \<Rightarrow> u32 \<Rightarrow> MessageError + MessageHeader" where
  "message_header_deserialize data expected =
     (if length data \<noteq> 24 then Inl Deserialize
      else case de_u32 (reader_new data) of
        Inl _ \<Rightarrow> Inl Deserialize
      | Inr (magic, r) \<Rightarrow>
          if expected \<noteq> magic then Inl InvalidMagic
          else case bind_read (de_command r) (\<lambda>c r. bind_read (de_u32 r) (\<lambda>l r. bind_read (de_u32 r) (\<lambda>k r.
                 Inr (\<lparr>mh_magic = magic, mh_command = c, mh_len = l, mh_checksum = k\<rparr>, r)))) of
            Inl _ \<Rightarrow> Inl Deserialize
          | Inr (h, _) \<Rightarrow> Inr h)"

definition to_raw_message :: "externs \<Rightarrow> u32 \<Rightarrow> Command \<Rightarrow> bytes \<Rightarrow> bytes" where
  "to_raw_message X magic command payload =
     ser_message_header (header_for_data X magic command payload) @ payload"

text \<open>\<^verbatim>\<open>Message::new\<close>; the command of a type is a literal, which \<^verbatim>\<open>Command::from\<close> parses or panics on.\<close>

definition message_new :: "externs \<Rightarrow> 'a Payload \<Rightarrow> u32 \<Rightarrow> u32 \<Rightarrow> 'a \<Rightarrow> (MessageError + bytes) option" where
  "message_new X P magic ver x =
     (case serialize_payload P x ver of
        Inl e \<Rightarrow> Some (Inl e)
      | Inr serialized \<Rightarrow>
          (case command_from_str (pl_command P) of
             Inl _ \<Rightarrow> None
           | Inr c \<Rightarrow> Some (Inr (to_raw_message X magic c serialized))))"

text \<open>
  Reading from a connection: \<^verbatim>\<open>read_exact\<close> takes a number of bytes, or fails with an I/O error (\<open>None\<close>) when the
  connection ends before.
\<close>

definition read_exact :: "nat \<Rightarrow> bytes \<Rightarrow> (bytes \<times> bytes) option" where
  "read_exact n stream = (if n \<le> length stream then Some (take n stream, drop n stream) else None)"

definition read_header :: "u32 \<Rightarrow> bytes \<Rightarrow> ((MessageError + MessageHeader) \<times> bytes) option" where
  "read_header magic stream =
     (case read_exact 24 stream of
        None \<Rightarrow> None
      | Some (data, stream) \<Rightarrow> Some (message_header_deserialize data magic, stream))"

definition read_payload :: "externs \<Rightarrow> 'a Payload \<Rightarrow> u32 \<Rightarrow> nat \<Rightarrow> u32 \<Rightarrow> bytes \<Rightarrow> ((MessageError + 'a) \<times> bytes) option" where
  "read_payload X P ver len check stream =
     (case read_exact len stream of
        None \<Rightarrow> None
      | Some (data, stream) \<Rightarrow>
          Some (if checksum X data \<noteq> check then Inl InvalidChecksum else deserialize_payload P data ver, stream))"

definition read_any_message :: "externs \<Rightarrow> u32 \<Rightarrow> bytes \<Rightarrow> ((MessageError + Command \<times> bytes) \<times> bytes) option" where
  "read_any_message X magic stream =
     (case read_header magic stream of
        None \<Rightarrow> None
      | Some (Inl e, stream) \<Rightarrow> Some (Inl e, stream)
      | Some (Inr h, stream) \<Rightarrow>
          (case read_exact (unat (mh_len h)) stream of
             None \<Rightarrow> None
           | Some (data, stream) \<Rightarrow>
               Some (if checksum X data \<noteq> mh_checksum h then Inl InvalidChecksum else Inr (mh_command h, data), stream)))"

definition read_message :: "externs \<Rightarrow> 'a Payload \<Rightarrow> u32 \<Rightarrow> u32 \<Rightarrow> bytes \<Rightarrow> ((MessageError + 'a) \<times> bytes) option" where
  "read_message X P magic ver stream =
     (case read_header magic stream of
        None \<Rightarrow> None
      | Some (Inl e, stream) \<Rightarrow> Some (Inl e, stream)
      | Some (Inr h, stream) \<Rightarrow>
          if \<not> command_is (mh_command h) (pl_command P) then Some (Inl InvalidCommand, stream)
          else read_payload X P ver (unat (mh_len h)) (mh_checksum h) stream)"

section \<open>Commands round trip\<close>

lemma le_bytes_of_le_bytes:
  assumes "LENGTH('a::len) = 8 * n" "length bs \<le> n"
  shows "le_bytes n (of_le_bytes bs :: 'a word) = bs @ replicate (n - length bs) 0"
proof (rule nth_equalityI)
  show "length (le_bytes n (of_le_bytes bs :: 'a word)) = length (bs @ replicate (n - length bs) 0)"
    using assms(2) by simp
  fix i assume "i < length (le_bytes n (of_le_bytes bs :: 'a word))"
  then have i: "i < n" by simp
  show "le_bytes n (of_le_bytes bs :: 'a word) ! i = (bs @ replicate (n - length bs) 0) ! i"
  proof (rule bit_word_eqI)
    fix k assume "k < LENGTH(8)"
    then have k: "k < 8" by simp
    then have "8 * i + k < 8 * n" using i by linarith
    moreover have "8 * i + k < 8 * length bs \<longleftrightarrow> i < length bs" using k by linarith
    moreover have "(8 * i + k) div 8 = i" "(8 * i + k) mod 8 = k" using k by simp_all
    ultimately show "bit (le_bytes n (of_le_bytes bs :: 'a word) ! i) k = bit ((bs @ replicate (n - length bs) 0) ! i) k"
      using i k assms by (simp add: le_bytes_def bit_simps bit_of_le_bytes nth_append)
  qed
qed

lemma takeWhile_rev_zeros: "xs = [] \<or> last xs \<noteq> 0 \<Longrightarrow> takeWhile ((=) 0) (rev (xs @ replicate m 0)) = replicate m (0 :: u8)"
proof -
  assume "xs = [] \<or> last xs \<noteq> 0"
  then have "takeWhile ((=) 0) (rev xs) = []" by (cases xs rule: rev_cases) auto
  moreover have "takeWhile ((=) 0) (replicate m (0 :: u8) @ ys) = replicate m 0 @ takeWhile ((=) 0) ys" for ys
    by (induction m) auto
  ultimately show ?thesis by simp
qed

definition command_literal :: "string \<Rightarrow> bool" where
  "command_literal s \<longleftrightarrow> list_all (\<lambda>c. of_char c < (128 :: nat)) s \<and> length s \<le> 12 \<and> (s = [] \<or> last (ascii s) \<noteq> 0)"

lemma command_round_trip:
  assumes "command_literal s"
  shows "\<exists>c. command_from_str s = Inr c \<and> (\<forall>t. command_is c t \<longleftrightarrow> s = t)"
proof -
  have len: "length (ascii t) = length t" for t by (simp add: ascii_def)
  let ?c = "of_le_bytes (ascii s) :: Command"
  have b: "le_bytes 12 ?c = ascii s @ replicate (12 - length s) 0"
    using le_bytes_of_le_bytes [where ?'a = 96, of 12 "ascii s"] assms by (simp add: command_literal_def len)
  have "ascii s = [] \<or> last (ascii s) \<noteq> 0" using assms by (auto simp: command_literal_def ascii_def)
  from takeWhile_rev_zeros [OF this] have l: "command_len ?c = length s"
    using assms by (simp add: command_len_def b command_literal_def)
  have "command_is ?c t \<longleftrightarrow> s = t" for t
    using ascii_inject [of s t] by (auto simp: command_is_def l b len)
  with assms show ?thesis by (simp add: command_from_str_def command_literal_def)
qed

interpretation command: sized_codec ser_command de_command "\<lambda>_. True" "\<lambda>_. 12"
  by unfold_locales (simp_all add: ser_command_def de_command_def de_le_le_bytes)

section \<open>Codecs of the common types\<close>

lemma inventory_from_to [simp]: "inventory_from_u32 (inventory_to_u32 t) = Some t"
  by (cases t) (simp_all add: inventory_from_u32_def)

interpretation inventory: sized_codec ser_inventory de_inventory "\<lambda>_. True" "\<lambda>_. 36"
  by unfold_locales
    (simp_all add: ser_inventory_def de_inventory_def ser_inventory_type_def de_inventory_type_def de_ser_primitive)

lemma read_slice_rev:
  assumes "LENGTH('a::len) = 8 * n"
  shows "bind_read (read_slice n (reader_new (rev (le_bytes n (w :: 'a word)) @ rest))) (\<lambda>bs r. f (of_le_bytes (rev bs) :: 'a word) r) =
    f w (reader_new rest)"
  using read_slice_append [of "rev (le_bytes n w)" rest] assms by simp

interpretation port: sized_codec ser_port de_port "\<lambda>_. True" "\<lambda>_. 2"
proof
  fix p :: u16 and rest
  show "de_port (reader_new (ser_port p @ rest)) = Inr (p, reader_new rest)"
    using read_slice_rev [where ?'a = 16, of 2 p rest "\<lambda>p r. Inr (p, r)"] by (simp add: ser_port_def de_port_def)
qed (simp add: ser_port_def)

text \<open>An address of the wide form whose high bytes are all zero reads back as a short one.\<close>

fun ip_unambiguous :: "IpAddress \<Rightarrow> bool" where
  "ip_unambiguous (IpV4 _) = True"
| "ip_unambiguous (IpV6 a) = (take 12 (rev (le_bytes 16 a)) \<noteq> replicate 12 0)"

lemma length_ser_ip [simp]: "length (ser_ip a) = 16"
  by (cases a) simp_all

lemma de_ser_ip:
  assumes "ip_unambiguous a"
  shows "de_ip (reader_new (ser_ip a @ rest)) = Inr (a, reader_new rest)"
proof (cases a)
  case (IpV4 w)
  have "read_slice 12 (reader_new (replicate 12 0 @ rev (le_bytes 4 w) @ rest)) =
      Inr (replicate 12 0, reader_new (rev (le_bytes 4 w) @ rest))"
    using read_slice_append [of "replicate 12 0"] by simp
  with IpV4 show ?thesis
    using read_slice_rev [where ?'a = 32, of 4 w rest "\<lambda>a r. Inr (IpV4 a, r)"] by (simp add: de_ip_def)
next
  case (IpV6 w)
  let ?bs = "rev (le_bytes 16 w)"
  have split: "?bs @ rest = take 12 ?bs @ drop 12 ?bs @ rest" by simp
  have "read_slice 12 (reader_new (?bs @ rest)) = Inr (take 12 ?bs, reader_new (drop 12 ?bs @ rest))"
    unfolding split using read_slice_append [of "take 12 ?bs"] by simp
  moreover have "read_slice 4 (reader_new (drop 12 ?bs @ rest)) = Inr (drop 12 ?bs, reader_new rest)"
    using read_slice_append [of "drop 12 ?bs"] by simp
  moreover have "of_le_bytes (rev (take 12 ?bs @ drop 12 ?bs)) = w" by (simp only: append_take_drop_id rev_rev_ident) simp
  ultimately show ?thesis using IpV6 assms by (simp add: de_ip_def del: rev_append)
qed

interpretation net_address: sized_codec ser_net_address de_net_address "\<lambda>a. ip_unambiguous (na_address a)" "\<lambda>_. 26"
  by unfold_locales
    (simp_all add: ser_net_address_def de_net_address_def de_ser_primitive de_ser_ip port.round_trip port.size_of)

interpretation address_entry: sized_codec ser_address_entry de_address_entry "\<lambda>e. ip_unambiguous (na_address (ae_address e))" "\<lambda>_. 30"
  by unfold_locales
    (simp_all add: ser_address_entry_def de_address_entry_def de_ser_primitive net_address.round_trip net_address.size_of)

definition utf8_string :: "bytes \<Rightarrow> bool" where
  "utf8_string s \<longleftrightarrow> utf8_lossy s = s \<and> length s < 2 ^ 64"

interpretation string: codec ser_string de_string utf8_string
  by unfold_locales (simp add: ser_string_def de_string_def de_bytes_def de_ser_compact_integer utf8_string_def)

lemma reject_from_to [simp]: "reject_from_u8 (reject_to_u8 c) = Some c"
  by (cases c) (simp_all add: reject_from_u8_def)

interpretation reject_code: codec ser_reject_code de_reject_code "\<lambda>_. True"
  by unfold_locales (simp add: ser_reject_code_def de_reject_code_def de_ser_primitive)

interpretation version_v0: codec ser_v0 de_v0 "\<lambda>v. ip_unambiguous (na_address (v0_receiver v))"
  by unfold_locales (simp add: ser_v0_def de_v0_def de_ser_primitive net_address.round_trip)

interpretation version_v106: codec ser_v106 de_v106
  "\<lambda>v. ip_unambiguous (na_address (v106_from v)) \<and> utf8_string (v106_user_agent v)"
  by unfold_locales (simp add: ser_v106_def de_v106_def de_ser_primitive net_address.round_trip string.round_trip)

interpretation version_v70001: codec ser_v70001 de_v70001 "\<lambda>_. True"
  by unfold_locales (simp add: ser_v70001_def de_v70001_def bool.round_trip)

text \<open>The variant of a version message must agree with its version number.\<close>

fun version_valid :: "Version \<Rightarrow> bool" where
  "version_valid (V0 s) \<longleftrightarrow> ip_unambiguous (na_address (v0_receiver s)) \<and> v0_version s < 106"
| "version_valid (V106 s v) \<longleftrightarrow> ip_unambiguous (na_address (v0_receiver s)) \<and>
     ip_unambiguous (na_address (v106_from v)) \<and> utf8_string (v106_user_agent v) \<and> 106 \<le> v0_version s \<and> v0_version s < 70001"
| "version_valid (V70001 s v _) \<longleftrightarrow> ip_unambiguous (na_address (v0_receiver s)) \<and>
     ip_unambiguous (na_address (v106_from v)) \<and> utf8_string (v106_user_agent v) \<and> 70001 \<le> v0_version s"

interpretation version: codec ser_version de_version version_valid
proof
  fix v rest
  have "106 \<le> x" "\<not> x < 106" if "70001 \<le> x" for x :: u32
  proof -
    have "(106 :: u32) \<le> 70001" by simp
    with that show "106 \<le> x" by (rule order_trans [rotated])
    then show "\<not> x < 106" by simp
  qed
  then show "version_valid v \<Longrightarrow> de_version (reader_new (ser_version v @ rest)) = Inr (v, reader_new rest)"
    by (cases v) (auto simp: de_version_def version_v0.round_trip version_v106.round_trip version_v70001.round_trip)
qed

section \<open>The payload contract\<close>

text \<open>
  What the framing relies on: reading a payload gives back what was written, in every protocol version that has the
  message, and the command of the type is a literal that parses.
\<close>

locale payload_codec =
  fixes P :: "'a Payload"
    and valid :: "u32 \<Rightarrow> 'a \<Rightarrow> bool"
  assumes payload_round_trip: "pl_version P \<le> ver \<Longrightarrow> valid ver x \<Longrightarrow>
      pl_de P ver (reader_new (pl_ser P ver x @ rest)) = Inr (x, reader_new rest)"
    and literal: "command_literal (pl_command P)"
begin

lemma deserialize_serialize_payload:
  assumes "pl_version P \<le> ver" "valid ver x"
  shows "\<exists>bs. serialize_payload P x ver = Inr bs \<and> deserialize_payload P bs ver = Inr x \<and>
    (rest \<noteq> [] \<longrightarrow> deserialize_payload P (bs @ rest) ver = Inl Deserialize)"
  using payload_round_trip [OF assms] payload_round_trip [OF assms, of "[]"] assms(1)
  by (auto simp: serialize_payload_def deserialize_payload_def reader_finished_iff leD)

lemma too_new: "ver < pl_version P \<Longrightarrow> serialize_payload P x ver = Inl InvalidVersion \<and> deserialize_payload P bs ver = Inl InvalidVersion"
  by (simp add: serialize_payload_def deserialize_payload_def)

end

named_theorems payload_defs \<open>the records of the message types\<close>

declare Verack_payload_def [payload_defs] GetAddr_payload_def [payload_defs] SendHeaders_payload_def [payload_defs]
  Ping_payload_def [payload_defs] Pong_payload_def [payload_defs] Inv_payload_def [payload_defs]
  GetData_payload_def [payload_defs] NotFound_payload_def [payload_defs] GetBlocks_payload_def [payload_defs]
  GetHeaders_payload_def [payload_defs] Headers_payload_def [payload_defs] Block_payload_def [payload_defs]
  Reject_payload_def [payload_defs] Version_payload_def [payload_defs] Addr_payload_def [payload_defs]

lemma literals [simp]:
  "command_literal ''verack''" "command_literal ''getaddr''" "command_literal ''sendheaders''" "command_literal ''ping''"
  "command_literal ''pong''" "command_literal ''inv''" "command_literal ''getdata''" "command_literal ''notfound''"
  "command_literal ''getblocks''" "command_literal ''getheaders''" "command_literal ''headers''" "command_literal ''block''"
  "command_literal ''reject''" "command_literal ''version''" "command_literal ''addr''"
  by (simp_all add: command_literal_def ascii_def)

interpretation Verack: payload_codec Verack_payload "\<lambda>_ _. True"
  by unfold_locales (simp_all add: payload_defs Verack.nchotomy [rule_format, symmetric])

interpretation GetAddr: payload_codec GetAddr_payload "\<lambda>_ _. True"
  by unfold_locales (simp_all add: payload_defs GetAddr.nchotomy [rule_format, symmetric])

interpretation SendHeaders: payload_codec SendHeaders_payload "\<lambda>_ _. True"
  by unfold_locales (simp_all add: payload_defs SendHeaders.nchotomy [rule_format, symmetric])

interpretation Ping: payload_codec Ping_payload "\<lambda>_ _. True"
  by unfold_locales (simp_all add: payload_defs de_ser_primitive)

interpretation Pong: payload_codec Pong_payload "\<lambda>_ _. True"
  by unfold_locales (simp_all add: payload_defs de_ser_primitive)

lemma inventory_list_codec:
  "length xs \<le> 50000 \<Longrightarrow> read_list_max de_inventory 50000 (reader_new (ser_list ser_inventory xs @ rest)) = Inr (xs, reader_new rest)"
  by (simp add: inventory.read_list_max_ser_list list.pred_True)

interpretation Inv: payload_codec Inv_payload "\<lambda>_ m. length (inv_inventory m) \<le> 50000"
  by unfold_locales (simp_all add: payload_defs inventory_list_codec)

interpretation GetData: payload_codec GetData_payload "\<lambda>_ m. length (gd_inventory m) \<le> 50000"
  by unfold_locales (simp_all add: payload_defs inventory_list_codec)

interpretation NotFound: payload_codec NotFound_payload "\<lambda>_ m. length (nf_inventory m) \<le> 50000"
  by unfold_locales (simp_all add: payload_defs inventory_list_codec)

interpretation GetBlocks: payload_codec GetBlocks_payload "\<lambda>_ m. length (gb_locator m) \<le> 500"
  by unfold_locales (simp_all add: payload_defs de_ser_primitive h256.read_list_max_ser_list list.pred_True)

interpretation GetHeaders: payload_codec GetHeaders_payload "\<lambda>_ m. length (gh_locator m) \<le> 2000"
  by unfold_locales (simp_all add: payload_defs de_ser_primitive h256.read_list_max_ser_list list.pred_True)

interpretation Reject: payload_codec Reject_payload "\<lambda>_ m. utf8_string (rj_message m) \<and> utf8_string (rj_reason m)"
  by unfold_locales (simp_all add: payload_defs string.round_trip reject_code.round_trip)

interpretation Version: payload_codec Version_payload "\<lambda>_. version_valid"
  by unfold_locales (simp_all add: payload_defs version.round_trip)

fun addr_valid :: "u32 \<Rightarrow> Addr \<Rightarrow> bool" where
  "addr_valid ver (AddrV0 xs) \<longleftrightarrow> ver < 31402 \<and> length xs \<le> 1000 \<and> list_all (\<lambda>a. ip_unambiguous (na_address a)) xs"
| "addr_valid ver (AddrV31402 xs) \<longleftrightarrow>
     \<not> ver < 31402 \<and> length xs \<le> 1000 \<and> list_all (\<lambda>e. ip_unambiguous (na_address (ae_address e))) xs"

interpretation Addr: payload_codec Addr_payload addr_valid
proof
  fix ver x rest
  assume "addr_valid ver x"
  then show "pl_de Addr_payload ver (reader_new (pl_ser Addr_payload ver x @ rest)) = Inr (x, reader_new rest)"
    by (cases x) (simp_all add: payload_defs de_addr_def net_address.read_list_max_ser_list address_entry.read_list_max_ser_list)
qed (simp add: payload_defs)

text \<open>Headers and blocks depend on the third-party integers, so their contract has the hypothesis on them.\<close>

lemma headers_item_codec:
  assumes "digits_ok X"
  shows "codec (ser_headers_item X) (de_headers_item X) (valid_header X)"
  by unfold_locales
    (simp add: ser_headers_item_def de_headers_item_def codec.round_trip [OF header_codec [OF assms]] de_ser_compact_integer)

lemma Headers_codec:
  assumes "digits_ok X"
  shows "payload_codec (Headers_payload X) (\<lambda>_ m. list_all (valid_header X) (headers_list m) \<and> length (headers_list m) < 2 ^ 64)"
  by unfold_locales
    (simp_all add: payload_defs codec.read_list_ser_list [OF headers_item_codec [OF assms]])

lemma Block_codec:
  assumes "digits_ok X"
  shows "payload_codec (Block_payload X) (\<lambda>_ m. valid_block X (bm_block m))"
  by unfold_locales (simp_all add: payload_defs codec.round_trip [OF block_codec [OF assms]])

interpretation reference_headers: payload_codec "Headers_payload reference_externs"
  "\<lambda>_ m. list_all (valid_header reference_externs) (headers_list m) \<and> length (headers_list m) < 2 ^ 64"
  by (rule Headers_codec [OF reference_externs_ok(1)])

interpretation reference_block: payload_codec "Block_payload reference_externs"
  "\<lambda>_ m. valid_block reference_externs (bm_block m)"
  by (rule Block_codec [OF reference_externs_ok(1)])

section \<open>Framing round trip\<close>

lemma length_ser_message_header [simp]: "length (ser_message_header h) = 24"
  by (simp add: ser_message_header_def command.size_of)

lemma message_header_round_trip:
  "message_header_deserialize (ser_message_header h) magic = (if mh_magic h = magic then Inr h else Inl InvalidMagic)"
  using command.round_trip de_ser_primitive(3) [of _ "[]"]
  by (simp add: message_header_deserialize_def) (simp add: ser_message_header_def de_ser_primitive)

lemma read_header_raw:
  "read_header magic (to_raw_message X magic' c payload @ rest) =
     Some (if magic' = magic then Inr (header_for_data X magic' c payload) else Inl InvalidMagic, payload @ rest)"
  by (simp add: read_header_def read_exact_def to_raw_message_def message_header_round_trip header_for_data_def)

lemma read_any_message_raw:
  "length payload < 2 ^ 32 \<Longrightarrow> read_any_message X magic (to_raw_message X magic c payload @ rest) = Some (Inr (c, payload), rest)"
  by (simp add: read_any_message_def read_header_raw header_for_data_def read_exact_def)

section \<open>Properties\<close>

text \<open>C28: a message of any type that is framed for a network and sent can be read back from the connection, whatever
  follows it, both as a raw message and as a message of its type; what follows stays on the connection. On another
  network it is refused by its magic number, and as a message of a type with another command by its command.\<close>

theorem message_round_trip:
  assumes "payload_codec P valid" "pl_version P \<le> ver" "valid ver x" "length (pl_ser P ver x) < 2 ^ 32"
  shows "\<exists>bs c. message_new X P magic ver x = Some (Inr bs) \<and> command_is c (pl_command P) \<and>
    read_message X P magic ver (bs @ rest) = Some (Inr x, rest) \<and>
    read_any_message X magic (bs @ rest) = Some (Inr (c, pl_ser P ver x), rest) \<and>
    (magic' \<noteq> magic \<longrightarrow> read_any_message X magic' (bs @ rest) = Some (Inl InvalidMagic, pl_ser P ver x @ rest)) \<and>
    (pl_command Q \<noteq> pl_command P \<longrightarrow>
       read_message X Q magic ver (bs @ rest) = Some (Inl InvalidCommand, pl_ser P ver x @ rest))"
proof -
  let ?p = "pl_ser P ver x"
  from command_round_trip [OF payload_codec.literal [OF assms(1)]] obtain c where
    c: "command_from_str (pl_command P) = Inr c" "\<And>t. command_is c t \<longleftrightarrow> pl_command P = t" by blast
  have s: "serialize_payload P x ver = Inr ?p" using assms(2) by (simp add: serialize_payload_def leD)
  have d: "deserialize_payload P ?p ver = Inr x"
    using payload_codec.deserialize_serialize_payload [OF assms(1-3)] s by auto
  have "read_payload X P ver (length ?p) (checksum X ?p) (?p @ rest) = Some (Inr x, rest)"
    by (simp add: read_payload_def read_exact_def d)
  then have "read_message X P magic ver (to_raw_message X magic c ?p @ rest) = Some (Inr x, rest)"
    using assms(4) by (simp add: read_message_def read_header_raw header_for_data_def c(2))
  moreover have "pl_command Q \<noteq> pl_command P \<Longrightarrow>
      read_message X Q magic ver (to_raw_message X magic c ?p @ rest) = Some (Inl InvalidCommand, ?p @ rest)"
    by (simp add: read_message_def read_header_raw header_for_data_def c(2))
  moreover have "magic' \<noteq> magic \<Longrightarrow>
      read_any_message X magic' (to_raw_message X magic c ?p @ rest) = Some (Inl InvalidMagic, ?p @ rest)"
    by (simp add: read_any_message_def read_header_raw)
  ultimately show ?thesis
    using read_any_message_raw [OF assms(4)] c by (auto simp: message_new_def s)
qed

theorem message_round_trip_witness:
  "\<exists>bs. message_new reference_externs Ping_payload 0xD9B4BEF9 70012 \<lparr>ping_nonce = 42\<rparr> = Some (Inr bs) \<and>
     read_message reference_externs Ping_payload 0xD9B4BEF9 70012 (bs @ [1, 2]) = Some (Inr \<lparr>ping_nonce = 42\<rparr>, [1, 2]) \<and>
     read_message reference_externs Pong_payload 0xD9B4BEF9 70012 (bs @ [1, 2]) =
       Some (Inl InvalidCommand, ser_u64 42 @ [1, 2])"
  using message_round_trip [OF Ping.payload_codec_axioms, where ver = 70012 and x = "\<lparr>ping_nonce = 42\<rparr>"
      and X = reference_externs and magic = "0xD9B4BEF9" and rest = "[1, 2]" and Q = Pong_payload]
  by (auto simp: payload_defs)

end
