(* ===== verification/Speed_Meter.thy ===== *)
theory Speed_Meter
  imports Prelude "HOL-Library.Monad_Syntax"
begin

text \<open>
  The speed meter of the synchronization (\<^verbatim>\<open>sync/src/utils/average_speed_meter.rs\<close>), which keeps the average duration
  of the last items up to date without summing them again. Shown: the average it keeps is the average of the items
  it holds, and these are the most recent durations.

  Times and speeds (\<^verbatim>\<open>f64\<close>) are real numbers: what is shown of averages is exact arithmetic, and the rounding of the
  program's floating-point operations is not modelled. The clock is an argument.
\<close>

section \<open>AverageSpeedMeter\<close>

record AverageSpeedMeter =
  inspect_items :: nat
  inspected_items :: "real list"
  avg_duration :: real
  last_timestamp :: "real option"

definition with_inspect_items :: "nat \<Rightarrow> AverageSpeedMeter option" where
  "with_inspect_items n =
     (if n > 0 then Some \<lparr>inspect_items = n, inspected_items = [], avg_duration = 0, last_timestamp = None\<rparr> else None)"

text \<open>\<^verbatim>\<open>f64::is_normal\<close>: neither zero nor subnormal nor beyond the largest finite value.\<close>

definition f64_is_normal :: "real \<Rightarrow> bool" where
  "f64_is_normal x \<longleftrightarrow> 1 / 2 ^ 1022 \<le> \<bar>x\<bar> \<and> \<bar>x\<bar> < 2 ^ 1024"

definition meter_speed :: "AverageSpeedMeter \<Rightarrow> real" where
  "meter_speed m =
     (let items_per_second = 1 / avg_duration m in if f64_is_normal items_per_second then items_per_second else 0)"

definition inspected_items_len :: "AverageSpeedMeter \<Rightarrow> nat" where
  "inspected_items_len m = length (inspected_items m)"

text \<open>The two halves of \<^verbatim>\<open>checkpoint\<close>: dropping the oldest item of a full meter, and adding the new one.\<close>

definition meter_drop_oldest :: "AverageSpeedMeter \<Rightarrow> AverageSpeedMeter option" where
  "meter_drop_oldest m =
     (if length (inspected_items m) = inspect_items m
      then case inspected_items m of
             [] \<Rightarrow> None
           | oldest # rest \<Rightarrow>
               Some (m\<lparr>inspected_items := rest,
                       avg_duration := (real (inspect_items m) * avg_duration m - oldest) / (real (inspect_items m) - 1)\<rparr>)
      else Some m)"

definition meter_add_newest :: "real \<Rightarrow> AverageSpeedMeter \<Rightarrow> AverageSpeedMeter" where
  "meter_add_newest now m =
     (case last_timestamp m of
        None \<Rightarrow> m
      | Some t \<Rightarrow>
          (let newest = now - t; n = length (inspected_items m)
           in m\<lparr>avg_duration := (real n * avg_duration m + newest) / (real n + 1),
                inspected_items := inspected_items m @ [newest]\<rparr>))"

definition meter_checkpoint :: "real \<Rightarrow> AverageSpeedMeter \<Rightarrow> AverageSpeedMeter option" where
  "meter_checkpoint now m =
     do { m \<leftarrow> meter_drop_oldest m; Some ((meter_add_newest now m)\<lparr>last_timestamp := Some now\<rparr>) }"

definition meter_start :: "real \<Rightarrow> AverageSpeedMeter \<Rightarrow> AverageSpeedMeter" where
  "meter_start now m = m\<lparr>last_timestamp := Some now\<rparr>"

definition meter_stop :: "AverageSpeedMeter \<Rightarrow> AverageSpeedMeter" where
  "meter_stop m = m\<lparr>last_timestamp := None\<rparr>"

section \<open>The average of the items\<close>

definition mean :: "real list \<Rightarrow> real" where
  "mean xs = sum_list xs / real (length xs)"

definition meter_inv :: "AverageSpeedMeter \<Rightarrow> bool" where
  "meter_inv m \<longleftrightarrow>
     inspect_items m \<ge> 2 \<and> length (inspected_items m) \<le> inspect_items m \<and> avg_duration m = mean (inspected_items m)"

lemma mean_drop: "length (x # xs) \<ge> 2 \<Longrightarrow> (real (length (x # xs)) * mean (x # xs) - x) / (real (length (x # xs)) - 1) = mean xs"
  by (simp add: mean_def)

lemma mean_add: "(real (length xs) * mean xs + x) / (real (length xs) + 1) = mean (xs @ [x])"
  by (cases "xs = []") (simp_all add: mean_def add.commute)

lemma with_inspect_items_inv: "n \<ge> 2 \<Longrightarrow> \<exists>m. with_inspect_items n = Some m \<and> meter_inv m"
  by (simp add: with_inspect_items_def meter_inv_def mean_def)

lemma meter_drop_oldest_inv:
  assumes "meter_inv m"
  shows "\<exists>m'. meter_drop_oldest m = Some m' \<and> meter_inv m' \<and> length (inspected_items m') < inspect_items m' \<and>
    inspect_items m' = inspect_items m \<and> last_timestamp m' = last_timestamp m \<and>
    (inspected_items m' = inspected_items m \<or> inspected_items m' = tl (inspected_items m))"
proof (cases "length (inspected_items m) = inspect_items m")
  case True
  with assms obtain x xs where xs: "inspected_items m = x # xs"
    by (cases "inspected_items m") (auto simp: meter_inv_def)
  have n: "real (inspect_items m) = real (length (x # xs))" "length (x # xs) \<ge> 2" using True xs assms by (simp_all add: meter_inv_def)
  then have "(real (inspect_items m) * avg_duration m - x) / (real (inspect_items m) - 1) = mean xs"
    using mean_drop [of x xs] assms xs by (simp only: meter_inv_def)
  with True xs n assms show ?thesis by (auto simp: meter_drop_oldest_def meter_inv_def)
next
  case False
  with assms show ?thesis by (auto simp: meter_drop_oldest_def meter_inv_def)
qed

lemma meter_checkpoint_inv:
  assumes "meter_inv m"
  shows "\<exists>m'. meter_checkpoint now m = Some m' \<and> meter_inv m' \<and> last_timestamp m' = Some now \<and>
    inspect_items m' = inspect_items m \<and>
    (\<exists>k. inspected_items m' =
       drop k (inspected_items m) @ (case last_timestamp m of None \<Rightarrow> [] | Some t \<Rightarrow> [now - t]))"
proof -
  from meter_drop_oldest_inv [OF assms] obtain m1 where
    1: "meter_drop_oldest m = Some m1" "meter_inv m1" "length (inspected_items m1) < inspect_items m1"
      "inspect_items m1 = inspect_items m" "last_timestamp m1 = last_timestamp m"
      "inspected_items m1 = inspected_items m \<or> inspected_items m1 = tl (inspected_items m)" by blast
  then have "\<exists>k. inspected_items m1 = drop k (inspected_items m)" by (metis drop0 drop_Suc)
  with 1 show ?thesis
    by (cases "last_timestamp m")
      (auto simp: meter_checkpoint_def meter_add_newest_def meter_inv_def Let_def mean_add)
qed

lemma meter_start_stop_inv [simp]: "meter_inv (meter_start now m) = meter_inv m" "meter_inv (meter_stop m) = meter_inv m"
  by (simp_all add: meter_start_def meter_stop_def meter_inv_def)

section \<open>Runs of the meter\<close>

datatype MeterCall = Start real | Stop | Checkpoint real

fun meter_call :: "MeterCall \<Rightarrow> AverageSpeedMeter \<Rightarrow> AverageSpeedMeter option" where
  "meter_call (Start now) m = Some (meter_start now m)"
| "meter_call Stop m = Some (meter_stop m)"
| "meter_call (Checkpoint now) m = meter_checkpoint now m"

fun meter_run :: "MeterCall list \<Rightarrow> AverageSpeedMeter \<Rightarrow> AverageSpeedMeter option" where
  "meter_run [] m = Some m"
| "meter_run (c # cs) m = do { m \<leftarrow> meter_call c m; meter_run cs m }"

text \<open>All durations measured in a run, oldest first.\<close>

fun durations :: "real option \<Rightarrow> MeterCall list \<Rightarrow> real list" where
  "durations ts [] = []"
| "durations ts (Start now # cs) = durations (Some now) cs"
| "durations ts (Stop # cs) = durations None cs"
| "durations ts (Checkpoint now # cs) =
     (case ts of None \<Rightarrow> [] | Some t \<Rightarrow> [now - t]) @ durations (Some now) cs"

lemma meter_run_inv:
  "meter_inv m \<Longrightarrow> \<exists>m' k. meter_run cs m = Some m' \<and> meter_inv m' \<and> inspect_items m' = inspect_items m \<and>
     inspected_items m' = drop k (inspected_items m @ durations (last_timestamp m) cs)"
proof (induction cs arbitrary: m)
  case Nil
  then show ?case by (auto intro: exI [of _ 0])
next
  case (Cons c cs)
  show ?case
  proof (cases c)
    case (Start now)
    with Cons.IH [of "meter_start now m"] Cons.prems show ?thesis by (simp add: meter_start_def meter_inv_def)
  next
    case Stop
    with Cons.IH [of "meter_stop m"] Cons.prems show ?thesis by (simp add: meter_stop_def meter_inv_def)
  next
    case (Checkpoint now)
    from meter_checkpoint_inv [OF Cons.prems, of now] obtain m1 k1 where
      1: "meter_checkpoint now m = Some m1" "meter_inv m1" "last_timestamp m1 = Some now" "inspect_items m1 = inspect_items m"
        "inspected_items m1 = drop k1 (inspected_items m) @ (case last_timestamp m of None \<Rightarrow> [] | Some t \<Rightarrow> [now - t])"
      by blast
    from Cons.IH [OF 1(2)] obtain m2 k2 where
      2: "meter_run cs m1 = Some m2" "meter_inv m2" "inspect_items m2 = inspect_items m1"
        "inspected_items m2 = drop k2 (inspected_items m1 @ durations (last_timestamp m1) cs)" by blast
    let ?d = "durations (last_timestamp m) (c # cs)"
    have "inspected_items m1 @ durations (last_timestamp m1) cs = drop (min k1 (length (inspected_items m))) (inspected_items m @ ?d)"
      using 1(3,5) Checkpoint by (cases "k1 \<le> length (inspected_items m)") simp_all
    with 1 2 Checkpoint show ?thesis by (metis drop_drop meter_call.simps(3) meter_run.simps(2) bind.bind_lunit)
  qed
qed

section \<open>Properties\<close>

text \<open>A meter for at least two items never panics, holds the durations measured last, at most as many as it was made for,
  and its speed, where it is a normal number, is the number of items over their total duration.\<close>

theorem speed_is_recent_average:
  assumes "n \<ge> 2"
  shows "\<exists>m m' k. with_inspect_items n = Some m \<and> meter_run cs m = Some m' \<and>
    inspected_items m' = drop k (durations None cs) \<and> inspected_items_len m' \<le> n \<and>
    meter_speed m' = (let s = real (inspected_items_len m') / sum_list (inspected_items m') in if f64_is_normal s then s else 0)"
proof -
  obtain m where m: "with_inspect_items n = Some m" "meter_inv m" "inspect_items m = n" "inspected_items m = []"
      "last_timestamp m = None"
    using assms with_inspect_items_inv [OF assms] by (auto simp: with_inspect_items_def)
  from meter_run_inv [OF m(2), of cs] obtain m' k where
    "meter_run cs m = Some m'" "meter_inv m'" "inspect_items m' = n" "inspected_items m' = drop k (durations None cs)"
    using m(3-5) by auto
  with m(1) show ?thesis by (auto simp: meter_inv_def meter_speed_def inspected_items_len_def mean_def Let_def)
qed

end
