(* ===== verification/Peers_Tasks.thy ===== *)
theory Peers_Tasks
  imports Speed_Meter "HOL-Library.Multiset"
begin

text \<open>
  The bookkeeping of synchronization peers (\<^verbatim>\<open>sync/src/synchronization_peers_tasks.rs\<close>): which peers are useful, idle
  or have pending requests, and how often peers and blocks have failed. Shown: the invariant of the sets and
  requests, that the assertions of the code hold, and when peers and blocks are given up.

  A \<^verbatim>\<open>HashSet\<close> is a list without duplicates in iteration order. A \<^verbatim>\<open>LinkedHashMap\<close> is an association list in insertion
  order. The clock \<^verbatim>\<open>precise_time_s\<close> is an argument; a call reads one instant.
\<close>

section \<open>PeersTasks\<close>

type_synonym PeerIndex = nat

definition MAX_PEER_FAILURES :: nat where "MAX_PEER_FAILURES = 4"
definition MAX_BLOCKS_FAILURES :: nat where "MAX_BLOCKS_FAILURES = 6"
definition BLOCKS_TO_INSPECT :: nat where "BLOCKS_TO_INSPECT = 32"

record PeersInformation =
  pi_all :: nat
  pi_idle :: nat
  pi_unuseful :: nat
  pi_active :: nat

record HeadersRequest =
  hr_timestamp :: real

record BlocksRequest =
  br_timestamp :: real
  br_blocks :: "h256 list"

datatype TrustLevel = Suspicious | Trusted

record PeerStats =
  ps_failures :: nat
  ps_speed :: AverageSpeedMeter
  ps_trust :: TrustLevel

record BlockStats =
  bs_failures :: nat

record PeersTasks =
  all_peers :: "PeerIndex list"
  unuseful :: "PeerIndex list"
  idle_for_headers :: "PeerIndex list"
  idle_for_blocks :: "PeerIndex list"
  headers_requests :: "(PeerIndex \<times> HeadersRequest) list"
  blocks_requests :: "(PeerIndex \<times> BlocksRequest) list"
  stats :: "PeerIndex \<rightharpoonup> PeerStats"
  blocks_stats :: "h256 \<rightharpoonup> BlockStats"

definition peers_tasks_default :: PeersTasks where
  "peers_tasks_default =
     \<lparr>all_peers = [], unuseful = [], idle_for_headers = [], idle_for_blocks = [], headers_requests = [],
      blocks_requests = [], stats = Map.empty, blocks_stats = Map.empty\<rparr>"

definition headers_request_new :: "real \<Rightarrow> HeadersRequest" where
  "headers_request_new now = \<lparr>hr_timestamp = now\<rparr>"

definition blocks_request_new :: "real \<Rightarrow> BlocksRequest" where
  "blocks_request_new now = \<lparr>br_timestamp = now, br_blocks = []\<rparr>"

definition peer_stats_new :: "PeerStats option" where
  "peer_stats_new =
     do { m \<leftarrow> with_inspect_items BLOCKS_TO_INSPECT;
          Some \<lparr>ps_failures = 0, ps_speed = m, ps_trust = Suspicious\<rparr> }"

definition peers_information :: "PeersTasks \<Rightarrow> PeersInformation" where
  "peers_information p =
     \<lparr>pi_all = length (all_peers p),
      pi_idle = length (filter (\<lambda>i. i \<notin> fst ` set (headers_requests p)) (idle_for_blocks p)),
      pi_unuseful = length (unuseful p),
      pi_active = card (fst ` set (headers_requests p) \<union> fst ` set (blocks_requests p))\<rparr>"

definition useful_peers :: "PeersTasks \<Rightarrow> PeerIndex list" where
  "useful_peers p = filter (\<lambda>i. i \<notin> set (unuseful p)) (all_peers p)"

definition peer_speed :: "PeersTasks \<Rightarrow> PeerIndex \<Rightarrow> real" where
  "peer_speed p i = (case stats p i of Some s \<Rightarrow> meter_speed (ps_speed s) | None \<Rightarrow> 0)"

definition sort_peers_for_blocks :: "PeersTasks \<Rightarrow> PeerIndex list \<Rightarrow> PeerIndex list" where
  "sort_peers_for_blocks p = sort_key (\<lambda>i. - peer_speed p i)"

definition get_blocks_tasks :: "PeersTasks \<Rightarrow> PeerIndex \<Rightarrow> h256 list option" where
  "get_blocks_tasks p i = map_option br_blocks (map_of (blocks_requests p) i)"

definition useful_peer :: "PeersTasks \<Rightarrow> PeerIndex \<Rightarrow> PeersTasks option" where
  "useful_peer p i =
     (if i \<notin> set (all_peers p) \<or> i \<in> set (unuseful p)
      then do { s \<leftarrow> peer_stats_new;
                Some (p\<lparr>all_peers := List.insert i (all_peers p),
                        unuseful := (if i \<notin> set (all_peers p) then unuseful p else removeAll i (unuseful p)),
                        idle_for_headers := List.insert i (idle_for_headers p),
                        idle_for_blocks := List.insert i (idle_for_blocks p), stats := (stats p)(i \<mapsto> s)\<rparr>) }
      else Some p)"

definition unuseful_peer :: "PeersTasks \<Rightarrow> PeerIndex \<Rightarrow> PeersTasks option" where
  "unuseful_peer p i =
     (if map_of (blocks_requests p) i \<noteq> None then None
      else do {
        st \<leftarrow> (if i \<notin> set (all_peers p) then do { s \<leftarrow> peer_stats_new; Some ((stats p)(i \<mapsto> s)) } else Some (stats p));
        Some (p\<lparr>all_peers := List.insert i (all_peers p), stats := st, unuseful := List.insert i (unuseful p),
                idle_for_headers := removeAll i (idle_for_headers p),
                idle_for_blocks := removeAll i (idle_for_blocks p)\<rparr>) })"

definition disconnect_peer :: "PeersTasks \<Rightarrow> PeerIndex \<Rightarrow> PeersTasks option" where
  "disconnect_peer p i =
     (if map_of (blocks_requests p) i \<noteq> None then None
      else Some (p\<lparr>all_peers := removeAll i (all_peers p), unuseful := removeAll i (unuseful p),
                   idle_for_headers := removeAll i (idle_for_headers p),
                   idle_for_blocks := removeAll i (idle_for_blocks p),
                   headers_requests := AList.delete i (headers_requests p),
                   blocks_requests := AList.delete i (blocks_requests p), stats := (stats p)(i := None)\<rparr>))"

text \<open>\<^verbatim>\<open>stats.get_mut(..).map(..)\<close>: an update of the statistics of a peer, if it has any.\<close>

definition update_stats ::
  "(PeerStats \<Rightarrow> PeerStats option) \<Rightarrow> PeersTasks \<Rightarrow> PeerIndex \<Rightarrow> PeersTasks option" where
  "update_stats f p i =
     (case stats p i of
        None \<Rightarrow> Some p
      | Some s \<Rightarrow> do { s \<leftarrow> f s; Some (p\<lparr>stats := (stats p)(i \<mapsto> s)\<rparr>) })"

definition stats_received :: "real \<Rightarrow> PeerStats \<Rightarrow> PeerStats option" where
  "stats_received now s =
     do { m \<leftarrow> meter_checkpoint now (ps_speed s);
          Some (s\<lparr>ps_failures := (if ps_failures s > 0 then ps_failures s - 1 else ps_failures s),
                  ps_trust := Trusted, ps_speed := m\<rparr>) }"

definition on_block_received :: "real \<Rightarrow> PeersTasks \<Rightarrow> PeerIndex \<Rightarrow> h256 \<Rightarrow> PeersTasks option" where
  "on_block_received now p i h =
     (let p = p\<lparr>blocks_stats := (blocks_stats p)(h := None)\<rparr> in
      case map_of (blocks_requests p) i of
        None \<Rightarrow> Some p
      | Some request \<Rightarrow>
          if h \<notin> set (br_blocks request) then Some p
          else do {
            let request = request\<lparr>br_blocks := removeAll h (br_blocks request)\<rparr>;
            let p = p\<lparr>blocks_requests := AList.update i request (blocks_requests p)\<rparr>;
            p \<leftarrow> update_stats (stats_received now) p i;
            if br_blocks request \<noteq> []
            then Some (p\<lparr>blocks_requests :=
                   AList.delete i (blocks_requests p) @ [(i, request\<lparr>br_timestamp := now\<rparr>)]\<rparr>)
            else do {
              p \<leftarrow> update_stats (\<lambda>s. Some (s\<lparr>ps_speed := meter_stop (ps_speed s)\<rparr>)) p i;
              let p = p\<lparr>blocks_requests := AList.delete i (blocks_requests p),
                        idle_for_blocks := List.insert i (idle_for_blocks p)\<rparr>;
              Some (if map_of (headers_requests p) i = None
                    then p\<lparr>idle_for_headers := List.insert i (idle_for_headers p)\<rparr> else p) } })"

definition on_headers_received :: "PeersTasks \<Rightarrow> PeerIndex \<Rightarrow> PeersTasks" where
  "on_headers_received p i =
     (let p = p\<lparr>headers_requests := AList.delete i (headers_requests p)\<rparr>
      in if map_of (blocks_requests p) i = None
         then p\<lparr>idle_for_headers := List.insert i (idle_for_headers p)\<rparr> else p)"

definition on_blocks_requested :: "real \<Rightarrow> PeersTasks \<Rightarrow> PeerIndex \<Rightarrow> h256 list \<Rightarrow> PeersTasks option" where
  "on_blocks_requested now p i hashes =
     do { p \<leftarrow> (if i \<notin> set (all_peers p) then unuseful_peer p i else Some p);
          let p = p\<lparr>unuseful := removeAll i (unuseful p), idle_for_blocks := removeAll i (idle_for_blocks p)\<rparr>;
          let request = (case map_of (blocks_requests p) i of Some r \<Rightarrow> r | None \<Rightarrow> blocks_request_new now);
          let request = request\<lparr>br_blocks := fold List.insert hashes (br_blocks request)\<rparr>;
          let p = p\<lparr>blocks_requests := AList.update i request (blocks_requests p)\<rparr>;
          update_stats (\<lambda>s. Some (s\<lparr>ps_speed := meter_start now (ps_speed s)\<rparr>)) p i }"

definition on_headers_requested :: "real \<Rightarrow> PeersTasks \<Rightarrow> PeerIndex \<Rightarrow> PeersTasks option" where
  "on_headers_requested now p i =
     do { p \<leftarrow> (if i \<notin> set (all_peers p) then unuseful_peer p i else Some p);
          Some (p\<lparr>idle_for_headers := removeAll i (idle_for_headers p),
                  headers_requests := AList.delete i (headers_requests p) @ [(i, headers_request_new now)]\<rparr>) }"

definition block_failed :: "PeersTasks \<Rightarrow> h256 \<Rightarrow> PeersTasks \<times> bool" where
  "block_failed p h =
     (let n = (case blocks_stats p h of Some s \<Rightarrow> bs_failures s | None \<Rightarrow> 0) + 1
      in if n > MAX_BLOCKS_FAILURES then (p\<lparr>blocks_stats := (blocks_stats p)(h := None)\<rparr>, True)
         else (p\<lparr>blocks_stats := (blocks_stats p)(h \<mapsto> \<lparr>bs_failures = n\<rparr>)\<rparr>, False))"

fun on_blocks_failure :: "PeersTasks \<Rightarrow> h256 list \<Rightarrow> PeersTasks \<times> h256 list \<times> h256 list" where
  "on_blocks_failure p [] = (p, [], [])"
| "on_blocks_failure p (h # hs) =
     (let (p, failed) = block_failed p h;
          (p, normal_blocks, failed_blocks) = on_blocks_failure p hs
      in if failed then (p, normal_blocks, h # failed_blocks) else (p, h # normal_blocks, failed_blocks))"

definition penalize :: "PeersTasks \<Rightarrow> PeerIndex \<Rightarrow> PeersTasks \<times> bool" where
  "penalize p i =
     (case stats p i of
        None \<Rightarrow> (p, False)
      | Some s \<Rightarrow>
          if ps_trust s = Trusted
          then (p\<lparr>stats := (stats p)(i \<mapsto> s\<lparr>ps_failures := ps_failures s + 1\<rparr>)\<rparr>, ps_failures s + 1 > MAX_PEER_FAILURES)
          else (p\<lparr>stats := (stats p)(i \<mapsto> s\<lparr>ps_failures := MAX_PEER_FAILURES\<rparr>)\<rparr>, True))"

definition on_peer_block_failure :: "PeersTasks \<Rightarrow> PeerIndex \<Rightarrow> PeersTasks \<times> bool" where
  "on_peer_block_failure p i = penalize p i"

definition on_peer_headers_failure :: "PeersTasks \<Rightarrow> PeerIndex \<Rightarrow> PeersTasks \<times> bool" where
  "on_peer_headers_failure p i =
     penalize (p\<lparr>headers_requests := AList.delete i (headers_requests p),
                 idle_for_headers := List.insert i (idle_for_headers p)\<rparr>) i"

definition peers_reset :: "PeersTasks \<Rightarrow> PeersTasks" where
  "peers_reset p =
     p\<lparr>unuseful := all_peers p, idle_for_headers := [], idle_for_blocks := [], headers_requests := [],
       blocks_requests := []\<rparr>"

definition reset_blocks_tasks :: "PeersTasks \<Rightarrow> PeerIndex \<Rightarrow> h256 list \<times> PeersTasks" where
  "reset_blocks_tasks p i =
     (case map_of (blocks_requests p) i of None \<Rightarrow> [] | Some r \<Rightarrow> br_blocks r,
      p\<lparr>idle_for_blocks := List.insert i (idle_for_blocks p), blocks_requests := AList.delete i (blocks_requests p)\<rparr>)"

section \<open>The invariant\<close>

text \<open>
  A peer with pending blocks requests is known, useful and not idle for blocks; exactly the known peers have
  statistics, and their speed meters are in order; no container holds a key twice.
\<close>

definition stats_ok :: "PeerIndex set \<Rightarrow> (PeerIndex \<rightharpoonup> PeerStats) \<Rightarrow> bool" where
  "stats_ok A st \<longleftrightarrow> dom st = A \<and> (\<forall>i s. st i = Some s \<longrightarrow> meter_inv (ps_speed s))"

definition requests_ok :: "PeerIndex set \<Rightarrow> (PeerIndex \<times> BlocksRequest) list \<Rightarrow> bool" where
  "requests_ok A rs \<longleftrightarrow> distinct (map fst rs) \<and> fst ` set rs \<subseteq> A \<and> (\<forall>r \<in> snd ` set rs. distinct (br_blocks r))"

definition pt_inv :: "PeersTasks \<Rightarrow> bool" where
  "pt_inv p \<longleftrightarrow>
     distinct (all_peers p) \<and> distinct (unuseful p) \<and> distinct (idle_for_headers p) \<and> distinct (idle_for_blocks p) \<and>
     distinct (map fst (headers_requests p)) \<and> set (unuseful p) \<subseteq> set (all_peers p) \<and>
     stats_ok (set (all_peers p)) (stats p) \<and>
     requests_ok (set (all_peers p) - set (unuseful p) - set (idle_for_blocks p)) (blocks_requests p)"

lemma stats_ok_insert: "stats_ok A st \<Longrightarrow> meter_inv (ps_speed s) \<Longrightarrow> stats_ok (insert i A) (st(i \<mapsto> s))"
  by (auto simp: stats_ok_def)

lemma stats_ok_remove: "stats_ok A st \<Longrightarrow> stats_ok (A - {i}) (st(i := None))"
  by (auto simp: stats_ok_def)

lemma requests_ok_mono: "requests_ok A rs \<Longrightarrow> A \<subseteq> B \<Longrightarrow> requests_ok B rs"
  by (auto simp: requests_ok_def)

lemma requests_ok_avoid: "requests_ok A rs \<Longrightarrow> map_of rs i = None \<Longrightarrow> requests_ok (A - {i}) rs"
  by (auto simp: requests_ok_def map_of_eq_None_iff)

lemma set_delete: "set (AList.delete k xs) = {x \<in> set xs. fst x \<noteq> k}"
  by (auto simp: AList.delete_eq)

lemma requests_ok_delete: "requests_ok A rs \<Longrightarrow> requests_ok (A - {i}) (AList.delete i rs)"
  by (auto simp: requests_ok_def set_delete distinct_delete)

lemma requests_ok_snoc: "requests_ok A rs \<Longrightarrow> i \<notin> fst ` set rs \<Longrightarrow> distinct (br_blocks r) \<Longrightarrow> requests_ok (insert i A) (rs @ [(i, r)])"
  by (auto simp: requests_ok_def)

lemma requests_ok_update:
  assumes "requests_ok A rs" "distinct (br_blocks r)"
  shows "requests_ok (insert i A) (AList.update i r rs)"
proof -
  have "distinct (map fst (AList.update i r rs))" using assms(1) by (simp add: requests_ok_def distinct_update)
  moreover have "fst ` set (AList.update i r rs) \<subseteq> insert i A"
    using assms(1) unfolding AList.dom_update requests_ok_def by blast
  moreover have sub: "snd ` set (AList.update i r rs) \<subseteq> insert r (snd ` set rs)"
    by (induction rs) auto
  have "distinct (br_blocks x)" if "x \<in> snd ` set (AList.update i r rs)" for x
    using subsetD [OF sub that] assms unfolding requests_ok_def by (elim insertE) auto
  ultimately show ?thesis unfolding requests_ok_def by simp
qed

lemma peer_stats_new_ok: "\<exists>s. peer_stats_new = Some s \<and> meter_inv (ps_speed s)"
  using with_inspect_items_inv [of BLOCKS_TO_INSPECT]
  by (auto simp: peer_stats_new_def BLOCKS_TO_INSPECT_def)

lemma distinct_fold_insert [simp]: "distinct ys \<Longrightarrow> distinct (fold List.insert xs ys)"
  by (induction xs arbitrary: ys) auto

lemma set_fold_insert [simp]: "set (fold List.insert xs ys) = set xs \<union> set ys"
  by (induction xs arbitrary: ys) auto

lemma pt_inv_default: "pt_inv peers_tasks_default"
  by (simp add: pt_inv_def peers_tasks_default_def stats_ok_def requests_ok_def)

lemma useful_peer_ok:
  assumes p: "pt_inv p"
  shows "\<exists>p'. useful_peer p i = Some p' \<and> pt_inv p' \<and> i \<in> set (useful_peers p') \<and> blocks_requests p' = blocks_requests p \<and>
    set (all_peers p') = insert i (set (all_peers p))"
proof (cases "i \<notin> set (all_peers p) \<or> i \<in> set (unuseful p)")
  case True
  from peer_stats_new_ok obtain s where s: "peer_stats_new = Some s" "meter_inv (ps_speed s)" by blast
  define U where "U = (if i \<notin> set (all_peers p) then unuseful p else removeAll i (unuseful p))"
  have U: "set U = set (unuseful p) - {i}" "distinct U" "set (unuseful p) - {i} \<subseteq> insert i (set (all_peers p))"
    using p by (auto simp: U_def pt_inv_def distinct_removeAll)
  have req: "requests_ok (set (all_peers p) - set (unuseful p) - set (idle_for_blocks p)) (blocks_requests p)"
    using p by (simp add: pt_inv_def)
  have "requests_ok (insert i (set (all_peers p)) - (set (unuseful p) - {i}) - insert i (set (idle_for_blocks p)))
      (blocks_requests p)" by (rule requests_ok_mono [OF req]) (use True in blast)
  moreover have "stats_ok (insert i (set (all_peers p))) ((stats p)(i \<mapsto> s))"
    using p s(2) by (simp add: pt_inv_def stats_ok_insert)
  ultimately have "pt_inv (p\<lparr>all_peers := List.insert i (all_peers p), unuseful := U,
      idle_for_headers := List.insert i (idle_for_headers p), idle_for_blocks := List.insert i (idle_for_blocks p),
      stats := (stats p)(i \<mapsto> s)\<rparr>)"
    using p U unfolding pt_inv_def by simp
  moreover have "useful_peer p i = Some (p\<lparr>all_peers := List.insert i (all_peers p), unuseful := U,
      idle_for_headers := List.insert i (idle_for_headers p), idle_for_blocks := List.insert i (idle_for_blocks p),
      stats := (stats p)(i \<mapsto> s)\<rparr>)"
    using True unfolding useful_peer_def U_def s(1) by simp
  ultimately show ?thesis using U(1) by (simp add: useful_peers_def)
next
  case False
  with p show ?thesis by (auto simp: useful_peer_def useful_peers_def)
qed

lemma unuseful_peer_ok:
  assumes p: "pt_inv p"
  shows "if map_of (blocks_requests p) i \<noteq> None then unuseful_peer p i = None
    else \<exists>p'. unuseful_peer p i = Some p' \<and> pt_inv p' \<and> i \<in> set (unuseful p') \<and> blocks_requests p' = blocks_requests p \<and>
      set (all_peers p') = insert i (set (all_peers p)) \<and> set (idle_for_blocks p') = set (idle_for_blocks p) - {i}"
proof (cases "map_of (blocks_requests p) i")
  case None
  from peer_stats_new_ok obtain s where s: "peer_stats_new = Some s" "meter_inv (ps_speed s)" by blast
  define st where "st = (if i \<notin> set (all_peers p) then (stats p)(i \<mapsto> s) else stats p)"
  have "stats_ok (set (all_peers p)) (stats p)" using p by (simp add: pt_inv_def)
  then have st: "stats_ok (insert i (set (all_peers p))) st"
    using stats_ok_insert s(2) by (simp add: st_def insert_absorb)
  have "requests_ok (set (all_peers p) - set (unuseful p) - set (idle_for_blocks p)) (blocks_requests p)"
    using p by (simp add: pt_inv_def)
  note req = requests_ok_avoid [OF this None]
  have "requests_ok (insert i (set (all_peers p)) - insert i (set (unuseful p)) - (set (idle_for_blocks p) - {i}))
      (blocks_requests p)" by (rule requests_ok_mono [OF req]) blast
  moreover have "insert i (set (unuseful p)) \<subseteq> insert i (set (all_peers p))" using p by (auto simp: pt_inv_def)
  ultimately have "pt_inv (p\<lparr>all_peers := List.insert i (all_peers p), stats := st, unuseful := List.insert i (unuseful p),
      idle_for_headers := removeAll i (idle_for_headers p), idle_for_blocks := removeAll i (idle_for_blocks p)\<rparr>)"
    using p st unfolding pt_inv_def by (simp add: distinct_removeAll)
  moreover have "unuseful_peer p i = Some (p\<lparr>all_peers := List.insert i (all_peers p), stats := st,
      unuseful := List.insert i (unuseful p), idle_for_headers := removeAll i (idle_for_headers p),
      idle_for_blocks := removeAll i (idle_for_blocks p)\<rparr>)"
    using None unfolding unuseful_peer_def st_def s(1) by simp
  ultimately show ?thesis using None by simp
qed (simp add: unuseful_peer_def)

lemma disconnect_peer_ok:
  assumes p: "pt_inv p"
  shows "if map_of (blocks_requests p) i \<noteq> None then disconnect_peer p i = None
    else \<exists>p'. disconnect_peer p i = Some p' \<and> pt_inv p' \<and> set (all_peers p') = set (all_peers p) - {i} \<and>
      blocks_requests p' = AList.delete i (blocks_requests p)"
proof (cases "map_of (blocks_requests p) i")
  case None
  have "requests_ok (set (all_peers p) - set (unuseful p) - set (idle_for_blocks p)) (blocks_requests p)"
    using p by (simp add: pt_inv_def)
  note req = requests_ok_delete [OF this, of i]
  have "requests_ok (set (all_peers p) - {i} - (set (unuseful p) - {i}) - (set (idle_for_blocks p) - {i}))
      (AList.delete i (blocks_requests p))" by (rule requests_ok_mono [OF req]) blast
  moreover have "stats_ok (set (all_peers p) - {i}) ((stats p)(i := None))"
    using p by (simp add: pt_inv_def stats_ok_remove)
  moreover have "set (unuseful p) - {i} \<subseteq> set (all_peers p) - {i}" using p by (auto simp: pt_inv_def)
  ultimately show ?thesis
    using None p unfolding pt_inv_def disconnect_peer_def by (simp add: distinct_removeAll distinct_delete)
qed (simp add: disconnect_peer_def)

lemma update_stats_ok:
  assumes p: "pt_inv p" and f: "\<And>s. meter_inv (ps_speed s) \<Longrightarrow> \<exists>s'. f s = Some s' \<and> meter_inv (ps_speed s')"
  shows "\<exists>st. update_stats f p i = Some (p\<lparr>stats := st\<rparr>) \<and> pt_inv (p\<lparr>stats := st\<rparr>)"
proof (cases "stats p i")
  case None
  then show ?thesis using p by (intro exI [of _ "stats p"]) (simp add: update_stats_def)
next
  case (Some s)
  have st: "stats_ok (set (all_peers p)) (stats p)" using p by (simp add: pt_inv_def)
  with Some have s: "meter_inv (ps_speed s)" "i \<in> set (all_peers p)" by (auto simp: stats_ok_def)
  from f [OF s(1)] obtain s' where s': "f s = Some s'" "meter_inv (ps_speed s')" by blast
  from stats_ok_insert [OF st s'(2), of i] s(2) have "stats_ok (set (all_peers p)) ((stats p)(i \<mapsto> s'))"
    by (simp add: insert_absorb)
  with Some s'(1) p show ?thesis
    by (intro exI [of _ "(stats p)(i \<mapsto> s')"]) (simp add: update_stats_def pt_inv_def)
qed

lemma on_headers_received_ok: "pt_inv p \<Longrightarrow> pt_inv (on_headers_received p i)"
  by (simp add: on_headers_received_def pt_inv_def distinct_delete Let_def)

lemma peers_reset_ok: "pt_inv p \<Longrightarrow> pt_inv (peers_reset p)"
  by (simp add: peers_reset_def pt_inv_def requests_ok_def)

lemma reset_blocks_tasks_ok:
  assumes "pt_inv p" "reset_blocks_tasks p i = (hashes, p')"
  shows "pt_inv p'" "map_of (blocks_requests p') i = None"
    "hashes = (case get_blocks_tasks p i of None \<Rightarrow> [] | Some hs \<Rightarrow> hs)" "all_peers p' = all_peers p"
proof -
  have "requests_ok (set (all_peers p) - set (unuseful p) - set (idle_for_blocks p)) (blocks_requests p)"
    using assms(1) by (simp add: pt_inv_def)
  note req = requests_ok_delete [OF this, of i]
  have "requests_ok (set (all_peers p) - set (unuseful p) - insert i (set (idle_for_blocks p)))
      (AList.delete i (blocks_requests p))" by (rule requests_ok_mono [OF req]) blast
  with assms show "pt_inv p'" by (auto simp: reset_blocks_tasks_def pt_inv_def)
  show "map_of (blocks_requests p') i = None" "all_peers p' = all_peers p"
    "hashes = (case get_blocks_tasks p i of None \<Rightarrow> [] | Some hs \<Rightarrow> hs)"
    using assms(2) by (auto simp: reset_blocks_tasks_def get_blocks_tasks_def split: option.splits)
qed

lemma on_blocks_requested_ok:
  assumes p: "pt_inv p"
  shows "\<exists>p'. on_blocks_requested now p i hashes = Some p' \<and> pt_inv p' \<and> i \<in> set (useful_peers p') \<and>
    (\<exists>hs. get_blocks_tasks p' i = Some hs \<and>
       set hs = set hashes \<union> (case get_blocks_tasks p i of None \<Rightarrow> {} | Some old \<Rightarrow> set old)) \<and>
    (\<forall>j. j \<noteq> i \<longrightarrow> get_blocks_tasks p' j = get_blocks_tasks p j) \<and> set (all_peers p') = insert i (set (all_peers p))"
proof -
  have none: "i \<notin> set (all_peers p) \<Longrightarrow> map_of (blocks_requests p) i = None"
    using p by (auto simp: pt_inv_def requests_ok_def map_of_eq_None_iff)
  obtain p1 where p1: "(if i \<notin> set (all_peers p) then unuseful_peer p i else Some p) = Some p1" "pt_inv p1"
      "blocks_requests p1 = blocks_requests p" "set (all_peers p1) = insert i (set (all_peers p))"
    using unuseful_peer_ok [OF p, of i] none p by (cases "i \<in> set (all_peers p)") (auto simp: insert_absorb)
  define old where "old = (case map_of (blocks_requests p) i of Some r \<Rightarrow> r | None \<Rightarrow> blocks_request_new now)"
  define r where "r = old\<lparr>br_blocks := fold List.insert hashes (br_blocks old)\<rparr>"
  define p2 where "p2 = p1\<lparr>unuseful := removeAll i (unuseful p1), idle_for_blocks := removeAll i (idle_for_blocks p1),
      blocks_requests := AList.update i r (blocks_requests p)\<rparr>"
  have req: "requests_ok (set (all_peers p1) - set (unuseful p1) - set (idle_for_blocks p1)) (blocks_requests p)"
    using p1(2,3) by (simp add: pt_inv_def)
  have "distinct (br_blocks old)"
    using req by (auto simp: old_def requests_ok_def blocks_request_new_def split: option.splits dest!: map_of_SomeD)
  then have "distinct (br_blocks r)" by (simp add: r_def)
  from requests_ok_update [OF req this, of i]
  have "requests_ok (insert i (set (all_peers p1) - set (unuseful p1) - set (idle_for_blocks p1))) (AList.update i r (blocks_requests p))" .
  then have "requests_ok (set (all_peers p1) - (set (unuseful p1) - {i}) - (set (idle_for_blocks p1) - {i}))
      (AList.update i r (blocks_requests p))"
    by (rule requests_ok_mono) (use p1(4) in blast)
  moreover have "set (unuseful p1) - {i} \<subseteq> set (all_peers p1)" using p1(2) by (auto simp: pt_inv_def)
  ultimately have "pt_inv p2" using p1(2) unfolding pt_inv_def p2_def by (simp add: distinct_removeAll)
  from update_stats_ok [OF this, of "\<lambda>s. Some (s\<lparr>ps_speed := meter_start now (ps_speed s)\<rparr>)" i] obtain st where
    st: "update_stats (\<lambda>s. Some (s\<lparr>ps_speed := meter_start now (ps_speed s)\<rparr>)) p2 i = Some (p2\<lparr>stats := st\<rparr>)"
      "pt_inv (p2\<lparr>stats := st\<rparr>)" by auto
  have "on_blocks_requested now p i hashes = Some (p2\<lparr>stats := st\<rparr>)"
    unfolding on_blocks_requested_def p1(1) using st(1) p1(3) by (simp add: p2_def r_def old_def Let_def)
  moreover have "i \<in> set (all_peers p1)" using p1(4) by simp
  ultimately show ?thesis
    using st(2) p1(3,4)
    by (intro exI [of _ "p2\<lparr>stats := st\<rparr>"])
      (auto simp: useful_peers_def get_blocks_tasks_def p2_def r_def old_def blocks_request_new_def split: option.splits)
qed

lemma on_headers_requested_ok:
  assumes p: "pt_inv p"
  shows "\<exists>p'. on_headers_requested now p i = Some p' \<and> pt_inv p' \<and> blocks_requests p' = blocks_requests p \<and>
    map_of (headers_requests p') i \<noteq> None \<and> i \<notin> set (idle_for_headers p') \<and> set (all_peers p') = insert i (set (all_peers p)) \<and>
    set (idle_for_blocks p') \<subseteq> set (idle_for_blocks p)"
proof -
  have none: "i \<notin> set (all_peers p) \<Longrightarrow> map_of (blocks_requests p) i = None"
    using p by (auto simp: pt_inv_def requests_ok_def map_of_eq_None_iff)
  obtain p1 where p1: "(if i \<notin> set (all_peers p) then unuseful_peer p i else Some p) = Some p1" "pt_inv p1"
      "blocks_requests p1 = blocks_requests p" "set (all_peers p1) = insert i (set (all_peers p))"
      "set (idle_for_blocks p1) \<subseteq> set (idle_for_blocks p)"
    using unuseful_peer_ok [OF p, of i] none p by (cases "i \<in> set (all_peers p)") (auto simp: insert_absorb)
  have "i \<notin> fst ` set (AList.delete i (headers_requests p1))" by (auto simp: set_delete)
  with p1(2) have "pt_inv (p1\<lparr>idle_for_headers := removeAll i (idle_for_headers p1),
      headers_requests := AList.delete i (headers_requests p1) @ [(i, headers_request_new now)]\<rparr>)"
    unfolding pt_inv_def by (simp add: distinct_removeAll distinct_delete)
  with p1 show ?thesis unfolding on_headers_requested_def by (simp add: map_add_def)
qed

text \<open>A received block: the request loses the block, and a peer without further requested blocks becomes idle.\<close>

lemma received_requested_block:
  assumes p: "pt_inv p" and r: "map_of (blocks_requests p) i = Some r" "h \<in> set (br_blocks r)"
  shows "\<exists>p'. on_block_received now p i h = Some p' \<and> pt_inv p' \<and> all_peers p' = all_peers p \<and>
    (if removeAll h (br_blocks r) = [] then map_of (blocks_requests p') i = None \<and> i \<in> set (idle_for_blocks p')
     else get_blocks_tasks p' i = Some (removeAll h (br_blocks r)))"
proof -
  let ?A = "set (all_peers p) - set (unuseful p) - set (idle_for_blocks p)"
  let ?r = "r\<lparr>br_blocks := removeAll h (br_blocks r)\<rparr>" and ?bs = "(blocks_stats p)(h := None)"
  have req: "requests_ok ?A (blocks_requests p)" using p by (simp add: pt_inv_def)
  then have d: "distinct (br_blocks ?r)" and i: "i \<in> ?A"
    using r(1) by (auto simp: requests_ok_def distinct_removeAll dest!: map_of_SomeD)
  from requests_ok_update [OF req d, of i] i have upd: "requests_ok ?A (AList.update i ?r (blocks_requests p))"
    by (simp add: insert_absorb)
  let ?p1 = "p\<lparr>blocks_stats := ?bs, blocks_requests := AList.update i ?r (blocks_requests p)\<rparr>"
  have "pt_inv ?p1" using p upd by (simp add: pt_inv_def)
  moreover have "\<exists>s'. stats_received now s = Some s' \<and> meter_inv (ps_speed s')" if "meter_inv (ps_speed s)" for s
    using meter_checkpoint_inv [OF that, of now] by (auto simp: stats_received_def)
  ultimately obtain st where st: "update_stats (stats_received now) ?p1 i = Some (?p1\<lparr>stats := st\<rparr>)" "pt_inv (?p1\<lparr>stats := st\<rparr>)"
    using update_stats_ok [of ?p1 "stats_received now" i] by blast
  note unfold = on_block_received_def Let_def r st(1)
  show ?thesis
  proof (cases "removeAll h (br_blocks r) = []")
    case False
    have "i \<notin> fst ` set (AList.delete i (AList.update i ?r (blocks_requests p)))" by (auto simp: set_delete)
    from requests_ok_snoc [OF requests_ok_delete [OF upd] this, of "?r\<lparr>br_timestamp := now\<rparr>"] i d
    have "requests_ok ?A (AList.delete i (AList.update i ?r (blocks_requests p)) @ [(i, ?r\<lparr>br_timestamp := now\<rparr>)])"
      by (simp add: insert_absorb)
    with st(2) False show ?thesis
      by (simp add: unfold pt_inv_def get_blocks_tasks_def map_add_def)
  next
    case True
    from update_stats_ok [OF st(2), of "\<lambda>s. Some (s\<lparr>ps_speed := meter_stop (ps_speed s)\<rparr>)" i] obtain st' where
      st': "update_stats (\<lambda>s. Some (s\<lparr>ps_speed := meter_stop (ps_speed s)\<rparr>)) (?p1\<lparr>stats := st\<rparr>) i = Some (?p1\<lparr>stats := st'\<rparr>)"
        "pt_inv (?p1\<lparr>stats := st'\<rparr>)" by auto
    have "requests_ok (?A - {i}) (AList.delete i (AList.update i ?r (blocks_requests p)))"
      by (rule requests_ok_delete [OF upd])
    then have "requests_ok (set (all_peers p) - set (unuseful p) - insert i (set (idle_for_blocks p)))
        (AList.delete i (AList.update i ?r (blocks_requests p)))" by (rule requests_ok_mono) blast
    then show ?thesis
      using st'(2) [unfolded True] unfolding True
      by (simp add: on_block_received_def Let_def r True st(1) [unfolded True] st'(1) [unfolded True] pt_inv_def)
  qed
qed

lemma on_block_received_ok:
  assumes p: "pt_inv p"
  shows "\<exists>p'. on_block_received now p i h = Some p' \<and> pt_inv p' \<and> all_peers p' = all_peers p"
proof -
  have "pt_inv (p\<lparr>blocks_stats := (blocks_stats p)(h := None)\<rparr>)" using p by (simp add: pt_inv_def)
  with received_requested_block [OF p, of i _ h now] show ?thesis
    by (cases "map_of (blocks_requests p) i"; cases "h \<in> set (br_blocks (the (map_of (blocks_requests p) i)))")
      (auto simp: on_block_received_def Let_def)
qed

lemma block_failed_ok: "pt_inv p \<Longrightarrow> pt_inv (fst (block_failed p h))"
  by (simp add: block_failed_def Let_def pt_inv_def)

lemma on_blocks_failure_ok:
  "pt_inv p \<Longrightarrow> on_blocks_failure p hashes = (p', normal, failed) \<Longrightarrow>
   pt_inv p' \<and> mset normal + mset failed = mset hashes"
proof (induction hashes arbitrary: p p' normal failed)
  case (Cons h hs)
  obtain p1 b where 1: "block_failed p h = (p1, b)" by force
  obtain p2 n f where 2: "on_blocks_failure p1 hs = (p2, n, f)" by (metis prod_cases3)
  have "pt_inv p1" using block_failed_ok [OF Cons.prems(1), of h] 1 by simp
  from Cons.IH [OF this 2] Cons.prems(2) 1 2 show ?case by (auto split: if_splits)
qed simp

lemma penalize_ok:
  assumes "pt_inv p" "penalize p i = (p', b)"
  shows "pt_inv p' \<and> all_peers p' = all_peers p \<and> blocks_requests p' = blocks_requests p"
proof (cases "stats p i")
  case None
  with assms show ?thesis by (auto simp: penalize_def)
next
  case (Some s)
  have st: "stats_ok (set (all_peers p)) (stats p)" using assms(1) by (simp add: pt_inv_def)
  with Some have s: "meter_inv (ps_speed s)" "i \<in> set (all_peers p)" by (auto simp: stats_ok_def)
  have "stats_ok (set (all_peers p)) ((stats p)(i \<mapsto> s\<lparr>ps_failures := n\<rparr>))" for n
    using stats_ok_insert [OF st, of "s\<lparr>ps_failures := n\<rparr>" i] s by (simp add: insert_absorb)
  with Some assms show ?thesis by (auto simp: penalize_def pt_inv_def split: if_splits)
qed

lemma on_peer_headers_failure_ok:
  assumes "pt_inv p" "on_peer_headers_failure p i = (p', b)"
  shows "pt_inv p'"
proof -
  have "pt_inv (p\<lparr>headers_requests := AList.delete i (headers_requests p), idle_for_headers := List.insert i (idle_for_headers p)\<rparr>)"
    using assms(1) by (simp add: pt_inv_def distinct_delete)
  from penalize_ok [OF this, of i p' b] assms(2) show ?thesis by (simp add: on_peer_headers_failure_def)
qed

section \<open>Reachable states\<close>

inductive peers_reachable :: "PeersTasks \<Rightarrow> bool" where
  peers_start: "peers_reachable peers_tasks_default"
| peers_useful: "peers_reachable p \<Longrightarrow> useful_peer p i = Some p' \<Longrightarrow> peers_reachable p'"
| peers_unuseful: "peers_reachable p \<Longrightarrow> unuseful_peer p i = Some p' \<Longrightarrow> peers_reachable p'"
| peers_disconnect: "peers_reachable p \<Longrightarrow> disconnect_peer p i = Some p' \<Longrightarrow> peers_reachable p'"
| peers_block: "peers_reachable p \<Longrightarrow> on_block_received now p i h = Some p' \<Longrightarrow> peers_reachable p'"
| peers_headers: "peers_reachable p \<Longrightarrow> peers_reachable (on_headers_received p i)"
| peers_blocks_requested: "peers_reachable p \<Longrightarrow> on_blocks_requested now p i hashes = Some p' \<Longrightarrow> peers_reachable p'"
| peers_headers_requested: "peers_reachable p \<Longrightarrow> on_headers_requested now p i = Some p' \<Longrightarrow> peers_reachable p'"
| peers_blocks_failure: "peers_reachable p \<Longrightarrow> on_blocks_failure p hashes = (p', normal, failed) \<Longrightarrow> peers_reachable p'"
| peers_penalize: "peers_reachable p \<Longrightarrow> penalize p i = (p', b) \<Longrightarrow> peers_reachable p'"
| peers_headers_failure: "peers_reachable p \<Longrightarrow> on_peer_headers_failure p i = (p', b) \<Longrightarrow> peers_reachable p'"
| peers_reset_all: "peers_reachable p \<Longrightarrow> peers_reachable (peers_reset p)"
| peers_reset_blocks: "peers_reachable p \<Longrightarrow> reset_blocks_tasks p i = (hashes, p') \<Longrightarrow> peers_reachable p'"

lemma peers_reachable_inv: "peers_reachable p \<Longrightarrow> pt_inv p"
proof (induction rule: peers_reachable.induct)
  case (peers_useful p i p')
  then show ?case using useful_peer_ok [of p i] by auto
next
  case (peers_unuseful p i p')
  then show ?case using unuseful_peer_ok [of p i] by (auto split: if_splits)
next
  case (peers_disconnect p i p')
  then show ?case using disconnect_peer_ok [of p i] by (auto split: if_splits)
next
  case (peers_block p now i h p')
  then show ?case using on_block_received_ok [of p now i h] by auto
next
  case (peers_blocks_requested p now i hashes p')
  then show ?case using on_blocks_requested_ok [of p now i hashes] by auto
next
  case (peers_headers_requested p now i p')
  then show ?case using on_headers_requested_ok [of p now i] by auto
next
  case (peers_blocks_failure p hashes p' normal failed)
  then show ?case using on_blocks_failure_ok by blast
next
  case (peers_penalize p i p' b)
  then show ?case using penalize_ok by blast
next
  case (peers_headers_failure p i p' b)
  then show ?case using on_peer_headers_failure_ok by blast
next
  case (peers_reset_blocks p i hashes p')
  then show ?case using reset_blocks_tasks_ok(1) by blast
qed (simp_all add: pt_inv_default on_headers_received_ok peers_reset_ok)

section \<open>Properties\<close>

text \<open>C29: in every reachable state a peer that is asked for blocks is known, useful and not idle for blocks, exactly the
  known peers have statistics, and the assertions of the code hold: asking a peer for blocks or headers never
  panics, and a peer can be excluded or disconnected after its requests were taken back, which returns exactly the
  blocks it was asked for.\<close>

theorem peers_tasks_consistent:
  assumes "peers_reachable p"
  shows "(\<forall>i hashes. get_blocks_tasks p i = Some hashes \<longrightarrow>
       i \<in> set (useful_peers p) \<and> i \<notin> set (idle_for_blocks p) \<and> distinct hashes) \<and>
    (\<forall>i. stats p i \<noteq> None \<longleftrightarrow> i \<in> set (all_peers p)) \<and>
    (\<forall>now i hashes. on_blocks_requested now p i hashes \<noteq> None \<and> on_headers_requested now p i \<noteq> None) \<and>
    (\<forall>i hashes p'. reset_blocks_tasks p i = (hashes, p') \<longrightarrow>
       hashes = (case get_blocks_tasks p i of None \<Rightarrow> [] | Some hs \<Rightarrow> hs) \<and>
       unuseful_peer p' i \<noteq> None \<and> disconnect_peer p' i \<noteq> None)"
proof (intro conjI allI impI)
  note inv = peers_reachable_inv [OF assms]
  fix i hashes
  { assume "get_blocks_tasks p i = Some hashes"
    then obtain r where r: "(i, r) \<in> set (blocks_requests p)" "hashes = br_blocks r"
      by (auto simp: get_blocks_tasks_def dest!: map_of_SomeD)
    have "requests_ok (set (all_peers p) - set (unuseful p) - set (idle_for_blocks p)) (blocks_requests p)"
      using inv by (simp add: pt_inv_def)
    with r have "i \<in> set (all_peers p) - set (unuseful p) - set (idle_for_blocks p)" "distinct hashes"
      by (auto simp: requests_ok_def)
    then show "i \<in> set (useful_peers p)" "i \<notin> set (idle_for_blocks p)" "distinct hashes"
      by (simp_all add: useful_peers_def) }
  show "stats p i \<noteq> None \<longleftrightarrow> i \<in> set (all_peers p)" using inv by (auto simp: pt_inv_def stats_ok_def)
  show "on_blocks_requested now p i hashes \<noteq> None" for now using on_blocks_requested_ok [OF inv, of now i hashes] by auto
  show "on_headers_requested now p i \<noteq> None" for now using on_headers_requested_ok [OF inv, of now i] by auto
  fix p' assume r: "reset_blocks_tasks p i = (hashes, p')"
  note x = reset_blocks_tasks_ok [OF inv r]
  show "hashes = (case get_blocks_tasks p i of None \<Rightarrow> [] | Some hs \<Rightarrow> hs)" by (rule x(3))
  show "unuseful_peer p' i \<noteq> None" using unuseful_peer_ok [OF x(1), of i] x(2) by auto
  show "disconnect_peer p' i \<noteq> None" using disconnect_peer_ok [OF x(1), of i] x(2) by auto
qed

definition sample_peers :: PeersTasks where
  "sample_peers = the (on_blocks_requested 0 (the (useful_peer peers_tasks_default 5)) 5 [11, 12])"

lemma sample_peers_ok: "peers_reachable sample_peers" "get_blocks_tasks sample_peers 5 = Some [12, 11]"
proof -
  note c = useful_peer_def peers_tasks_default_def peer_stats_new_def with_inspect_items_def BLOCKS_TO_INSPECT_def
    on_blocks_requested_def blocks_request_new_def update_stats_def get_blocks_tasks_def sample_peers_def List.insert_def
  obtain p1 where 1: "useful_peer peers_tasks_default 5 = Some p1" by (simp add: c)
  obtain p2 where 2: "on_blocks_requested 0 p1 5 [11, 12] = Some p2" using 1 by (auto simp: c)
  have "peers_reachable p2" by (rule peers_blocks_requested [OF peers_useful [OF peers_start 1] 2])
  then show "peers_reachable sample_peers" by (simp add: sample_peers_def 1 2)
  show "get_blocks_tasks sample_peers 5 = Some [12, 11]" by (simp add: c)
qed

theorem peers_tasks_consistent_witness:
  "get_blocks_tasks sample_peers 5 = Some [12, 11] \<and> 5 \<in> set (useful_peers sample_peers) \<and>
   5 \<notin> set (idle_for_blocks sample_peers) \<and> stats sample_peers 5 \<noteq> None"
proof -
  note t = peers_tasks_consistent [OF sample_peers_ok(1)]
  have 5: "5 \<in> set (useful_peers sample_peers)" "5 \<notin> set (idle_for_blocks sample_peers)"
    using t sample_peers_ok(2) by blast+
  then have "stats sample_peers 5 \<noteq> None" using t by (auto simp: useful_peers_def)
  with 5 sample_peers_ok(2) show ?thesis by simp
qed

text \<open>The failures of a block that is asked for again and again.\<close>

fun fail_block :: "nat \<Rightarrow> PeersTasks \<Rightarrow> h256 \<Rightarrow> PeersTasks" where
  "fail_block 0 p h = p"
| "fail_block (Suc n) p h = fst (on_blocks_failure (fail_block n p h) [h])"

lemma fail_block_stats:
  "blocks_stats p h = None \<Longrightarrow> n \<le> MAX_BLOCKS_FAILURES \<Longrightarrow>
   blocks_stats (fail_block n p h) h = (if n = 0 then None else Some \<lparr>bs_failures = n\<rparr>)"
  by (induction n) (auto simp: block_failed_def Let_def split: prod.splits)

text \<open>C39: a block is asked for again after each of its first six failures in a row and given up at the seventh; then, and
  whenever it is received from any peer, its count starts again from zero.\<close>

theorem block_given_up_at_seventh_failure:
  assumes "blocks_stats p h = None" "n \<le> MAX_BLOCKS_FAILURES"
  shows "snd (on_blocks_failure (fail_block n p h) [h]) =
      (if n < MAX_BLOCKS_FAILURES then ([h], []) else ([], [h])) \<and>
    blocks_stats (fail_block (Suc MAX_BLOCKS_FAILURES) p h) h = None \<and>
    (\<forall>now q i q'. on_block_received now q i h = Some q' \<longrightarrow> blocks_stats q' h = None)"
proof (intro conjI allI impI)
  have step: "on_blocks_failure q [h] = (fst (block_failed q h), if snd (block_failed q h) then ([], [h]) else ([h], []))" for q
    by (auto split: prod.splits)
  show "snd (on_blocks_failure (fail_block n p h) [h]) = (if n < MAX_BLOCKS_FAILURES then ([h], []) else ([], [h]))"
    using fail_block_stats [OF assms] assms(2) by (simp add: step block_failed_def Let_def)
  show "blocks_stats (fail_block (Suc MAX_BLOCKS_FAILURES) p h) h = None"
    using fail_block_stats [OF assms(1), of MAX_BLOCKS_FAILURES]
    by (cases "MAX_BLOCKS_FAILURES = 0") (simp_all add: step block_failed_def Let_def)
next
  fix now q i q' assume "on_block_received now q i h = Some q'"
  then show "blocks_stats q' h = None"
    by (auto simp: on_block_received_def update_stats_def Let_def bind_eq_Some_conv split: option.splits if_splits)
qed

theorem block_given_up_at_seventh_failure_witness:
  "snd (on_blocks_failure (fail_block 5 peers_tasks_default 1) [1]) = ([1], []) \<and>
   snd (on_blocks_failure (fail_block 6 peers_tasks_default 1) [1]) = ([], [1])"
  using block_given_up_at_seventh_failure [of peers_tasks_default 1 5]
    block_given_up_at_seventh_failure [of peers_tasks_default 1 6]
  by (simp add: peers_tasks_default_def MAX_BLOCKS_FAILURES_def)

text \<open>A peer that is made useful again while it still owes headers is idle for headers and busy with them at once.\<close>

lemma useful_peer_idle_with_pending_headers:
  "\<exists>p1 p2 p3. unuseful_peer peers_tasks_default i = Some p1 \<and> on_headers_requested now p1 i = Some p2 \<and>
     useful_peer p2 i = Some p3 \<and> i \<in> set (idle_for_headers p3) \<and> map_of (headers_requests p3) i \<noteq> None"
  by (simp add: unuseful_peer_def on_headers_requested_def useful_peer_def peers_tasks_default_def peer_stats_new_def
      with_inspect_items_def BLOCKS_TO_INSPECT_def)

end
