(* ===== verification/Peers.thy ===== *)
theory Peers
  imports Messages Peers_Tasks
begin

text \<open>
  The connected peers (\<^verbatim>\<open>sync/src/synchronization_peers.rs\<close>), the filter of hashes a peer knows
  (\<^verbatim>\<open>sync/src/utils/known_hash_filter.rs\<close>, \<^verbatim>\<open>connection_filter.rs\<close>) and the executor that turns tasks into messages
  (\<^verbatim>\<open>sync/src/synchronization_executor.rs\<close>). Shown: the filter keeps the most recent hashes, and a new block is
  announced exactly to the peers that want it and do not know it.

  A connection is what was sent on it: the effect of a call on a connection is the list of \<open>Sent\<close> events, in order,
  each with its peer. The peers are an association list in iteration order.
\<close>

section \<open>Hashes known by a peer\<close>

definition MAX_KNOWN_HASHES_LEN :: nat where "MAX_KNOWN_HASHES_LEN = 2048"

datatype KnownHashType = KnownBlockHash

record KnownHashFilter =
  known_hashes :: "(h256 \<times> KnownHashType) list"

definition filter_default :: KnownHashFilter where
  "filter_default = \<lparr>known_hashes = []\<rparr>"

definition known_insert :: "KnownHashFilter \<Rightarrow> h256 \<Rightarrow> KnownHashType \<Rightarrow> KnownHashFilter" where
  "known_insert f h t =
     (if map_of (known_hashes f) h = None
      then let ks = known_hashes f @ [(h, t)]
           in f\<lparr>known_hashes := (if length ks > MAX_KNOWN_HASHES_LEN then tl ks else ks)\<rparr>
      else f)"

definition known_contains :: "KnownHashFilter \<Rightarrow> h256 \<Rightarrow> KnownHashType \<Rightarrow> bool" where
  "known_contains f h t = (case map_of (known_hashes f) h of Some stored \<Rightarrow> stored = t | None \<Rightarrow> False)"

definition known_filter_block :: "KnownHashFilter \<Rightarrow> h256 \<Rightarrow> bool" where
  "known_filter_block f h = (case map_of (known_hashes f) h of Some stored \<Rightarrow> stored \<noteq> KnownBlockHash | None \<Rightarrow> True)"

record ConnectionFilter =
  known_hash_filter :: KnownHashFilter

definition connection_filter_default :: ConnectionFilter where
  "connection_filter_default = \<lparr>known_hash_filter = filter_default\<rparr>"

definition filter_hash_known_as :: "ConnectionFilter \<Rightarrow> h256 \<Rightarrow> KnownHashType \<Rightarrow> ConnectionFilter" where
  "filter_hash_known_as c h t = c\<lparr>known_hash_filter := known_insert (known_hash_filter c) h t\<rparr>"

definition filter_is_hash_known_as :: "ConnectionFilter \<Rightarrow> h256 \<Rightarrow> KnownHashType \<Rightarrow> bool" where
  "filter_is_hash_known_as c h t = known_contains (known_hash_filter c) h t"

definition connection_filter_block :: "ConnectionFilter \<Rightarrow> h256 \<Rightarrow> bool" where
  "connection_filter_block c h = known_filter_block (known_hash_filter c) h"

section \<open>Connected peers\<close>

datatype BlockAnnouncementType = SendInventory | AnnounceHeaders | DoNotAnnounce

datatype TransactionAnnouncementType = SendTransactionInventory | DoNotAnnounceTransactions

record Peer =
  peer_services :: Services
  peer_filter :: ConnectionFilter
  block_announcement :: BlockAnnouncementType
  transaction_announcement :: TransactionAnnouncementType

type_synonym PeersImpl = "(PeerIndex \<times> Peer) list"

text \<open>What reaches the connection of a peer.\<close>

datatype Sent =
    Closed
  | Ignored u32
  | SentGetData GetData
  | SentGetHeaders GetHeaders
  | SentBlock BlockMessage
  | SentNotFound NotFound
  | SentInventory Inv
  | SentHeaders Headers
  | RespondedHeaders Headers u32

type_synonym wire = "(PeerIndex \<times> Sent) list"

definition peer_new :: "Services \<Rightarrow> Peer" where
  "peer_new services =
     \<lparr>peer_services = services, peer_filter = connection_filter_default, block_announcement = SendInventory,
      transaction_announcement = SendTransactionInventory\<rparr>"

text \<open>The peers whose services include the given ones are removed, each connection being closed.\<close>

definition require_peer_services :: "PeersImpl \<Rightarrow> Services \<Rightarrow> PeersImpl \<times> wire" where
  "require_peer_services ps services =
     (let removed = map fst (filter (\<lambda>(i, p). services_includes (peer_services p) services) ps)
      in (fold AList.delete removed ps, map (\<lambda>i. (i, Closed)) removed))"

definition peers_connected :: "PeersImpl \<Rightarrow> PeerIndex \<Rightarrow> bool" where
  "peers_connected ps i \<longleftrightarrow> map_of ps i \<noteq> None"

definition peers_enumerate :: "PeersImpl \<Rightarrow> PeerIndex list" where
  "peers_enumerate ps = map fst ps"

text \<open>Inserting a peer that is already there panics.\<close>

definition peers_insert :: "PeersImpl \<Rightarrow> PeerIndex \<Rightarrow> Services \<Rightarrow> PeersImpl option" where
  "peers_insert ps i services = (if map_of ps i = None then Some (AList.update i (peer_new services) ps) else None)"

definition peers_remove :: "PeersImpl \<Rightarrow> PeerIndex \<Rightarrow> PeersImpl" where
  "peers_remove ps i = AList.delete i ps"

definition peers_misbehaving :: "PeersImpl \<Rightarrow> PeerIndex \<Rightarrow> PeersImpl \<times> wire" where
  "peers_misbehaving ps i = (if map_of ps i = None then (ps, []) else (AList.delete i ps, [(i, Closed)]))"

definition peers_dos :: "PeersImpl \<Rightarrow> PeerIndex \<Rightarrow> PeersImpl \<times> wire" where
  "peers_dos ps i = (if map_of ps i = None then (ps, []) else (AList.delete i ps, [(i, Closed)]))"

definition peers_filter_block :: "PeersImpl \<Rightarrow> PeerIndex \<Rightarrow> IndexedBlock \<Rightarrow> BlockAnnouncementType" where
  "peers_filter_block ps i b =
     (case map_of ps i of
        Some p \<Rightarrow> if connection_filter_block (peer_filter p) (block_hash_of b) then block_announcement p else DoNotAnnounce
      | None \<Rightarrow> DoNotAnnounce)"

definition update_peer :: "(Peer \<Rightarrow> Peer) \<Rightarrow> PeersImpl \<Rightarrow> PeerIndex \<Rightarrow> PeersImpl" where
  "update_peer f ps i = (case map_of ps i of Some p \<Rightarrow> AList.update i (f p) ps | None \<Rightarrow> ps)"

definition peers_hash_known_as :: "PeersImpl \<Rightarrow> PeerIndex \<Rightarrow> h256 \<Rightarrow> KnownHashType \<Rightarrow> PeersImpl" where
  "peers_hash_known_as ps i h t = update_peer (\<lambda>p. p\<lparr>peer_filter := filter_hash_known_as (peer_filter p) h t\<rparr>) ps i"

definition peers_is_hash_known_as :: "PeersImpl \<Rightarrow> PeerIndex \<Rightarrow> h256 \<Rightarrow> KnownHashType \<Rightarrow> bool" where
  "peers_is_hash_known_as ps i h t =
     (case map_of ps i of Some p \<Rightarrow> filter_is_hash_known_as (peer_filter p) h t | None \<Rightarrow> False)"

definition set_block_announcement_type :: "PeersImpl \<Rightarrow> PeerIndex \<Rightarrow> BlockAnnouncementType \<Rightarrow> PeersImpl" where
  "set_block_announcement_type ps i t = update_peer (\<lambda>p. p\<lparr>block_announcement := t\<rparr>) ps i"

definition set_transaction_announcement_type :: "PeersImpl \<Rightarrow> PeerIndex \<Rightarrow> TransactionAnnouncementType \<Rightarrow> PeersImpl" where
  "set_transaction_announcement_type ps i t = update_peer (\<lambda>p. p\<lparr>transaction_announcement := t\<rparr>) ps i"

section \<open>Tasks\<close>

datatype Task =
    IgnoreTask PeerIndex u32
  | GetDataTask PeerIndex GetData
  | GetHeadersTask PeerIndex GetHeaders
  | BlockTask PeerIndex IndexedBlock
  | NotFoundTask PeerIndex NotFound
  | InventoryTask PeerIndex Inv
  | HeadersTask PeerIndex Headers "u32 option"
  | RelayNewBlock IndexedBlock

definition send :: "PeersImpl \<Rightarrow> PeerIndex \<Rightarrow> Sent \<Rightarrow> wire" where
  "send ps i s = (if peers_connected ps i then [(i, s)] else [])"

definition execute_ignore :: "PeersImpl \<Rightarrow> PeerIndex \<Rightarrow> u32 \<Rightarrow> wire" where
  "execute_ignore ps i r = send ps i (Ignored r)"

definition execute_getdata :: "PeersImpl \<Rightarrow> PeerIndex \<Rightarrow> GetData \<Rightarrow> wire" where
  "execute_getdata ps i m = send ps i (SentGetData m)"

definition execute_getheaders :: "PeersImpl \<Rightarrow> PeerIndex \<Rightarrow> GetHeaders \<Rightarrow> wire" where
  "execute_getheaders ps i m = send ps i (SentGetHeaders m)"

definition execute_notfound :: "PeersImpl \<Rightarrow> PeerIndex \<Rightarrow> NotFound \<Rightarrow> wire" where
  "execute_notfound ps i m = send ps i (SentNotFound m)"

definition execute_inventory :: "PeersImpl \<Rightarrow> PeerIndex \<Rightarrow> Inv \<Rightarrow> wire" where
  "execute_inventory ps i m = send ps i (SentInventory m)"

definition execute_headers :: "PeersImpl \<Rightarrow> PeerIndex \<Rightarrow> Headers \<Rightarrow> u32 option \<Rightarrow> wire" where
  "execute_headers ps i hs request_id =
     send ps i (case request_id of Some r \<Rightarrow> RespondedHeaders hs r | None \<Rightarrow> SentHeaders hs)"

definition announce_block :: "PeersImpl \<Rightarrow> IndexedBlock \<Rightarrow> PeerIndex \<Rightarrow> wire" where
  "announce_block ps b i =
     (case peers_filter_block ps i b of
        SendInventory \<Rightarrow> execute_inventory ps i \<lparr>inv_inventory = [inventory_block (block_hash_of b)]\<rparr>
      | AnnounceHeaders \<Rightarrow> execute_headers ps i \<lparr>headers_list = [raw (header b)]\<rparr> None
      | DoNotAnnounce \<Rightarrow> [])"

definition execute_relay_block :: "PeersImpl \<Rightarrow> IndexedBlock \<Rightarrow> wire" where
  "execute_relay_block ps b = concat (map (announce_block ps b) (peers_enumerate ps))"

definition execute_block :: "PeersImpl \<Rightarrow> PeerIndex \<Rightarrow> IndexedBlock \<Rightarrow> PeersImpl \<times> wire" where
  "execute_block ps i b =
     (if peers_connected ps i
      then (peers_hash_known_as ps i (block_hash_of b) KnownBlockHash, [(i, SentBlock \<lparr>bm_block = to_raw_block b\<rparr>)])
      else (ps, []))"

fun execute_task :: "PeersImpl \<Rightarrow> Task \<Rightarrow> PeersImpl \<times> wire" where
  "execute_task ps (IgnoreTask i r) = (ps, execute_ignore ps i r)"
| "execute_task ps (GetDataTask i m) = (ps, execute_getdata ps i m)"
| "execute_task ps (GetHeadersTask i m) = (ps, execute_getheaders ps i m)"
| "execute_task ps (BlockTask i b) = execute_block ps i b"
| "execute_task ps (NotFoundTask i m) = (ps, execute_notfound ps i m)"
| "execute_task ps (InventoryTask i m) = (ps, execute_inventory ps i m)"
| "execute_task ps (HeadersTask i m r) = (ps, execute_headers ps i m r)"
| "execute_task ps (RelayNewBlock b) = (ps, execute_relay_block ps b)"

section \<open>The known hashes\<close>

definition filter_inv :: "KnownHashFilter \<Rightarrow> bool" where
  "filter_inv f \<longleftrightarrow> distinct (map fst (known_hashes f)) \<and> length (known_hashes f) \<le> MAX_KNOWN_HASHES_LEN"

lemma filter_block_contains: "known_filter_block f h \<longleftrightarrow> \<not> known_contains f h KnownBlockHash"
  by (simp add: known_filter_block_def known_contains_def split: option.splits)

lemma known_contains_keys: "known_contains f h t \<longleftrightarrow> h \<in> fst ` set (known_hashes f)"
proof -
  have "t' = t" for t' by (cases t'; cases t) simp
  then show ?thesis
    using map_of_eq_None_iff [of "known_hashes f" h]
    by (auto simp: known_contains_def split: option.splits)
qed

lemma known_insert_keys:
  assumes "filter_inv f"
  shows "filter_inv (known_insert f h t)"
    "map fst (known_hashes (known_insert f h t)) =
       (let ks = map fst (known_hashes f) in
        if h \<in> set ks then ks else drop (length ks + 1 - MAX_KNOWN_HASHES_LEN) (ks @ [h]))"
proof -
  have max: "0 < MAX_KNOWN_HASHES_LEN" by (simp add: MAX_KNOWN_HASHES_LEN_def)
  have some: "map_of (known_hashes f) h = None \<longleftrightarrow> h \<notin> fst ` set (known_hashes f)" by (rule map_of_eq_None_iff)
  have "length (known_hashes f) + 1 > MAX_KNOWN_HASHES_LEN \<Longrightarrow> length (known_hashes f) + 1 - MAX_KNOWN_HASHES_LEN = 1"
    using assms unfolding filter_inv_def by linarith
  with some show keys: "map fst (known_hashes (known_insert f h t)) =
       (let ks = map fst (known_hashes f) in
        if h \<in> set ks then ks else drop (length ks + 1 - MAX_KNOWN_HASHES_LEN) (ks @ [h]))"
    by (auto simp: known_insert_def Let_def map_tl drop_Suc simp del: drop_append)
  have "distinct (map fst (known_hashes (known_insert f h t)))"
    unfolding keys using assms by (auto simp: filter_inv_def Let_def simp del: drop_append)
  moreover have "length (map fst (known_hashes (known_insert f h t))) \<le> MAX_KNOWN_HASHES_LEN"
    unfolding keys using assms max by (auto simp: filter_inv_def Let_def)
  ultimately show "filter_inv (known_insert f h t)" by (simp add: filter_inv_def)
qed

lemma known_insert_contains:
  assumes "filter_inv f"
  shows "known_contains (known_insert f h t) h t"
proof -
  let ?ks = "map fst (known_hashes f)"
  have "length ?ks + 1 - MAX_KNOWN_HASHES_LEN \<le> length ?ks" by (simp add: MAX_KNOWN_HASHES_LEN_def)
  then have "h \<in> set (drop (length ?ks + 1 - MAX_KNOWN_HASHES_LEN) (?ks @ [h]))" by simp
  then have "h \<in> set (map fst (known_hashes (known_insert f h t)))"
    unfolding known_insert_keys(2) [OF assms] Let_def by (simp split: if_splits)
  then show ?thesis by (simp add: known_contains_keys)
qed

text \<open>The hashes of a run of insertions.\<close>

definition known_after :: "h256 list \<Rightarrow> KnownHashFilter" where
  "known_after hs = fold (\<lambda>h f. known_insert f h KnownBlockHash) hs filter_default"

lemma known_after_snoc: "known_after (hs @ [h]) = known_insert (known_after hs) h KnownBlockHash"
  by (simp add: known_after_def)

lemma known_after_inv: "filter_inv (known_after hs)"
proof (induction hs rule: rev_induct)
  case (snoc h hs)
  then show ?case by (simp add: known_after_snoc known_insert_keys(1))
qed (simp add: known_after_def filter_default_def filter_inv_def)

lemma known_after_subset: "set (map fst (known_hashes (known_after hs))) \<subseteq> set hs"
proof (induction hs rule: rev_induct)
  case (snoc h hs)
  have "set (drop n (map fst (known_hashes (known_after hs)) @ [h])) \<subseteq> insert h (set hs)" for n
    by (rule subset_trans [OF set_drop_subset]) (use snoc in auto)
  then show ?case
    unfolding known_after_snoc known_insert_keys(2) [OF known_after_inv] Let_def
    using snoc by (simp only: set_append set_simps Un_insert_right Un_empty_right split: if_split) blast
qed (simp add: known_after_def filter_default_def)

lemma known_after_all:
  "card (set hs) \<le> MAX_KNOWN_HASHES_LEN \<Longrightarrow> set (map fst (known_hashes (known_after hs))) = set hs"
proof (induction hs rule: rev_induct)
  case (snoc h hs)
  let ?ks = "map fst (known_hashes (known_after hs))"
  have "card (set hs) \<le> card (set (hs @ [h]))" by (intro card_mono) auto
  with snoc have ks: "set ?ks = set hs" by linarith
  have d: "distinct ?ks" using known_after_inv by (simp add: filter_inv_def)
  show ?case
  proof (cases "h \<in> set ?ks")
    case True
    then show ?thesis unfolding known_after_snoc known_insert_keys(2) [OF known_after_inv] Let_def using ks by auto
  next
    case False
    have "length ?ks = card (set hs)" using distinct_card [OF d] ks by simp
    moreover have "card (set (hs @ [h])) = Suc (card (set hs))" using False ks by simp
    ultimately have "length ?ks + 1 - MAX_KNOWN_HASHES_LEN = 0" using snoc.prems by simp
    then show ?thesis unfolding known_after_snoc known_insert_keys(2) [OF known_after_inv] Let_def using False ks by simp
  qed
qed (simp add: known_after_def filter_default_def)

section \<open>Announcements\<close>

lemma map_of_update_peer: "map_of (update_peer f ps i) j = (if j = i then map_option f (map_of ps i) else map_of ps j)"
  by (auto simp: update_peer_def split: option.splits)

lemma fst_update_peer: "map fst (update_peer f ps i) = map fst ps"
proof (cases "map_of ps i")
  case (Some p)
  then have "i \<in> fst ` set ps" by (metis domI dom_map_of_conv_image_fst)
  then show ?thesis by (simp add: update_peer_def Some update_keys)
qed (simp add: update_peer_def)

lemma announce_block_iff:
  "(j, m) \<in> set (announce_block ps b i) \<longleftrightarrow> j = i \<and>
     (peers_filter_block ps i b = SendInventory \<and> m = SentInventory \<lparr>inv_inventory = [inventory_block (block_hash_of b)]\<rparr> \<or>
      peers_filter_block ps i b = AnnounceHeaders \<and> m = SentHeaders \<lparr>headers_list = [raw (header b)]\<rparr>)"
  by (auto simp: announce_block_def execute_inventory_def send_def execute_headers_def peers_connected_def peers_filter_block_def
      split: BlockAnnouncementType.splits option.splits)

lemma announce_block_fst: "map fst (announce_block ps b i) = (if peers_filter_block ps i b = DoNotAnnounce then [] else [i])"
  by (auto simp: announce_block_def execute_inventory_def send_def execute_headers_def peers_connected_def peers_filter_block_def
      split: BlockAnnouncementType.splits option.splits)

lemma relay_fst: "map fst (execute_relay_block ps b) = filter (\<lambda>i. peers_filter_block ps i b \<noteq> DoNotAnnounce) (map fst ps)"
proof -
  have "map fst (concat (map (announce_block ps b) is)) = filter (\<lambda>i. peers_filter_block ps i b \<noteq> DoNotAnnounce) is" for "is"
    by (induction "is") (simp_all add: announce_block_fst)
  then show ?thesis unfolding execute_relay_block_def peers_enumerate_def .
qed

section \<open>Properties\<close>

text \<open>C38: the filter of a connection holds at most 2048 hashes, all of them reported before; it holds the one reported
  last, and all reported hashes as long as there were no more than 2048 different ones. A block passes the filter
  exactly when its hash is not held.\<close>

theorem known_filter_bounded:
  "length (known_hashes (known_after hs)) \<le> MAX_KNOWN_HASHES_LEN \<and> distinct (map fst (known_hashes (known_after hs))) \<and>
   (\<forall>h. known_filter_block (known_after hs) h \<longleftrightarrow> h \<notin> fst ` set (known_hashes (known_after hs))) \<and>
   fst ` set (known_hashes (known_after hs)) \<subseteq> set hs \<and> \<not> known_filter_block (known_after (hs @ [h])) h \<and>
   (card (set hs) \<le> MAX_KNOWN_HASHES_LEN \<longrightarrow> (\<forall>h \<in> set hs. \<not> known_filter_block (known_after hs) h))"
proof (intro conjI allI impI ballI)
  show "length (known_hashes (known_after hs)) \<le> MAX_KNOWN_HASHES_LEN" "distinct (map fst (known_hashes (known_after hs)))"
    using known_after_inv [of hs] by (simp_all add: filter_inv_def)
  show "known_filter_block (known_after hs) h \<longleftrightarrow> h \<notin> fst ` set (known_hashes (known_after hs))" for h
    by (simp add: filter_block_contains known_contains_keys)
  show "fst ` set (known_hashes (known_after hs)) \<subseteq> set hs" using known_after_subset [of hs] by simp
  show "\<not> known_filter_block (known_after (hs @ [h])) h"
    by (simp add: filter_block_contains known_after_snoc known_insert_contains [OF known_after_inv])
  fix h assume "card (set hs) \<le> MAX_KNOWN_HASHES_LEN" "h \<in> set hs"
  with known_after_all [of hs] show "\<not> known_filter_block (known_after hs) h"
    by (simp add: filter_block_contains known_contains_keys)
qed

theorem known_filter_bounded_witness:
  "\<not> known_filter_block (known_after [1, 2, 3]) 1 \<and> known_filter_block (known_after [1, 2, 3]) 4"
  using known_filter_bounded [of "[1, 2, 3]" 4] by (auto simp: MAX_KNOWN_HASHES_LEN_def)

text \<open>C36: relaying a block tells every connected peer at most once, in the form the peer asked for, and exactly the peers
  that want announcements and do not know the block; a peer the block was sent to is not told again.\<close>

theorem relay_announces_unknown:
  assumes "distinct (map fst ps)"
  shows "distinct (map fst (execute_relay_block ps b)) \<and>
    (\<forall>i m. (i, m) \<in> set (execute_relay_block ps b) \<longleftrightarrow>
       (\<exists>p. map_of ps i = Some p \<and> connection_filter_block (peer_filter p) (block_hash_of b) \<and>
          (block_announcement p = SendInventory \<and> m = SentInventory \<lparr>inv_inventory = [inventory_block (block_hash_of b)]\<rparr> \<or>
           block_announcement p = AnnounceHeaders \<and> m = SentHeaders \<lparr>headers_list = [raw (header b)]\<rparr>))) \<and>
    (\<forall>i ps' w. (\<forall>p. map_of ps i = Some p \<longrightarrow> filter_inv (known_hash_filter (peer_filter p))) \<longrightarrow>
       execute_task ps (BlockTask i b) = (ps', w) \<longrightarrow> i \<notin> fst ` set (execute_relay_block ps' b))"
proof (intro conjI allI impI)
  show "distinct (map fst (execute_relay_block ps b))" using assms by (simp add: relay_fst)
  have "set (execute_relay_block ps b) = (\<Union>i \<in> fst ` set ps. set (announce_block ps b i))"
    by (simp add: execute_relay_block_def peers_enumerate_def)
  then have "(i, m) \<in> set (execute_relay_block ps b) \<longleftrightarrow> i \<in> fst ` set ps \<and> (i, m) \<in> set (announce_block ps b i)" for i m
    by (auto simp: announce_block_iff)
  then show "(i, m) \<in> set (execute_relay_block ps b) \<longleftrightarrow>
       (\<exists>p. map_of ps i = Some p \<and> connection_filter_block (peer_filter p) (block_hash_of b) \<and>
          (block_announcement p = SendInventory \<and> m = SentInventory \<lparr>inv_inventory = [inventory_block (block_hash_of b)]\<rparr> \<or>
           block_announcement p = AnnounceHeaders \<and> m = SentHeaders \<lparr>headers_list = [raw (header b)]\<rparr>))" for i m
    using map_of_eq_None_iff [of ps i]
    by (cases "map_of ps i") (auto simp: announce_block_iff peers_filter_block_def split: if_splits)
next
  fix i ps' w
  assume inv: "\<forall>p. map_of ps i = Some p \<longrightarrow> filter_inv (known_hash_filter (peer_filter p))"
    and "execute_task ps (BlockTask i b) = (ps', w)"
  then have ps': "ps' = (if peers_connected ps i then peers_hash_known_as ps i (block_hash_of b) KnownBlockHash else ps)"
    by (simp add: execute_block_def split: if_splits)
  have "peers_filter_block ps' i b = DoNotAnnounce"
  proof (cases "map_of ps i")
    case None
    then show ?thesis by (simp add: ps' peers_connected_def peers_filter_block_def)
  next
    case (Some p)
    with inv have "known_contains (known_insert (known_hash_filter (peer_filter p)) (block_hash_of b) KnownBlockHash) (block_hash_of b) KnownBlockHash"
      by (intro known_insert_contains) simp
    with Some show ?thesis
      by (simp add: ps' peers_connected_def peers_filter_block_def peers_hash_known_as_def map_of_update_peer
          filter_hash_known_as_def connection_filter_block_def filter_block_contains)
  qed
  then have "i \<notin> set (map fst (execute_relay_block ps' b))" by (simp add: relay_fst)
  then show "i \<notin> fst ` set (execute_relay_block ps' b)" by simp
qed

definition sample_connected :: PeersImpl where
  "sample_connected = [(1, peer_new 0), (2, (peer_new 0)\<lparr>block_announcement := AnnounceHeaders\<rparr>)]"

definition sample_indexed :: IndexedBlock where
  "sample_indexed = indexed_block_from_raw reference_externs sample_block"

theorem relay_announces_unknown_witness:
  "(2, SentHeaders \<lparr>headers_list = [sample_header]\<rparr>) \<in> set (execute_relay_block sample_connected sample_indexed) \<and>
   1 \<notin> fst ` set (execute_relay_block (fst (execute_task sample_connected (BlockTask 1 sample_indexed))) sample_indexed)"
proof -
  have d: "distinct (map fst sample_connected)" by (simp add: sample_connected_def)
  have inv: "\<forall>p. map_of sample_connected 1 = Some p \<longrightarrow> filter_inv (known_hash_filter (peer_filter p))"
    by (simp add: sample_connected_def peer_new_def connection_filter_default_def filter_default_def filter_inv_def)
  have "\<exists>p. map_of sample_connected 2 = Some p \<and> connection_filter_block (peer_filter p) (block_hash_of sample_indexed) \<and>
      block_announcement p = AnnounceHeaders"
    by (simp add: sample_connected_def peer_new_def connection_filter_default_def filter_default_def
        connection_filter_block_def known_filter_block_def)
  moreover have "raw (header sample_indexed) = sample_header"
    by (simp add: sample_indexed_def indexed_block_from_raw_def indexed_header_from_raw_def sample_block_def)
  ultimately show ?thesis
    using relay_announces_unknown [OF d, of sample_indexed] inv by (metis prod.collapse)
qed

text \<open>C37: requiring services disconnects the peers that offer them and keeps the peers that do not, the opposite of what
  the log message and the name say.\<close>

theorem require_peer_services_inverted:
  assumes "distinct (map fst ps)" "require_peer_services ps services = (ps', w)"
  shows "map_of ps' i = (case map_of ps i of
      Some p \<Rightarrow> if services_includes (peer_services p) services then None else Some p | None \<Rightarrow> None) \<and>
    ((i, Closed) \<in> set w \<longleftrightarrow> (\<exists>p. map_of ps i = Some p \<and> services_includes (peer_services p) services))"
proof -
  let ?r = "map fst (filter (\<lambda>(i, p). services_includes (peer_services p) services) ps)"
  have ps': "ps' = fold AList.delete ?r ps" "w = map (\<lambda>i. (i, Closed)) ?r"
    using assms(2) by (simp_all add: require_peer_services_def Let_def)
  have del: "map_of (fold AList.delete ks qs) i = (if i \<in> set ks then None else map_of qs i)" for ks and qs :: PeersImpl
    by (induction ks arbitrary: qs) auto
  have r: "i \<in> set ?r \<longleftrightarrow> (\<exists>p. map_of ps i = Some p \<and> services_includes (peer_services p) services)"
    using map_of_is_SomeI [OF assms(1)] by (force dest: map_of_SomeD)
  show ?thesis
    unfolding ps' del using r by (cases "map_of ps i") auto
qed

theorem require_peer_services_inverted_witness:
  "fst (require_peer_services [(1, peer_new 1), (2, peer_new 0)] 1) = [(2, peer_new 0)] \<and>
   map_of (fst (require_peer_services [(1, peer_new 1), (2, peer_new 0)] 1)) 1 = None"
proof -
  have "distinct (map fst [(1 :: nat, peer_new 1), (2, peer_new 0)])" by simp
  from require_peer_services_inverted [OF this prod.collapse [symmetric], of 1 1]
  show ?thesis by (simp add: require_peer_services_def services_includes_def peer_new_def)
qed

end
