(* ===== verification/Orphan_Pool.thy ===== *)
theory Orphan_Pool
  imports Block_Types "HOL-Library.Monad_Syntax"
begin

text \<open>
  The pool of blocks whose parent is not known yet (\<^verbatim>\<open>sync/src/utils/orphan_blocks_pool.rs\<close>): blocks grouped by
  parent hash, and the insertion-ordered map of the blocks nobody asked for, with their time of arrival.
  Shown: the invariant every operation keeps, and that removing the blocks that depend on a parent terminates and
  returns exactly the descendants of that parent.

  Times are real numbers. The hashes of a \<^verbatim>\<open>HashSet\<close> argument come as a list in iteration order.
\<close>

section \<open>OrphanBlocksPool\<close>

record OrphanBlocksPool =
  orphaned_blocks :: "(h256 \<times> (h256 \<times> IndexedBlock) list) list"
  unknown_blocks :: "(h256 \<times> real) list"

definition pool_new :: OrphanBlocksPool where
  "pool_new = \<lparr>orphaned_blocks = [], unknown_blocks = []\<rparr>"

definition pool_len :: "OrphanBlocksPool \<Rightarrow> nat" where
  "pool_len pool = length (orphaned_blocks pool)"

definition contains_unknown_block :: "OrphanBlocksPool \<Rightarrow> h256 \<Rightarrow> bool" where
  "contains_unknown_block pool h \<longleftrightarrow> map_of (unknown_blocks pool) h \<noteq> None"

definition insert_orphaned_block :: "OrphanBlocksPool \<Rightarrow> IndexedBlock \<Rightarrow> OrphanBlocksPool" where
  "insert_orphaned_block pool b =
     (let p = previous_header_hash (raw (header b));
          siblings = (case map_of (orphaned_blocks pool) p of Some m \<Rightarrow> m | None \<Rightarrow> [])
      in pool\<lparr>orphaned_blocks :=
            AList.update p (AList.update (block_hash_of b) b siblings) (orphaned_blocks pool)\<rparr>)"

definition insert_unknown_block :: "real \<Rightarrow> OrphanBlocksPool \<Rightarrow> IndexedBlock \<Rightarrow> OrphanBlocksPool option" where
  "insert_unknown_block now pool b =
     (if map_of (unknown_blocks pool) (block_hash_of b) \<noteq> None then None
      else Some (insert_orphaned_block
             (pool\<lparr>unknown_blocks := unknown_blocks pool @ [(block_hash_of b, now)]\<rparr>) b))"

lemma length_delete_less:
  "map_of xs k = Some v \<Longrightarrow> length (AList.delete k xs) < length xs"
proof (induction xs)
  case (Cons x xs)
  have "length (AList.delete k xs) \<le> length xs" by (simp add: AList.delete_eq)
  with Cons show ?case by (auto split: if_splits)
qed simp

function remove_for_parent_loop ::
  "OrphanBlocksPool \<Rightarrow> h256 list \<Rightarrow> IndexedBlock list \<Rightarrow> IndexedBlock list \<times> OrphanBlocksPool" where
  "remove_for_parent_loop pool [] removed = (removed, pool)"
| "remove_for_parent_loop pool (p # q) removed =
     (case map_of (orphaned_blocks pool) p of
        None \<Rightarrow> remove_for_parent_loop pool q removed
      | Some orphaned \<Rightarrow>
          remove_for_parent_loop
            (pool\<lparr>orphaned_blocks := AList.delete p (orphaned_blocks pool),
                  unknown_blocks := fold AList.delete (map fst orphaned) (unknown_blocks pool)\<rparr>)
            (q @ map fst orphaned) (removed @ map snd orphaned))"
  by pat_completeness auto
termination
  by (relation "measures [\<lambda>(pool, q, removed). length (orphaned_blocks pool), \<lambda>(pool, q, removed). length q]")
    (auto simp: length_delete_less)

definition remove_blocks_for_parent :: "OrphanBlocksPool \<Rightarrow> h256 \<Rightarrow> IndexedBlock list \<times> OrphanBlocksPool" where
  "remove_blocks_for_parent pool h = remove_for_parent_loop pool [h] []"

definition remove_listed :: "OrphanBlocksPool \<Rightarrow> h256 list \<Rightarrow> h256 list \<times> OrphanBlocksPool" where
  "remove_listed pool hashes =
     (let removed = concat (map (\<lambda>(p, m). filter (\<lambda>h. map_of m h \<noteq> None) hashes) (orphaned_blocks pool));
          kept = filter (\<lambda>(p, m). m \<noteq> [])
                   (map (\<lambda>(p, m). (p, fold AList.delete hashes m)) (orphaned_blocks pool))
      in (removed, pool\<lparr>orphaned_blocks := kept,
                       unknown_blocks := fold AList.delete removed (unknown_blocks pool)\<rparr>))"

fun remove_children :: "OrphanBlocksPool \<Rightarrow> h256 list \<Rightarrow> h256 list \<Rightarrow> h256 list \<times> OrphanBlocksPool" where
  "remove_children pool [] removed = (removed, pool)"
| "remove_children pool (h # hs) removed =
     (let (blocks, pool) = remove_blocks_for_parent pool h
      in remove_children pool hs (removed @ map block_hash_of blocks))"

definition remove_blocks :: "OrphanBlocksPool \<Rightarrow> h256 list \<Rightarrow> h256 list \<times> OrphanBlocksPool" where
  "remove_blocks pool hashes =
     (let (removed, pool) = remove_listed pool hashes in remove_children pool hashes removed)"

definition remove_known_blocks :: "OrphanBlocksPool \<Rightarrow> h256 list \<times> OrphanBlocksPool" where
  "remove_known_blocks pool =
     (let orphans_to_remove =
            remdups (filter (\<lambda>h. map_of (unknown_blocks pool) h = None)
              (concat (map (\<lambda>(p, m). map fst m) (orphaned_blocks pool))))
      in (orphans_to_remove, snd (remove_blocks pool orphans_to_remove)))"

section \<open>The blocks of a pool\<close>

definition pool_blocks :: "OrphanBlocksPool \<Rightarrow> (h256 \<times> IndexedBlock) set" where
  "pool_blocks pool = {(p, b). \<exists>m. map_of (orphaned_blocks pool) p = Some m \<and> b \<in> snd ` set m}"

definition siblings_ok :: "h256 \<Rightarrow> (h256 \<times> IndexedBlock) list \<Rightarrow> bool" where
  "siblings_ok p m \<longleftrightarrow> m \<noteq> [] \<and> distinct (map fst m) \<and>
     (\<forall>k b. (k, b) \<in> set m \<longrightarrow> k = block_hash_of b \<and> p = previous_header_hash (raw (header b)))"

definition pool_inv :: "OrphanBlocksPool \<Rightarrow> bool" where
  "pool_inv pool \<longleftrightarrow>
     distinct (map fst (orphaned_blocks pool)) \<and> distinct (map fst (unknown_blocks pool)) \<and>
     (\<forall>p m. map_of (orphaned_blocks pool) p = Some m \<longrightarrow> siblings_ok p m) \<and>
     (\<forall>k. contains_unknown_block pool k \<longrightarrow> k \<in> block_hash_of ` snd ` pool_blocks pool)"

text \<open>Reachability along parent links within a pool.\<close>

inductive descends :: "(h256 \<times> IndexedBlock) set \<Rightarrow> h256 \<Rightarrow> IndexedBlock \<Rightarrow> bool" for B where
  child: "(h, b) \<in> B \<Longrightarrow> descends B h b"
| below: "descends B h b \<Longrightarrow> (block_hash_of b, c) \<in> B \<Longrightarrow> descends B h c"

lemma descends_trans: "descends B (block_hash_of b) c \<Longrightarrow> descends B h b \<Longrightarrow> descends B h c"
  by (induction "block_hash_of b" c rule: descends.induct) (auto intro: descends.intros)

lemma descends_mono: "descends B h b \<Longrightarrow> B \<subseteq> C \<Longrightarrow> descends C h b"
  by (induction rule: descends.induct) (auto intro: descends.intros)

lemma descends_block: "descends B h b \<Longrightarrow> \<exists>p. (p, b) \<in> B"
  by (cases rule: descends.cases) auto

text \<open>One step of the search: what descends from \<open>p\<close> or from the queue either is a child of \<open>p\<close> or descends, without
  the children of \<open>p\<close>, from the queue extended by them.\<close>

lemma descends_step:
  assumes C: "C = {b. (p, b) \<in> B}"
  shows "{b. \<exists>h \<in> insert p Q. descends B h b} =
    C \<union> {b. \<exists>h \<in> Q \<union> block_hash_of ` C. descends {(r, b) \<in> B. r \<noteq> p} h b}" (is "?L = C \<union> ?R")
proof
  let ?B = "{(r, b) \<in> B. r \<noteq> p}"
  have split: "b \<in> C \<or> (\<exists>h' \<in> Q \<union> block_hash_of ` C. descends ?B h' b)"
    if "descends B h b" "h \<in> insert p Q" for h b
    using that
  proof (induction rule: descends.induct)
    case (child h b)
    then show ?case using C by (cases "h = p") (auto intro: descends.child)
  next
    case (below h b c)
    show ?case
    proof (cases "block_hash_of b = p")
      case False
      with below.hyps(2) have "(block_hash_of b, c) \<in> ?B" by simp
      then show ?thesis using below.IH [OF below.prems] by (blast intro: descends.intros)
    qed (use below.hyps(2) C in simp)
  qed
  then show "?L \<subseteq> C \<union> ?R" by blast
  have mono: "descends ?B h b \<Longrightarrow> descends B h b" for h b by (rule descends_mono) auto
  have "descends B p b" if "b \<in> C" for b using that C by (auto intro: descends.child)
  then show "C \<union> ?R \<subseteq> ?L" using mono descends_trans by blast
qed

lemma pool_blocks_iff:
  "(p, b) \<in> pool_blocks pool \<longleftrightarrow> (\<exists>m. map_of (orphaned_blocks pool) p = Some m \<and> b \<in> snd ` set m)"
  by (simp add: pool_blocks_def)

lemma pool_blocks_cong: "orphaned_blocks a = orphaned_blocks b \<Longrightarrow> pool_blocks a = pool_blocks b"
  by (simp add: pool_blocks_def)

lemma pool_blocks_delete:
  "pool_blocks (pool\<lparr>orphaned_blocks := AList.delete p (orphaned_blocks pool), unknown_blocks := u\<rparr>) =
   {(r, b) \<in> pool_blocks pool. r \<noteq> p}"
  by (simp add: set_eq_iff pool_blocks_iff)

lemma pool_blocks_parent:
  assumes "pool_inv pool" "(p, b) \<in> pool_blocks pool"
  shows "p = previous_header_hash (raw (header b))"
  using assms by (fastforce simp: pool_inv_def siblings_ok_def pool_blocks_iff)

lemma map_of_fold_delete: "map_of (fold AList.delete ks xs) = map_of xs |` (- set ks)"
  by (induction ks arbitrary: xs) (auto simp: fun_eq_iff restrict_map_def)

lemma distinct_fold_delete: "distinct (map fst xs) \<Longrightarrow> distinct (map fst (fold AList.delete ks xs))"
  by (induction ks arbitrary: xs) (auto simp: distinct_delete)

lemma contains_unknown_restrict:
  "contains_unknown_block (pool\<lparr>orphaned_blocks := os, unknown_blocks := fold AList.delete ks u\<rparr>) k \<longleftrightarrow>
   map_of u k \<noteq> None \<and> k \<notin> set ks"
  by (simp add: contains_unknown_block_def map_of_fold_delete restrict_map_def)

lemma pool_inv_siblings: "pool_inv pool \<Longrightarrow> map_of (orphaned_blocks pool) p = Some m \<Longrightarrow> siblings_ok p m"
  by (simp add: pool_inv_def)

lemma siblings_keys:
  "siblings_ok p m \<Longrightarrow> fst ` set m = block_hash_of ` snd ` set m"
  by (force simp: siblings_ok_def image_iff)

lemma pool_hashes:
  assumes "pool_inv pool"
  shows "(\<exists>p m. map_of (orphaned_blocks pool) p = Some m \<and> h \<in> fst ` set m) \<longleftrightarrow>
    h \<in> block_hash_of ` snd ` pool_blocks pool"
proof -
  have "h \<in> block_hash_of ` snd ` pool_blocks pool \<longleftrightarrow>
      (\<exists>p m. map_of (orphaned_blocks pool) p = Some m \<and> h \<in> block_hash_of ` snd ` set m)"
    unfolding pool_blocks_def by (simp add: image_def) blast
  then show ?thesis using siblings_keys [OF pool_inv_siblings [OF assms]] by metis
qed

lemma pool_inv_take:
  assumes inv: "pool_inv pool" and m: "map_of (orphaned_blocks pool) p = Some m"
  shows "pool_inv (pool\<lparr>orphaned_blocks := AList.delete p (orphaned_blocks pool),
                        unknown_blocks := fold AList.delete (map fst m) (unknown_blocks pool)\<rparr>)"
proof -
  have keys: "fst ` set m = block_hash_of ` snd ` set m"
    by (rule siblings_keys [OF pool_inv_siblings [OF inv m]])
  have "k \<in> block_hash_of ` snd ` {(r, b) \<in> pool_blocks pool. r \<noteq> p}"
    if k: "map_of (unknown_blocks pool) k \<noteq> None" "k \<notin> fst ` set m" for k
  proof -
    from k(1) inv obtain r b where b: "(r, b) \<in> pool_blocks pool" "k = block_hash_of b"
      by (force simp: pool_inv_def contains_unknown_block_def)
    have "b \<notin> snd ` set m" using b(2) k(2) keys by blast
    then have "r \<noteq> p" using b(1) m by (auto simp: pool_blocks_iff simp del: image_iff)
    with b show ?thesis by force
  qed
  with inv show ?thesis
    by (auto simp: pool_inv_def pool_blocks_delete contains_unknown_restrict distinct_delete distinct_fold_delete
        simp del: fun_upd_apply image_eqI split: if_splits simp add: fun_upd_def)
qed

lemma remove_for_parent_loop_ok:
  assumes "pool_inv pool" "remove_for_parent_loop pool q removed = (removed', pool')"
  shows "pool_inv pool' \<and> (\<exists>r. removed' = removed @ r \<and>
      set r = {b. \<exists>h \<in> set q. descends (pool_blocks pool) h b}) \<and>
    pool_blocks pool' = {(p, b) \<in> pool_blocks pool. \<not> (\<exists>h \<in> set q. descends (pool_blocks pool) h b)} \<and>
    (\<forall>k. contains_unknown_block pool' k \<longrightarrow> contains_unknown_block pool k)"
  using assms
proof (induction pool q removed rule: remove_for_parent_loop.induct)
  case (1 pool removed)
  then show ?case by auto
next
  case (2 pool p q removed)
  let ?B = "pool_blocks pool"
  show ?case
  proof (cases "map_of (orphaned_blocks pool) p")
    case None
    have "h = p \<Longrightarrow> \<not> descends ?B h b" for h b
    proof
      assume "descends ?B h b" "h = p"
      then show False using None by (induction rule: descends.induct) (auto simp: pool_blocks_iff)
    qed
    with "2.IH"(1) [OF None "2.prems"(1)] "2.prems"(2) None show ?thesis by simp
  next
    case (Some m)
    let ?pool = "pool\<lparr>orphaned_blocks := AList.delete p (orphaned_blocks pool),
        unknown_blocks := fold AList.delete (map fst m) (unknown_blocks pool)\<rparr>"
    let ?C = "snd ` set m" let ?B' = "{(r, b) \<in> ?B. r \<noteq> p}"
    have C: "?C = {b. (p, b) \<in> ?B}" using Some by (simp add: pool_blocks_iff)
    have keys: "fst ` set m = block_hash_of ` ?C"
      by (rule siblings_keys [OF pool_inv_siblings [OF "2.prems"(1) Some]])
    from "2.IH"(2) [OF Some pool_inv_take [OF "2.prems"(1) Some]] "2.prems"(2) Some obtain r where
      r: "pool_inv pool'" "removed' = removed @ map snd m @ r"
        "set r = {b. \<exists>h \<in> set q \<union> block_hash_of ` ?C. descends ?B' h b}"
        "pool_blocks pool' = {(s, b) \<in> ?B'. \<not> (\<exists>h \<in> set q \<union> block_hash_of ` ?C. descends ?B' h b)}"
        "\<forall>k. contains_unknown_block pool' k \<longrightarrow> contains_unknown_block ?pool k"
      by (auto simp: pool_blocks_delete keys)
    note step = descends_step [OF C, of "set q"]
    then have D: "?C \<union> set r = {b. \<exists>h \<in> set (p # q). descends ?B h b}" unfolding r(3) by simp
    then have "set (map snd m @ r) = {b. \<exists>h \<in> set (p # q). descends ?B h b}" by simp
    moreover have "pool_blocks pool' = {(s, b) \<in> ?B. \<not> (\<exists>h \<in> set (p # q). descends ?B h b)}"
    proof -
      have "s \<noteq> p \<longleftrightarrow> b \<notin> ?C" if "(s, b) \<in> ?B" for s b
        using that C pool_blocks_parent [OF "2.prems"(1), of s b] pool_blocks_parent [OF "2.prems"(1), of p b]
        by auto
      then have "pool_blocks pool' = {(s, b) \<in> ?B. b \<notin> ?C \<union> set r}" unfolding r(3,4) by auto
      then show ?thesis unfolding D by simp
    qed
    moreover have "contains_unknown_block pool k" if "contains_unknown_block pool' k" for k
    proof -
      from r(5) that have "contains_unknown_block ?pool k" by blast
      then show ?thesis unfolding contains_unknown_restrict by (simp add: contains_unknown_block_def)
    qed
    ultimately show ?thesis using r(1,2) by auto
  qed
qed

lemma remove_blocks_for_parent_ok:
  assumes "pool_inv pool" "remove_blocks_for_parent pool h = (removed, pool')"
  shows "pool_inv pool'" "set removed = {b. descends (pool_blocks pool) h b}"
    "pool_blocks pool' = {(p, b) \<in> pool_blocks pool. \<not> descends (pool_blocks pool) h b}"
    "contains_unknown_block pool' k \<Longrightarrow> contains_unknown_block pool k"
  using remove_for_parent_loop_ok [OF assms(1), of "[h]" "[]" removed pool'] assms(2)
  by (auto simp: remove_blocks_for_parent_def)

section \<open>Insertion\<close>

lemma set_update_distinct:
  "distinct (map fst m) \<Longrightarrow> set (AList.update k v m) = insert (k, v) {x \<in> set m. fst x \<noteq> k}"
  by (induction m) (auto simp: rev_image_eqI)

lemma pool_inv_group:
  assumes "pool_inv pool" "m = (case map_of (orphaned_blocks pool) p of Some m \<Rightarrow> m | None \<Rightarrow> [])"
  shows "distinct (map fst m)"
    "(k, c) \<in> set m \<Longrightarrow> k = block_hash_of c \<and> p = previous_header_hash (raw (header c))"
  using assms by (cases "map_of (orphaned_blocks pool) p"; auto simp: pool_inv_def siblings_ok_def)+

lemma pool_blocks_insert:
  assumes inv: "pool_inv pool" and p: "p = previous_header_hash (raw (header b))"
  shows "pool_blocks (insert_orphaned_block pool b) =
    insert (p, b) {(r, c) \<in> pool_blocks pool. \<not> (r = p \<and> block_hash_of c = block_hash_of b)}"
proof -
  let ?m = "case map_of (orphaned_blocks pool) p of Some m \<Rightarrow> m | None \<Rightarrow> []"
  note d = pool_inv_group(1) [OF inv refl, of p] and keys = pool_inv_group(2) [OF inv refl, of _ _ p]
  have new: "snd ` set (AList.update (block_hash_of b) b ?m) =
      insert b {c \<in> snd ` set ?m. block_hash_of c \<noteq> block_hash_of b}"
    unfolding set_update_distinct [OF d] using keys by force
  have "(r, c) \<in> pool_blocks (insert_orphaned_block pool b) \<longleftrightarrow>
      (if r = p then c \<in> snd ` set (AList.update (block_hash_of b) b ?m) else (r, c) \<in> pool_blocks pool)" for r c
    by (simp add: insert_orphaned_block_def p Let_def pool_blocks_iff)
  moreover have "c \<in> snd ` set ?m \<longleftrightarrow> (p, c) \<in> pool_blocks pool" for c
    by (cases "map_of (orphaned_blocks pool) p") (simp_all add: pool_blocks_iff)
  ultimately show ?thesis unfolding new by (auto simp: set_eq_iff)
qed

lemma siblings_insert:
  assumes "pool_inv pool" "m = (case map_of (orphaned_blocks pool) p of Some m \<Rightarrow> m | None \<Rightarrow> [])"
    and "p = previous_header_hash (raw (header b))"
  shows "siblings_ok p (AList.update (block_hash_of b) b m)"
  using pool_inv_group(2) [OF assms(1,2)] distinct_update [OF pool_inv_group(1) [OF assms(1,2)]]
    set_update_distinct [OF pool_inv_group(1) [OF assms(1,2)]] assms(3)
  by (simp add: siblings_ok_def update_nonempty) blast

lemma insert_orphaned_inv:
  assumes inv: "pool_inv (pool\<lparr>unknown_blocks := u\<rparr>)"
    and u: "distinct (map fst u')" "\<And>k. map_of u' k \<noteq> None \<Longrightarrow> map_of u k \<noteq> None \<or> k = block_hash_of b"
  shows "pool_inv (insert_orphaned_block (pool\<lparr>unknown_blocks := u'\<rparr>) b)"
proof -
  let ?p = "previous_header_hash (raw (header b))"
  let ?pool = "pool\<lparr>unknown_blocks := u\<rparr>" let ?pool' = "insert_orphaned_block (pool\<lparr>unknown_blocks := u'\<rparr>) b"
  let ?m = "case map_of (orphaned_blocks pool) ?p of Some m \<Rightarrow> m | None \<Rightarrow> []"
  have sib: "siblings_ok p m" if "map_of (orphaned_blocks pool) p = Some m" for p m
    using pool_inv_siblings [OF inv] that by simp
  have new: "siblings_ok ?p (AList.update (block_hash_of b) b ?m)"
    by (rule siblings_insert [OF inv _ refl]) simp
  have blocks: "pool_blocks ?pool' = insert (?p, b)
      {(r, c) \<in> pool_blocks ?pool. \<not> (r = ?p \<and> block_hash_of c = block_hash_of b)}"
    unfolding pool_blocks_insert [OF inv refl, of b, symmetric]
    by (rule pool_blocks_cong) (simp add: insert_orphaned_block_def Let_def)
  have orph: "orphaned_blocks ?pool' =
      AList.update ?p (AList.update (block_hash_of b) b ?m) (orphaned_blocks pool)"
    "unknown_blocks ?pool' = u'"
    by (simp_all add: insert_orphaned_block_def Let_def)
  show ?thesis
    unfolding pool_inv_def orph
  proof (intro conjI allI impI)
    show "distinct (map fst (AList.update ?p (AList.update (block_hash_of b) b ?m) (orphaned_blocks pool)))"
      using inv by (intro distinct_update) (simp add: pool_inv_def)
    show "distinct (map fst u')" by (rule u(1))
    show "siblings_ok p m"
      if "map_of (AList.update ?p (AList.update (block_hash_of b) b ?m) (orphaned_blocks pool)) p = Some m" for p m
      using that new sib [of p m] by (cases "p = ?p") simp_all
    show "k \<in> block_hash_of ` snd ` pool_blocks ?pool'" if k: "contains_unknown_block ?pool' k" for k
    proof (cases "k = block_hash_of b")
      case True
      then show ?thesis unfolding blocks by simp
    next
      case False
      have "map_of u' k \<noteq> None" using k orph(2) by (simp add: contains_unknown_block_def)
      with u(2) False have "contains_unknown_block ?pool k" by (auto simp: contains_unknown_block_def)
      then have "k \<in> block_hash_of ` snd ` pool_blocks ?pool" using inv by (simp add: pool_inv_def)
      then obtain r c where "(r, c) \<in> pool_blocks ?pool" "k = block_hash_of c" by force
      with False have "(r, c) \<in> pool_blocks ?pool'" unfolding blocks by simp
      then show ?thesis using \<open>k = block_hash_of c\<close> by force
    qed
  qed
qed

lemma insert_block_inv:
  assumes inv: "pool_inv pool"
  shows "pool_inv (insert_orphaned_block pool b)"
    "insert_unknown_block now pool b = Some pool' \<Longrightarrow> pool_inv pool'"
proof -
  have eq: "pool\<lparr>unknown_blocks := unknown_blocks pool\<rparr> = pool" by simp
  have d: "distinct (map fst (unknown_blocks pool))" using inv by (simp add: pool_inv_def)
  show "pool_inv (insert_orphaned_block pool b)"
    using insert_orphaned_inv [of "unknown_blocks pool" pool "unknown_blocks pool" b] inv d by (simp add: eq)
  assume "insert_unknown_block now pool b = Some pool'"
  then have n: "map_of (unknown_blocks pool) (block_hash_of b) = None"
    and p: "pool' = insert_orphaned_block
      (pool\<lparr>unknown_blocks := unknown_blocks pool @ [(block_hash_of b, now)]\<rparr>) b"
    by (auto simp: insert_unknown_block_def split: if_splits)
  show "pool_inv pool'" unfolding p
  proof (rule insert_orphaned_inv [of "unknown_blocks pool"])
    show "pool_inv (pool\<lparr>unknown_blocks := unknown_blocks pool\<rparr>)" using inv by (simp add: eq)
    show "distinct (map fst (unknown_blocks pool @ [(block_hash_of b, now)]))"
      using d n by (simp add: map_of_eq_None_iff)
  qed (auto simp: map_add_def split: option.splits if_splits)
qed

section \<open>Removal by hash\<close>

lemma set_fold_delete: "set (fold AList.delete ks m) = {x \<in> set m. fst x \<notin> set ks}"
  by (induction ks arbitrary: m) (auto simp: AList.delete_eq)

lemma map_of_filter_map:
  assumes "distinct (map fst xs)"
  shows "map_of (filter (\<lambda>(p, m). m \<noteq> []) (map (\<lambda>(p, m). (p, f m)) xs)) p =
    (case map_of xs p of None \<Rightarrow> None | Some m \<Rightarrow> if f m = [] then None else Some (f m))"
  using assms
proof (induction xs)
  case (Cons x xs)
  obtain q m where x: "x = (q, m)" by fastforce
  have "map_of xs q = None" using Cons.prems x by (simp add: map_of_eq_None_iff)
  with Cons x show ?case by (cases "p = q") auto
qed simp

lemma remove_listed_ok:
  assumes inv: "pool_inv pool" and r: "remove_listed pool hashes = (removed, pool')"
  shows "pool_blocks pool' = {(p, b) \<in> pool_blocks pool. block_hash_of b \<notin> set hashes}"
    "set removed = set hashes \<inter> block_hash_of ` snd ` pool_blocks pool"
    "pool_inv pool'" "contains_unknown_block pool' k \<Longrightarrow> contains_unknown_block pool k"
proof -
  let ?os = "orphaned_blocks pool" let ?B = "pool_blocks pool"
  have d: "distinct (map fst ?os)" using inv by (simp add: pool_inv_def)
  have os: "map_of (orphaned_blocks pool') p = (case map_of ?os p of None \<Rightarrow> None
      | Some m \<Rightarrow> if fold AList.delete hashes m = [] then None else Some (fold AList.delete hashes m))" for p
    using r map_of_filter_map [OF d] by (auto simp: remove_listed_def Let_def)
  have m: "snd ` set (fold AList.delete hashes m) = {b \<in> snd ` set m. block_hash_of b \<notin> set hashes}"
    if "siblings_ok p m" for p m
    using that unfolding set_fold_delete by (force simp: siblings_ok_def)
  show B: "pool_blocks pool' = {(p, b) \<in> ?B. block_hash_of b \<notin> set hashes}"
  proof -
    have "(p, b) \<in> pool_blocks pool' \<longleftrightarrow> (p, b) \<in> ?B \<and> block_hash_of b \<notin> set hashes" for p b
    proof (cases "map_of ?os p")
      case (Some g)
      have "b \<in> snd ` set (fold AList.delete hashes g) \<longleftrightarrow> b \<in> snd ` set g \<and> block_hash_of b \<notin> set hashes"
        using m [OF pool_inv_siblings [OF inv Some]] by blast
      with Some os [of p] show ?thesis by (cases "fold AList.delete hashes g = []") (simp_all add: pool_blocks_iff)
    qed (simp add: pool_blocks_iff os)
    then show ?thesis by (simp add: set_eq_iff)
  qed
  show removed: "set removed = set hashes \<inter> block_hash_of ` snd ` ?B"
  proof -
    have "removed = concat (map (\<lambda>x. filter (\<lambda>h. map_of (snd x) h \<noteq> None) hashes) ?os)"
      using r by (simp add: remove_listed_def Let_def case_prod_beta')
    then have "h \<in> set removed \<longleftrightarrow> h \<in> set hashes \<and> (\<exists>x \<in> set ?os. h \<in> fst ` set (snd x))" for h
      by (simp add: map_of_eq_None_iff)
    moreover have "(\<exists>x \<in> set ?os. h \<in> fst ` set (snd x)) \<longleftrightarrow>
        (\<exists>p m. map_of ?os p = Some m \<and> h \<in> fst ` set m)" for h
      unfolding map_of_eq_Some_iff [OF d] by (metis prod.collapse snd_conv)
    ultimately have "h \<in> set removed \<longleftrightarrow>
        h \<in> set hashes \<and> (\<exists>p m. map_of ?os p = Some m \<and> h \<in> fst ` set m)" for h
      by simp
    then show ?thesis unfolding pool_hashes [OF inv] by blast
  qed
  have u: "contains_unknown_block pool' k \<longleftrightarrow> contains_unknown_block pool k \<and> k \<notin> set removed" for k
  proof -
    have "unknown_blocks pool' = fold AList.delete removed (unknown_blocks pool)"
      using r by (auto simp: remove_listed_def Let_def)
    then show ?thesis by (simp add: contains_unknown_block_def map_of_fold_delete restrict_map_def)
  qed
  show "contains_unknown_block pool' k \<Longrightarrow> contains_unknown_block pool k" by (simp add: u)
  have sib: "siblings_ok p g'" if g': "map_of (orphaned_blocks pool') p = Some g'" for p g'
  proof -
    from g' os [of p] obtain g where g: "map_of ?os p = Some g" "g' = fold AList.delete hashes g" "g' \<noteq> []"
      by (auto split: option.splits if_splits)
    from pool_inv_siblings [OF inv g(1)] g(2,3) show ?thesis
      by (auto simp: siblings_ok_def distinct_fold_delete set_fold_delete)
  qed
  have "distinct (map fst (orphaned_blocks pool'))"
    using r d by (auto simp: remove_listed_def Let_def comp_def case_prod_beta' intro!: distinct_map_filter)
  moreover have "distinct (map fst (unknown_blocks pool'))"
    using r inv by (auto simp: remove_listed_def Let_def pool_inv_def distinct_fold_delete)
  moreover have "k \<in> block_hash_of ` snd ` pool_blocks pool'" if "contains_unknown_block pool' k" for k
  proof -
    from that u removed inv have "k \<in> block_hash_of ` snd ` ?B" "k \<notin> set hashes" by (auto simp: pool_inv_def)
    then show ?thesis unfolding B by force
  qed
  ultimately show "pool_inv pool'" using sib by (simp add: pool_inv_def)
qed

text \<open>Descendants that survive the removal of a set of blocks closed under descent.\<close>

lemma descends_remaining:
  assumes "descends B h b" "b \<notin> D" "\<And>b c. b \<in> D \<Longrightarrow> (block_hash_of b, c) \<in> B \<Longrightarrow> c \<in> D"
  shows "descends {(p, b) \<in> B. b \<notin> D} h b"
  using assms(1,2)
proof (induction rule: descends.induct)
  case (below h b c)
  then have "b \<notin> D" using assms(3) by blast
  with below show ?case by (auto intro: descends.below)
qed (auto intro: descends.child)

lemma descends_closed:
  "b \<in> {b. descends B h b} \<Longrightarrow> (block_hash_of b, c) \<in> B \<Longrightarrow> c \<in> {b. descends B h b}"
  by (auto intro: descends.below)

lemma remove_children_ok:
  assumes "pool_inv pool" "remove_children pool hs removed = (removed', pool')"
  shows "pool_inv pool' \<and>
    set removed' = set removed \<union> block_hash_of ` {b. \<exists>h \<in> set hs. descends (pool_blocks pool) h b} \<and>
    pool_blocks pool' = {(p, b) \<in> pool_blocks pool. \<not> (\<exists>h \<in> set hs. descends (pool_blocks pool) h b)} \<and>
    (\<forall>k. contains_unknown_block pool' k \<longrightarrow> contains_unknown_block pool k)"
  using assms
proof (induction hs arbitrary: pool removed)
  case (Cons h hs)
  let ?B = "pool_blocks pool"
  obtain bs pool1 where p1: "remove_blocks_for_parent pool h = (bs, pool1)" by fastforce
  note r = remove_blocks_for_parent_ok [OF Cons.prems(1) p1]
  let ?D = "{b. descends ?B h b}" let ?B1 = "{(p, b) \<in> ?B. b \<notin> ?D}"
  have B1: "pool_blocks pool1 = ?B1" using r(3) by simp
  have D1: "descends ?B1 g b \<Longrightarrow> descends ?B g b" for g b by (rule descends_mono) auto
  have D2: "descends ?B g b \<Longrightarrow> b \<notin> ?D \<Longrightarrow> descends ?B1 g b" for g b
    by (rule descends_remaining [OF _ _ descends_closed])
  have X: "{b. \<exists>g \<in> set (h # hs). descends ?B g b} = ?D \<union> {b. \<exists>g \<in> set hs. descends ?B1 g b}"
  proof (intro set_eqI iffI)
    show "b \<in> ?D \<union> {b. \<exists>g \<in> set hs. descends ?B1 g b}" if "b \<in> {b. \<exists>g \<in> set (h # hs). descends ?B g b}" for b
      using that D2 [of _ b] by (cases "b \<in> ?D") auto
    show "b \<in> {b. \<exists>g \<in> set (h # hs). descends ?B g b}" if "b \<in> ?D \<union> {b. \<exists>g \<in> set hs. descends ?B1 g b}" for b
      using that D1 [of _ b] by auto
  qed
  have loop: "remove_children pool1 hs (removed @ map block_hash_of bs) = (removed', pool')"
    using Cons.prems(2) p1 by simp
  note IH = Cons.IH [OF r(1) loop, unfolded B1]
  have removed: "set removed' = set removed \<union> block_hash_of ` ?D \<union>
      block_hash_of ` {b. \<exists>g \<in> set hs. descends ?B1 g b}"
    using conjunct1 [OF conjunct2 [OF IH]] by (simp add: r(2) Un_assoc)
  have blocks: "pool_blocks pool' = {(p, b) \<in> ?B1. \<not> (\<exists>g \<in> set hs. descends ?B1 g b)}"
    by (rule conjunct1 [OF conjunct2 [OF conjunct2 [OF IH]]])
  have "pool_blocks pool' = {(p, b) \<in> ?B. b \<notin> ?D \<union> {b. \<exists>g \<in> set hs. descends ?B1 g b}}"
    unfolding blocks by (simp add: set_eq_iff)
  then have "pool_blocks pool' = {(p, b) \<in> ?B. \<not> (\<exists>g \<in> set (h # hs). descends ?B g b)}"
    unfolding X [symmetric] by simp
  moreover have "set removed' = set removed \<union> block_hash_of ` {b. \<exists>g \<in> set (h # hs). descends ?B g b}"
    unfolding X removed by (simp only: image_Un Un_assoc)
  moreover have "contains_unknown_block pool' k \<Longrightarrow> contains_unknown_block pool k" for k
    using conjunct2 [OF conjunct2 [OF conjunct2 [OF IH]]] r(4) by blast
  ultimately show ?case using conjunct1 [OF IH] by simp
qed simp

lemma descends_unlisted:
  assumes "descends B h b" "h \<in> H" "block_hash_of b \<notin> H"
  shows "\<exists>g \<in> H. descends {(p, b) \<in> B. block_hash_of b \<notin> H} g b"
  using assms
proof (induction rule: descends.induct)
  case (below h b c)
  then have c: "(block_hash_of b, c) \<in> {(p, b) \<in> B. block_hash_of b \<notin> H}" by simp
  show ?case
  proof (cases "block_hash_of b \<in> H")
    case True
    with c show ?thesis by (blast intro: descends.child)
  next
    case False
    with below c show ?thesis by (blast intro: descends.below)
  qed
qed (blast intro: descends.child)

text \<open>What \<^verbatim>\<open>remove_blocks\<close> removes: the listed blocks and everything that descends from a listed hash.\<close>

definition doomed :: "OrphanBlocksPool \<Rightarrow> h256 list \<Rightarrow> IndexedBlock set" where
  "doomed pool hashes =
     {b. block_hash_of b \<in> set hashes \<or> (\<exists>h \<in> set hashes. descends (pool_blocks pool) h b)}"

lemma remove_blocks_ok:
  assumes inv: "pool_inv pool" and r: "remove_blocks pool hashes = (removed, pool')"
  shows "pool_inv pool'" "pool_blocks pool' = {(p, b) \<in> pool_blocks pool. b \<notin> doomed pool hashes}"
    "set removed = block_hash_of ` {b \<in> snd ` pool_blocks pool. b \<in> doomed pool hashes}"
    "contains_unknown_block pool' k \<Longrightarrow> contains_unknown_block pool k"
proof -
  let ?B = "pool_blocks pool" let ?H = "set hashes"
  let ?B1 = "{(p, b) \<in> ?B. block_hash_of b \<notin> ?H}"
  obtain r1 pool1 where 1: "remove_listed pool hashes = (r1, pool1)" by fastforce
  with r have 2: "remove_children pool1 hashes r1 = (removed, pool')" by (simp add: remove_blocks_def)
  note l = remove_listed_ok [OF inv 1]
  note c = remove_children_ok [OF l(3) 2, unfolded l(1)]
  show "pool_inv pool'" using c by blast
  show "contains_unknown_block pool' k \<Longrightarrow> contains_unknown_block pool k" using c l(4) by blast
  have mono: "descends ?B1 g b \<Longrightarrow> descends ?B g b" for g b by (rule descends_mono) auto
  have X: "b \<in> doomed pool hashes \<longleftrightarrow> block_hash_of b \<in> ?H \<or> (\<exists>g \<in> ?H. descends ?B1 g b)" for b
    using descends_unlisted [of ?B _ b ?H] mono unfolding doomed_def by blast
  show "pool_blocks pool' = {(p, b) \<in> ?B. b \<notin> doomed pool hashes}" unfolding X using c by auto
  have "b \<in> snd ` ?B" if "descends ?B1 g b" for g b using descends_block [OF that] by force
  then show "set removed = block_hash_of ` {b \<in> snd ` ?B. b \<in> doomed pool hashes}"
    using c l(2) unfolding X by auto
qed

lemma remove_known_ok:
  assumes inv: "pool_inv pool" and r: "remove_known_blocks pool = (removed, pool')"
  shows "pool_inv pool'" "set removed = {h \<in> block_hash_of ` snd ` pool_blocks pool. \<not> contains_unknown_block pool h}"
    "pool_blocks pool' = {(p, b) \<in> pool_blocks pool. b \<notin> doomed pool removed}"
proof -
  let ?os = "orphaned_blocks pool"
  have d: "distinct (map fst ?os)" using inv by (simp add: pool_inv_def)
  have r': "snd (remove_blocks pool removed) = pool'" using r by (auto simp: remove_known_blocks_def Let_def)
  then obtain rs where rs: "remove_blocks pool removed = (rs, pool')" by (metis prod.collapse)
  show "pool_inv pool'" "pool_blocks pool' = {(p, b) \<in> pool_blocks pool. b \<notin> doomed pool removed}"
    using remove_blocks_ok(1,2) [OF inv rs] .
  have hashes: "(\<exists>x \<in> set ?os. h \<in> fst ` set (snd x)) \<longleftrightarrow> h \<in> block_hash_of ` snd ` pool_blocks pool" for h
  proof -
    have "(\<exists>x \<in> set ?os. h \<in> fst ` set (snd x)) \<longleftrightarrow> (\<exists>p m. map_of ?os p = Some m \<and> h \<in> fst ` set m)"
      unfolding map_of_eq_Some_iff [OF d] by (metis prod.collapse snd_conv)
    then show ?thesis unfolding pool_hashes [OF inv] .
  qed
  show "set removed = {h \<in> block_hash_of ` snd ` pool_blocks pool. \<not> contains_unknown_block pool h}"
  proof -
    have "removed = remdups (filter (\<lambda>h. map_of (unknown_blocks pool) h = None)
        (concat (map (\<lambda>x. map fst (snd x)) ?os)))"
      using r by (simp add: remove_known_blocks_def Let_def case_prod_beta')
    then have "set removed = {h. (\<exists>x \<in> set ?os. h \<in> fst ` set (snd x)) \<and> \<not> contains_unknown_block pool h}"
      by (simp add: contains_unknown_block_def set_eq_iff)
    with hashes show ?thesis by simp
  qed
qed

section \<open>Reachable pools\<close>

inductive pool_reachable :: "OrphanBlocksPool \<Rightarrow> bool" where
  "pool_reachable pool_new"
| "pool_reachable pool \<Longrightarrow> pool_reachable (insert_orphaned_block pool b)"
| "pool_reachable pool \<Longrightarrow> insert_unknown_block now pool b = Some pool' \<Longrightarrow> pool_reachable pool'"
| "pool_reachable pool \<Longrightarrow> remove_blocks_for_parent pool h = (bs, pool') \<Longrightarrow> pool_reachable pool'"
| "pool_reachable pool \<Longrightarrow> remove_blocks pool hashes = (hs, pool') \<Longrightarrow> pool_reachable pool'"
| "pool_reachable pool \<Longrightarrow> remove_known_blocks pool = (hs, pool') \<Longrightarrow> pool_reachable pool'"

lemma pool_new_inv: "pool_inv pool_new"
  by (simp add: pool_inv_def pool_new_def contains_unknown_block_def)

lemma pool_reachable_inv: "pool_reachable pool \<Longrightarrow> pool_inv pool"
  by (induction rule: pool_reachable.induct)
    (auto intro: pool_new_inv insert_block_inv remove_blocks_for_parent_ok(1) remove_blocks_ok(1) remove_known_ok(1))

text \<open>C17: in every reachable pool, removing the blocks that wait for a parent returns exactly the blocks that descend
  from it along parent links within the pool, leaves exactly the others, and every block still marked as unknown is
  still in the pool.\<close>

theorem orphan_descendants_removed:
  assumes "pool_reachable pool" "remove_blocks_for_parent pool h = (removed, pool')"
  shows "set removed = {b. descends (pool_blocks pool) h b} \<and>
    pool_blocks pool' = {(p, b) \<in> pool_blocks pool. \<not> descends (pool_blocks pool) h b} \<and>
    (\<forall>k. contains_unknown_block pool' k \<longrightarrow> k \<in> block_hash_of ` snd ` pool_blocks pool')"
proof -
  note r = remove_blocks_for_parent_ok [OF pool_reachable_inv [OF assms(1)] assms(2)]
  have "k \<in> block_hash_of ` snd ` pool_blocks pool'" if "contains_unknown_block pool' k" for k
    using r(1) that unfolding pool_inv_def by blast
  then show ?thesis using r(2,3) by blast
qed

definition chained_block :: "h256 \<Rightarrow> h256 \<Rightarrow> IndexedBlock" where
  "chained_block h p = \<lparr>header = \<lparr>hash = h, raw = sample_header\<lparr>previous_header_hash := p\<rparr>\<rparr>, vdf_proof = []\<rparr>"

definition sample_pool :: OrphanBlocksPool where
  "sample_pool = insert_orphaned_block (insert_orphaned_block pool_new (chained_block 3 2)) (chained_block 4 3)"

lemma sample_pool_eq:
  "sample_pool = \<lparr>orphaned_blocks = [(2, [(3, chained_block 3 2)]), (3, [(4, chained_block 4 3)])], unknown_blocks = []\<rparr>"
  by (simp add: sample_pool_def insert_orphaned_block_def pool_new_def chained_block_def)

lemma sample_pool_reachable: "pool_reachable sample_pool"
  unfolding sample_pool_def by (intro pool_reachable.intros(1,2))

theorem orphan_descendants_removed_witness:
  "remove_blocks_for_parent sample_pool 2 = ([chained_block 3 2, chained_block 4 3], pool_new) \<and>
   {chained_block 3 2, chained_block 4 3} = {b. descends (pool_blocks sample_pool) 2 b}"
proof -
  have r: "remove_blocks_for_parent sample_pool 2 = ([chained_block 3 2, chained_block 4 3], pool_new)"
    by (simp add: remove_blocks_for_parent_def sample_pool_eq pool_new_def)
  from orphan_descendants_removed [OF sample_pool_reachable r] r show ?thesis by simp
qed

text \<open>Dropping the blocks that were requested keeps only blocks nobody requested: it returns the hashes of all
  requested blocks of the pool, and a block stays exactly when it is marked as unknown and does not descend from
  a requested block.\<close>

theorem remove_known_keeps_unknown:
  assumes "pool_reachable pool" "remove_known_blocks pool = (removed, pool')"
  shows "set removed = {block_hash_of b | p b. (p, b) \<in> pool_blocks pool \<and> \<not> contains_unknown_block pool (block_hash_of b)} \<and>
    pool_blocks pool' = {(p, b) \<in> pool_blocks pool. contains_unknown_block pool (block_hash_of b) \<and>
      \<not> (\<exists>h \<in> set removed. descends (pool_blocks pool) h b)}"
proof -
  note r = remove_known_ok [OF pool_reachable_inv [OF assms(1)] assms(2)]
  have "(p, b) \<in> pool_blocks pool \<Longrightarrow> block_hash_of b \<in> set removed \<longleftrightarrow> \<not> contains_unknown_block pool (block_hash_of b)"
    for p b unfolding r(2) by force
  then have "pool_blocks pool' = {(p, b) \<in> pool_blocks pool. contains_unknown_block pool (block_hash_of b) \<and>
      \<not> (\<exists>h \<in> set removed. descends (pool_blocks pool) h b)}"
    unfolding r(3) doomed_def by (simp add: set_eq_iff) blast
  moreover have "set removed =
      {block_hash_of b | p b. (p, b) \<in> pool_blocks pool \<and> \<not> contains_unknown_block pool (block_hash_of b)}"
    unfolding r(2) by (simp add: set_eq_iff image_iff Bex_def) metis
  ultimately show ?thesis by (rule conjI [rotated])
qed

theorem remove_known_keeps_unknown_witness:
  "remove_known_blocks sample_pool = ([3, 4], pool_new) \<and>
   {block_hash_of b | p b. (p, b) \<in> pool_blocks sample_pool \<and> \<not> contains_unknown_block sample_pool (block_hash_of b)} = {3, 4}"
proof -
  have r: "remove_known_blocks sample_pool = ([3, 4], pool_new)"
    by (simp add: remove_known_blocks_def remove_blocks_def remove_listed_def sample_pool_eq pool_new_def Let_def
        remove_blocks_for_parent_def)
  from remove_known_keeps_unknown [OF sample_pool_reachable r] r show ?thesis by simp
qed

end
