(* ===== verification/Hash_Queue.thy ===== *)
theory Hash_Queue
  imports Prelude
begin

text \<open>
  The ordered hash queue of \<^verbatim>\<open>sync/src/utils/hash_queue.rs\<close>: a \<^verbatim>\<open>VecDeque\<close> of hashes with a
  \<^verbatim>\<open>HashSet\<close> beside it for constant-time membership, and the chain of linked queues built from
  it. The interface a client relies on is the locale \<open>hash_queue\<close> (a queue is a duplicate-free
  list); it is interpreted on the two-container implementation.
\<close>

section \<open>HashQueue\<close>

datatype HashPosition = Missing | Front | Inside u32

record HashQueue =
  queue :: "h256 list"
  hset :: "h256 set"

definition hq_new :: HashQueue where
  "hq_new = \<lparr>queue = [], hset = {}\<rparr>"

definition hq_clear :: "HashQueue \<Rightarrow> HashQueue" where
  "hq_clear q = q\<lparr>hset := {}, queue := []\<rparr>"

definition hq_len :: "HashQueue \<Rightarrow> u32" where
  "hq_len q = of_nat (length (queue q))"

definition hq_front :: "HashQueue \<Rightarrow> h256 option" where
  "hq_front q = (case queue q of [] \<Rightarrow> None | h # _ \<Rightarrow> Some h)"

definition hq_back :: "HashQueue \<Rightarrow> h256 option" where
  "hq_back q = (if queue q = [] then None else Some (last (queue q)))"

definition hq_position :: "HashQueue \<Rightarrow> h256 \<Rightarrow> u32 option" where
  "hq_position q hash =
     (case filter (\<lambda>(pos, h). hash = h) (enumerate 0 (queue q)) of
        [] \<Rightarrow> None | (pos, _) # _ \<Rightarrow> Some (of_nat pos))"

definition hq_at :: "HashQueue \<Rightarrow> u32 \<Rightarrow> h256 option" where
  "hq_at q position =
     (if unat position < length (queue q) then Some (queue q ! unat position) else None)"

definition hq_pre_back :: "HashQueue \<Rightarrow> h256 option" where
  "hq_pre_back q =
     (let queue_len = length (queue q)
      in if queue_len \<le> 1 then None else Some (queue q ! (queue_len - 2)))"

definition hq_contains :: "HashQueue \<Rightarrow> h256 \<Rightarrow> bool" where
  "hq_contains q hash \<longleftrightarrow> hash \<in> hset q"

definition hq_front_n :: "HashQueue \<Rightarrow> u32 \<Rightarrow> h256 list" where
  "hq_front_n q n = take (unat n) (queue q)"

definition hq_pop_front :: "HashQueue \<Rightarrow> h256 option \<times> HashQueue" where
  "hq_pop_front q =
     (case queue q of
        [] \<Rightarrow> (None, q)
      | hash # rest \<Rightarrow> (Some hash, q\<lparr>queue := rest, hset := hset q - {hash}\<rparr>))"

text \<open>
  The loops \<^verbatim>\<open>for _ in 0..n { match self.pop_front() .. }\<close> and
  \<^verbatim>\<open>for hash in hashes { self.push_back(hash) }\<close>, over the operation they repeat.
\<close>

fun pop_n :: "('q \<Rightarrow> 'a option \<times> 'q) \<Rightarrow> nat \<Rightarrow> 'q \<Rightarrow> 'a list \<times> 'q" where
  "pop_n pop 0 q = ([], q)"
| "pop_n pop (Suc n) q =
     (case pop q of
        (None, q') \<Rightarrow> ([], q')
      | (Some h, q') \<Rightarrow> (let (hs, q'') = pop_n pop n q' in (h # hs, q'')))"

fun push_all :: "('q \<Rightarrow> 'a \<Rightarrow> 'q option) \<Rightarrow> 'q \<Rightarrow> 'a list \<Rightarrow> 'q option" where
  "push_all push q [] = Some q"
| "push_all push q (h # hs) =
     (case push q h of None \<Rightarrow> None | Some q' \<Rightarrow> push_all push q' hs)"

definition hq_pop_front_n :: "HashQueue \<Rightarrow> u32 \<Rightarrow> h256 list \<times> HashQueue" where
  "hq_pop_front_n q n = pop_n hq_pop_front (unat n) q"

definition hq_pop_back :: "HashQueue \<Rightarrow> h256 option \<times> HashQueue" where
  "hq_pop_back q =
     (if queue q = [] then (None, q)
      else let hash = last (queue q)
           in (Some hash, q\<lparr>queue := butlast (queue q), hset := hset q - {hash}\<rparr>))"

definition hq_push_back :: "HashQueue \<Rightarrow> h256 \<Rightarrow> HashQueue option" where
  "hq_push_back q hash =
     (if hash \<in> hset q then None
      else Some (q\<lparr>hset := insert hash (hset q), queue := queue q @ [hash]\<rparr>))"

definition hq_push_back_n :: "HashQueue \<Rightarrow> h256 list \<Rightarrow> HashQueue option" where
  "hq_push_back_n q hashes = push_all hq_push_back q hashes"

definition hq_remove :: "HashQueue \<Rightarrow> h256 \<Rightarrow> (HashPosition \<times> HashQueue) option" where
  "hq_remove q hash =
     (if hash \<notin> hset q then Some (Missing, q)
      else let q' = q\<lparr>hset := hset q - {hash}\<rparr>
           in case queue q' of
                [] \<Rightarrow> None
              | front # rest \<Rightarrow>
                  if front = hash then Some (Front, q'\<lparr>queue := rest\<rparr>)
                  else case find_pos hash (queue q') of
                         Some i \<Rightarrow> Some (Inside (of_nat i),
                                    q'\<lparr>queue := take i (queue q') @ drop (Suc i) (queue q')\<rparr>)
                       | None \<Rightarrow> None)"

definition hq_remove_all :: "HashQueue \<Rightarrow> h256 list \<times> HashQueue" where
  "hq_remove_all q = (queue q, q\<lparr>hset := {}, queue := []\<rparr>)"

definition hq_index :: "HashQueue \<Rightarrow> u32 \<Rightarrow> h256 option" where
  "hq_index q index = (if unat index < length (queue q) then Some (queue q ! unat index) else None)"

section \<open>HashQueueChain\<close>

record HashQueueChain =
  queues :: "HashQueue list"

definition hqc_with_number_of_queues :: "nat \<Rightarrow> HashQueueChain option" where
  "hqc_with_number_of_queues number_of_queues =
     (if number_of_queues = 0 then None
      else Some \<lparr>queues = replicate number_of_queues hq_new\<rparr>)"

text \<open>Indexing the vector of queues; an index out of range panics.\<close>

definition hqc_get :: "HashQueueChain \<Rightarrow> nat \<Rightarrow> HashQueue option" where
  "hqc_get c i = (if i < length (queues c) then Some (queues c ! i) else None)"

definition hqc_set :: "HashQueueChain \<Rightarrow> nat \<Rightarrow> HashQueue \<Rightarrow> HashQueueChain" where
  "hqc_set c i q = c\<lparr>queues := (queues c)[i := q]\<rparr>"

definition hqc_len :: "HashQueueChain \<Rightarrow> u32" where
  "hqc_len c = fold (\<lambda>q total. total + hq_len q) (queues c) 0"

definition hqc_len_of :: "HashQueueChain \<Rightarrow> nat \<Rightarrow> u32 option" where
  "hqc_len_of c queue_index = map_option hq_len (hqc_get c queue_index)"

fun hqc_at_loop :: "HashQueue list \<Rightarrow> u32 \<Rightarrow> h256 option" where
  "hqc_at_loop [] index = None"
| "hqc_at_loop (q # qs) index =
     (if index < hq_len q then hq_at q index else hqc_at_loop qs (index - hq_len q))"

definition hqc_at :: "HashQueueChain \<Rightarrow> u32 \<Rightarrow> h256 option" where
  "hqc_at c index = hqc_at_loop (queues c) index"

definition hqc_front_at :: "HashQueueChain \<Rightarrow> nat \<Rightarrow> h256 option option" where
  "hqc_front_at c queue_index = map_option hq_front (hqc_get c queue_index)"

definition hqc_back_at :: "HashQueueChain \<Rightarrow> nat \<Rightarrow> h256 option option" where
  "hqc_back_at c queue_index = map_option hq_back (hqc_get c queue_index)"

definition hqc_pre_back_at :: "HashQueueChain \<Rightarrow> nat \<Rightarrow> h256 option option" where
  "hqc_pre_back_at c chain_index = map_option hq_pre_back (hqc_get c chain_index)"

text \<open>
  The loop of \<^verbatim>\<open>HashQueueChain::back\<close>. Decrementing a zero \<^verbatim>\<open>usize\<close> panics in a checked build
  and otherwise wraps to an index out of range, which panics in the next iteration.
\<close>

fun hqc_back_loop :: "HashQueue list \<Rightarrow> nat \<Rightarrow> h256 option option" where
  "hqc_back_loop qs queue_index =
     (if queue_index \<ge> length qs then None
      else case hq_back (qs ! queue_index) of
             Some h \<Rightarrow> Some (Some h)
           | None \<Rightarrow> if queue_index = 0 then None
                     else if queue_index - 1 = 0 then Some None
                     else hqc_back_loop qs (queue_index - 1))"

declare hqc_back_loop.simps [simp del]

definition hqc_back :: "HashQueueChain \<Rightarrow> h256 option option" where
  "hqc_back c = (if queues c = [] then None else hqc_back_loop (queues c) (length (queues c) - 1))"

fun hqc_contains_in_loop :: "HashQueue list \<Rightarrow> nat \<Rightarrow> h256 \<Rightarrow> nat option" where
  "hqc_contains_in_loop [] i hash = None"
| "hqc_contains_in_loop (q # qs) i hash =
     (if hq_contains q hash then Some i else hqc_contains_in_loop qs (Suc i) hash)"

definition hqc_contains_in :: "HashQueueChain \<Rightarrow> h256 \<Rightarrow> nat option" where
  "hqc_contains_in c hash = hqc_contains_in_loop (queues c) 0 hash"

definition hqc_front_n_at :: "HashQueueChain \<Rightarrow> nat \<Rightarrow> u32 \<Rightarrow> h256 list option" where
  "hqc_front_n_at c queue_index n = map_option (\<lambda>q. hq_front_n q n) (hqc_get c queue_index)"

definition hqc_pop_front_n_at ::
    "HashQueueChain \<Rightarrow> nat \<Rightarrow> u32 \<Rightarrow> (h256 list \<times> HashQueueChain) option" where
  "hqc_pop_front_n_at c queue_index n =
     map_option (\<lambda>q. let (hs, q') = hq_pop_front_n q n in (hs, hqc_set c queue_index q'))
       (hqc_get c queue_index)"

definition hqc_push_back_at :: "HashQueueChain \<Rightarrow> nat \<Rightarrow> h256 \<Rightarrow> HashQueueChain option" where
  "hqc_push_back_at c queue_index hash =
     Option.bind (hqc_get c queue_index)
       (\<lambda>q. map_option (hqc_set c queue_index) (hq_push_back q hash))"

definition hqc_push_back_n_at ::
    "HashQueueChain \<Rightarrow> nat \<Rightarrow> h256 list \<Rightarrow> HashQueueChain option" where
  "hqc_push_back_n_at c queue_index hashes =
     Option.bind (hqc_get c queue_index)
       (\<lambda>q. map_option (hqc_set c queue_index) (hq_push_back_n q hashes))"

definition hqc_remove_at ::
    "HashQueueChain \<Rightarrow> nat \<Rightarrow> h256 \<Rightarrow> (HashPosition \<times> HashQueueChain) option" where
  "hqc_remove_at c queue_index hash =
     Option.bind (hqc_get c queue_index)
       (\<lambda>q. map_option (\<lambda>(pos, q'). (pos, hqc_set c queue_index q')) (hq_remove q hash))"

definition hqc_remove_all_at ::
    "HashQueueChain \<Rightarrow> nat \<Rightarrow> (h256 list \<times> HashQueueChain) option" where
  "hqc_remove_all_at c queue_index =
     map_option (\<lambda>q. let (hs, q') = hq_remove_all q in (hs, hqc_set c queue_index q'))
       (hqc_get c queue_index)"

fun hqc_index_loop :: "HashQueue list \<Rightarrow> u32 \<Rightarrow> h256 option" where
  "hqc_index_loop [] index = None"
| "hqc_index_loop (q # qs) index =
     (if index < hq_len q then hq_index q index else hqc_index_loop qs (index - hq_len q))"

definition hqc_index :: "HashQueueChain \<Rightarrow> u32 \<Rightarrow> h256 option" where
  "hqc_index c index = hqc_index_loop (queues c) index"

section \<open>The queue interface\<close>

text \<open>
  What \<^verbatim>\<open>BestHeadersChain\<close>, \<^verbatim>\<open>HashQueueChain\<close> and \<^verbatim>\<open>Chain\<close> rely on: the queue is a duplicate-free
  list; a push of a known hash panics, everything else succeeds.
\<close>

definition position_in :: "h256 \<Rightarrow> h256 list \<Rightarrow> HashPosition" where
  "position_in h hs =
     (case find_pos h hs of None \<Rightarrow> Missing
      | Some i \<Rightarrow> if i = 0 then Front else Inside (of_nat i))"

locale hash_queue =
  fixes hashes :: "'q \<Rightarrow> h256 list"
    and inv :: "'q \<Rightarrow> bool"
    and new :: "'q"
    and contains :: "'q \<Rightarrow> h256 \<Rightarrow> bool"
    and push :: "'q \<Rightarrow> h256 \<Rightarrow> 'q option"
    and pop_front :: "'q \<Rightarrow> h256 option \<times> 'q"
    and pop_back :: "'q \<Rightarrow> h256 option \<times> 'q"
    and remove :: "'q \<Rightarrow> h256 \<Rightarrow> (HashPosition \<times> 'q) option"
  assumes inv_new: "inv new" and hashes_new: "hashes new = []"
    and inv_distinct: "inv q \<Longrightarrow> distinct (hashes q)"
    and contains_iff: "inv q \<Longrightarrow> contains q h \<longleftrightarrow> h \<in> set (hashes q)"
    and push_known: "inv q \<Longrightarrow> h \<in> set (hashes q) \<Longrightarrow> push q h = None"
    and push_new: "inv q \<Longrightarrow> h \<notin> set (hashes q) \<Longrightarrow>
          \<exists>q'. push q h = Some q' \<and> inv q' \<and> hashes q' = hashes q @ [h]"
    and pop_front_Nil: "inv q \<Longrightarrow> hashes q = [] \<Longrightarrow> pop_front q = (None, q)"
    and pop_front_Cons: "inv q \<Longrightarrow> hashes q = h # hs \<Longrightarrow>
          \<exists>q'. pop_front q = (Some h, q') \<and> inv q' \<and> hashes q' = hs"
    and pop_back_Nil: "inv q \<Longrightarrow> hashes q = [] \<Longrightarrow> pop_back q = (None, q)"
    and pop_back_snoc: "inv q \<Longrightarrow> hashes q = hs @ [h] \<Longrightarrow>
          \<exists>q'. pop_back q = (Some h, q') \<and> inv q' \<and> hashes q' = hs"
    and remove_ok: "inv q \<Longrightarrow>
          \<exists>q'. remove q h = Some (position_in h (hashes q), q') \<and> inv q' \<and>
               hashes q' = remove1 h (hashes q)"
begin

lemma push_all_new:
  "inv q \<Longrightarrow> distinct hs \<Longrightarrow> set hs \<inter> set (hashes q) = {} \<Longrightarrow>
   \<exists>q'. push_all push q hs = Some q' \<and> inv q' \<and> hashes q' = hashes q @ hs"
proof (induction hs arbitrary: q)
  case (Cons h hs)
  from Cons.prems push_new [of q h] obtain q1
    where q1: "push q h = Some q1" "inv q1" "hashes q1 = hashes q @ [h]" by auto
  with Cons.prems have "set hs \<inter> set (hashes q1) = {}" by auto
  with Cons.IH [of q1] Cons.prems q1 show ?case by auto
qed simp

lemma push_all_clash:
  "inv q \<Longrightarrow> \<not> (distinct hs \<and> set hs \<inter> set (hashes q) = {}) \<Longrightarrow> push_all push q hs = None"
proof (induction hs arbitrary: q)
  case (Cons h hs)
  show ?case
  proof (cases "h \<in> set (hashes q)")
    case True
    with Cons.prems push_known show ?thesis by simp
  next
    case False
    with Cons.prems push_new [of q h] obtain q1
      where q1: "push q h = Some q1" "inv q1" "hashes q1 = hashes q @ [h]" by auto
    with Cons.prems False have "\<not> (distinct hs \<and> set hs \<inter> set (hashes q1) = {})" by auto
    with Cons.IH [of q1] q1 show ?thesis by simp
  qed
qed simp

lemma push_all_iff:
  "inv q \<Longrightarrow> (push_all push q hs \<noteq> None) \<longleftrightarrow> distinct hs \<and> set hs \<inter> set (hashes q) = {}"
  using push_all_new push_all_clash by (metis option.distinct(1))

lemma pop_n_take:
  "inv q \<Longrightarrow> \<exists>q'. pop_n pop_front n q = (take n (hashes q), q') \<and> inv q' \<and>
     hashes q' = drop n (hashes q)"
proof (induction n arbitrary: q)
  case (Suc n)
  show ?case
  proof (cases "hashes q")
    case Nil
    with Suc.prems pop_front_Nil show ?thesis by auto
  next
    case (Cons h hs)
    with Suc.prems pop_front_Cons obtain q1
      where q1: "pop_front q = (Some h, q1)" "inv q1" "hashes q1 = hs" by blast
    with Suc.IH [of q1] Cons show ?thesis by auto
  qed
qed simp

text \<open>
  Moving the first hashes of one queue to the back of a disjoint one never panics and keeps
  the hashes of both together, in order.
\<close>

lemma requeue:
  assumes "inv a" "inv b" "set (hashes a) \<inter> set (hashes b) = {}"
  shows "\<exists>a' b'. pop_n pop_front n a = (take n (hashes a), a') \<and>
           push_all push b (take n (hashes a)) = Some b' \<and> inv a' \<and> inv b' \<and>
           hashes b' = hashes b @ take n (hashes a) \<and> hashes b' @ hashes a' = hashes b @ hashes a"
proof -
  from pop_n_take [OF assms(1)] obtain a' where
    a': "pop_n pop_front n a = (take n (hashes a), a')" "inv a'" "hashes a' = drop n (hashes a)"
    by blast
  have "distinct (take n (hashes a))" using inv_distinct [OF assms(1)] by simp
  moreover have "set (take n (hashes a)) \<inter> set (hashes b) = {}"
    using assms(3) set_take_subset [of n "hashes a"] by blast
  ultimately obtain b' where "push_all push b (take n (hashes a)) = Some b'" "inv b'"
    "hashes b' = hashes b @ take n (hashes a)"
    using push_all_new [OF assms(2)] by blast
  with a' show ?thesis by auto
qed

end

section \<open>The implementation meets the interface\<close>

definition hq_inv :: "HashQueue \<Rightarrow> bool" where
  "hq_inv q \<longleftrightarrow> distinct (queue q) \<and> hset q = set (queue q)"

lemma hq_remove_spec:
  assumes "hq_inv q"
  shows "\<exists>q'. hq_remove q h = Some (position_in h (queue q), q') \<and> hq_inv q' \<and>
           queue q' = remove1 h (queue q)"
proof (cases "find_pos h (queue q)")
  case None
  with assms have "h \<notin> set (queue q)" by simp
  with assms show ?thesis by (auto simp: hq_remove_def hq_inv_def position_in_def remove1_idem)
next
  case (Some i)
  from find_pos_Some [OF Some] have "h \<in> set (queue q)" by auto
  then obtain x xs where q: "queue q = x # xs" by (cases "queue q") auto
  show ?thesis
  proof (cases "x = h")
    case True
    with assms q \<open>h \<in> set (queue q)\<close> show ?thesis
      by (auto simp: hq_remove_def hq_inv_def position_in_def)
  next
    case False
    with Some q have "i \<noteq> 0" by auto
    with False assms Some q \<open>h \<in> set (queue q)\<close> take_drop_remove1 [OF Some] show ?thesis
      by (auto simp: hq_remove_def hq_inv_def position_in_def set_remove1_eq)
  qed
qed

interpretation hq: hash_queue queue hq_inv hq_new hq_contains hq_push_back hq_pop_front
  hq_pop_back hq_remove
proof unfold_locales
  fix q :: HashQueue and h hs
  show "hq_inv q \<Longrightarrow> h \<in> set (queue q) \<Longrightarrow> hq_push_back q h = None"
    by (simp add: hq_inv_def hq_push_back_def)
  show "hq_inv q \<Longrightarrow> h \<notin> set (queue q) \<Longrightarrow>
      \<exists>q'. hq_push_back q h = Some q' \<and> hq_inv q' \<and> queue q' = queue q @ [h]"
    by (simp add: hq_inv_def hq_push_back_def)
  show "hq_inv q \<Longrightarrow> queue q = h # hs \<Longrightarrow>
      \<exists>q'. hq_pop_front q = (Some h, q') \<and> hq_inv q' \<and> queue q' = hs"
    by (auto simp: hq_inv_def hq_pop_front_def)
  show "hq_inv q \<Longrightarrow> queue q = hs @ [h] \<Longrightarrow>
      \<exists>q'. hq_pop_back q = (Some h, q') \<and> hq_inv q' \<and> queue q' = hs"
    by (auto simp: hq_inv_def hq_pop_back_def)
  show "hq_inv q \<Longrightarrow> \<exists>q'. hq_remove q h = Some (position_in h (queue q), q') \<and> hq_inv q' \<and>
      queue q' = remove1 h (queue q)"
    by (rule hq_remove_spec)
qed (auto simp: hq_inv_def hq_new_def hq_contains_def hq_pop_front_def hq_pop_back_def)

lemma hq_position_eq: "hq_position q h = map_option of_nat (find_pos h (queue q))"
  by (simp add: hq_position_def filter_enumerate_find_pos split: option.split)

lemma hq_len_unat: "length (queue q) < 2 ^ 32 \<Longrightarrow> unat (hq_len q) = length (queue q)"
  by (simp add: hq_len_def)

lemma hq_inv_clear [simp]: "hq_inv (hq_clear q)" "queue (hq_clear q) = []"
  by (simp_all add: hq_inv_def hq_clear_def)

lemma hq_pop_front_n_spec:
  "hq_inv q \<Longrightarrow> \<exists>q'. hq_pop_front_n q n = (take (unat n) (queue q), q') \<and> hq_inv q' \<and>
     queue q' = drop (unat n) (queue q)"
  unfolding hq_pop_front_n_def by (rule hq.pop_n_take)

section \<open>Chains of queues\<close>

definition flat :: "HashQueueChain \<Rightarrow> h256 list" where
  "flat c = concat (map queue (queues c))"

definition hqc_inv :: "HashQueueChain \<Rightarrow> bool" where
  "hqc_inv c \<longleftrightarrow> list_all hq_inv (queues c) \<and> distinct (flat c)"

lemma hqc_at_loop_concat:
  "length (concat (map queue qs)) < 2 ^ 32 \<Longrightarrow>
   hqc_at_loop qs i = (if unat i < length (concat (map queue qs))
                       then Some (concat (map queue qs) ! unat i) else None)"
proof (induction qs arbitrary: i)
  case (Cons q qs)
  let ?r = "concat (map queue qs)"
  from Cons.prems have len: "unat (hq_len q) = length (queue q)" by (simp add: hq_len_unat)
  show ?case
  proof (cases "i < hq_len q")
    case True
    with len show ?thesis by (auto simp: hq_at_def word_less_nat_alt nth_append)
  next
    case False
    with len have ge: "length (queue q) \<le> unat i" by (simp add: word_less_nat_alt)
    with False len have "unat (i - hq_len q) = unat i - length (queue q)"
      by (simp add: unat_sub word_le_nat_alt)
    with Cons False ge show ?thesis by (auto simp: nth_append)
  qed
qed simp

lemma hqc_at_flat:
  "length (flat c) < 2 ^ 32 \<Longrightarrow>
   hqc_at c i = (if unat i < length (flat c) then Some (flat c ! unat i) else None)"
  unfolding hqc_at_def flat_def by (rule hqc_at_loop_concat)

lemma hqc_index_at: "hqc_index c i = hqc_at c i"
proof -
  have "hqc_index_loop qs i = hqc_at_loop qs i" for qs
    by (induction qs arbitrary: i) (simp_all add: hq_index_def hq_at_def)
  then show ?thesis by (simp add: hqc_index_def hqc_at_def)
qed

lemma hqc_len_flat: "hqc_len c = of_nat (length (flat c))"
proof -
  have "fold (\<lambda>q total. total + hq_len q) qs n = n + of_nat (length (concat (map queue qs)))" for qs n
    by (induction qs arbitrary: n) (simp_all add: hq_len_def)
  then show ?thesis by (simp add: hqc_len_def flat_def)
qed

lemma hqc_contains_in_loop_None:
  "list_all hq_inv qs \<Longrightarrow>
   hqc_contains_in_loop qs n h = None \<longleftrightarrow> h \<notin> set (concat (map queue qs))"
  by (induction qs arbitrary: n) (auto simp: hq.contains_iff)

lemma hqc_contains_in_loop_Some:
  "list_all hq_inv qs \<Longrightarrow> hqc_contains_in_loop qs n h = Some i \<Longrightarrow>
   \<exists>j < length qs. i = n + j \<and> h \<in> set (queue (qs ! j))"
proof (induction qs arbitrary: n)
  case (Cons q qs)
  show ?case
  proof (cases "hq_contains q h")
    case True
    with Cons.prems hq.contains_iff show ?thesis by auto
  next
    case False
    with Cons.prems have "hqc_contains_in_loop qs (Suc n) h = Some i" by simp
    with Cons.IH [of "Suc n"] Cons.prems obtain j
      where "j < length qs" "i = Suc n + j" "h \<in> set (queue (qs ! j))" by auto
    then show ?thesis by (intro exI [of _ "Suc j"]) simp
  qed
qed simp

lemma hqc_contains_in_cases:
  assumes "hqc_inv c"
  shows "case hqc_contains_in c h of
           None \<Rightarrow> h \<notin> set (flat c)
         | Some i \<Rightarrow> i < length (queues c) \<and> h \<in> set (queue (queues c ! i))"
  using assms hqc_contains_in_loop_None [of "queues c" 0 h]
    hqc_contains_in_loop_Some [of "queues c" 0 h]
  by (auto simp: hqc_inv_def hqc_contains_in_def flat_def split: option.split)

lemma hqc_back_three:
  "hqc_back \<lparr>queues = [a, b, c]\<rparr> =
     Some (case hq_back c of Some h \<Rightarrow> Some h | None \<Rightarrow> hq_back b)"
  by (simp add: hqc_back_def hqc_back_loop.simps [of _ "Suc (Suc 0)"]
      hqc_back_loop.simps [of _ "Suc 0"] split: option.split)

section \<open>Properties\<close>

text \<open>A well-formed chain of queues whose total length fits 32 bits is one list, the
  concatenation of the queues: \<^verbatim>\<open>len\<close> is its length, \<^verbatim>\<open>at\<close> and indexing read it (indexing panics out of
  range), and \<^verbatim>\<open>contains_in\<close> answers with a queue that holds the hash, or with nothing exactly
  when no queue does.
\<close>

theorem hash_queue_chain_is_list:
  assumes "hqc_inv c" "length (flat c) < 2 ^ 32"
  shows "unat (hqc_len c) = length (flat c) \<and>
    hqc_at c i = (if unat i < length (flat c) then Some (flat c ! unat i) else None) \<and>
    hqc_index c i = hqc_at c i \<and>
    (case hqc_contains_in c h of
       None \<Rightarrow> h \<notin> set (flat c)
     | Some k \<Rightarrow> k < length (queues c) \<and> h \<in> set (queue (queues c ! k)))"
  using hqc_contains_in_cases [OF assms(1), of h] hqc_at_flat hqc_index_at hqc_len_flat assms
  by simp

definition sample_chain :: HashQueueChain where
  "sample_chain = \<lparr>queues = [\<lparr>queue = [7], hset = {7}\<rparr>, hq_new, \<lparr>queue = [8, 9], hset = {8, 9}\<rparr>]\<rparr>"

theorem hash_queue_chain_is_list_witness: "hqc_at sample_chain 2 = Some 9"
  using hash_queue_chain_is_list [of sample_chain 2 0]
  by (simp add: sample_chain_def hqc_inv_def flat_def hq_inv_def hq_new_def)

text \<open>In the chain of three queues of the synchronization chain, \<^verbatim>\<open>back\<close> never looks at the first
  queue: when only that queue holds hashes it answers that there is no last hash.
\<close>

theorem hash_queue_chain_back_skips_first:
  "hqc_back \<lparr>queues = [a, b, c]\<rparr> =
     Some (case hq_back c of Some h \<Rightarrow> Some h | None \<Rightarrow> hq_back b) \<and>
   hqc_back \<lparr>queues = [\<lparr>queue = [7], hset = {7}\<rparr>, hq_new, hq_new]\<rparr> = Some None"
  by (simp only: hqc_back_three) (simp add: hq_back_def hq_new_def)

end
