(* ===== verification/Best_Headers.thy ===== *)
theory Best_Headers
  imports Hash_Queue Block_Types "HOL-Library.Monad_Syntax"
begin

text \<open>
  The chain of headers whose blocks are not stored yet (\<^verbatim>\<open>sync/src/utils/best_headers_chain.rs\<close>): a hash queue
  for the order and a map for the headers. Its abstraction is a list of headers, each the child of the one
  before; every operation is shown to implement an operation on that list.
\<close>

section \<open>BestHeadersChain\<close>

record BestHeadersInformation =
  bi_best :: u32
  bi_total :: u32

record BestHeadersChain =
  storage_best_hash :: h256
  bh_headers :: "(h256 \<times> IndexedBlockHeader) list"
  bh_best :: HashQueue

definition bhc_new :: "h256 \<Rightarrow> BestHeadersChain" where
  "bhc_new best_hash = \<lparr>storage_best_hash = best_hash, bh_headers = [], bh_best = hq_new\<rparr>"

definition bhc_information :: "BestHeadersChain \<Rightarrow> BestHeadersInformation" where
  "bhc_information c = \<lparr>bi_best = hq_len (bh_best c), bi_total = of_nat (length (bh_headers c))\<rparr>"

definition bhc_at :: "BestHeadersChain \<Rightarrow> u32 \<Rightarrow> IndexedBlockHeader option" where
  "bhc_at c height = Option.bind (hq_at (bh_best c) height) (map_of (bh_headers c))"

definition bhc_by_hash :: "BestHeadersChain \<Rightarrow> h256 \<Rightarrow> IndexedBlockHeader option" where
  "bhc_by_hash c h = map_of (bh_headers c) h"

definition bhc_height :: "BestHeadersChain \<Rightarrow> h256 \<Rightarrow> u32 option" where
  "bhc_height c h = hq_position (bh_best c) h"

definition bhc_children :: "BestHeadersChain \<Rightarrow> h256 \<Rightarrow> h256 list" where
  "bhc_children c h =
     (case do { pos \<leftarrow> hq_position (bh_best c) h; hq_at (bh_best c) (pos + 1) } of
        Some child \<Rightarrow> [child] | None \<Rightarrow> [])"

definition bhc_best_block_hash :: "BestHeadersChain \<Rightarrow> h256" where
  "bhc_best_block_hash c = (case hq_back (bh_best c) of Some h \<Rightarrow> h | None \<Rightarrow> storage_best_hash c)"

definition bhc_insert :: "BestHeadersChain \<Rightarrow> IndexedBlockHeader \<Rightarrow> BestHeadersChain option" where
  "bhc_insert c h =
     (if bhc_best_block_hash c = previous_header_hash (raw h)
      then do { q \<leftarrow> hq_push_back (bh_best c) (hash h);
                Some (c\<lparr>bh_headers := AList.update (hash h) h (bh_headers c), bh_best := q\<rparr>) }
      else Some c)"

fun bhc_insert_n :: "BestHeadersChain \<Rightarrow> IndexedBlockHeader list \<Rightarrow> BestHeadersChain option" where
  "bhc_insert_n c [] = Some c"
| "bhc_insert_n c (h # hs) = do { c \<leftarrow> bhc_insert c h; bhc_insert_n c hs }"

definition bhc_clear :: "BestHeadersChain \<Rightarrow> BestHeadersChain" where
  "bhc_clear c = c\<lparr>bh_headers := [], bh_best := hq_clear (bh_best c)\<rparr>"

function bhc_pop_to :: "BestHeadersChain \<Rightarrow> u32 \<Rightarrow> BestHeadersChain option" where
  "bhc_pop_to c position =
     (if hq_len (bh_best c) > position
      then case hq_pop_back (bh_best c) of
             (None, _) \<Rightarrow> None
           | (Some h, q) \<Rightarrow>
               bhc_pop_to (c\<lparr>bh_best := q, bh_headers := AList.delete h (bh_headers c)\<rparr>) position
      else Some c)"
  by pat_completeness auto
termination
  by (relation "measure (\<lambda>(c, _). length (queue (bh_best c)))")
    (auto simp: hq_pop_back_def Let_def split: if_splits)

declare bhc_pop_to.simps [simp del]

definition bhc_clear_after :: "BestHeadersChain \<Rightarrow> u32 \<Rightarrow> BestHeadersChain option" where
  "bhc_clear_after c position = (if position = 0 then Some (bhc_clear c) else bhc_pop_to c position)"

definition bhc_remove :: "BestHeadersChain \<Rightarrow> h256 \<Rightarrow> BestHeadersChain option" where
  "bhc_remove c h =
     (if map_of (bh_headers c) h = None then Some c
      else do {
        (pos, q) \<leftarrow> hq_remove (bh_best c) h;
        let c = c\<lparr>bh_headers := AList.delete h (bh_headers c), bh_best := q\<rparr>;
        case pos of
          Front \<Rightarrow> Some (bhc_clear c)
        | Inside position \<Rightarrow> bhc_clear_after c position
        | Missing \<Rightarrow> Some c })"

fun bhc_remove_n :: "BestHeadersChain \<Rightarrow> h256 list \<Rightarrow> BestHeadersChain option" where
  "bhc_remove_n c [] = Some c"
| "bhc_remove_n c (h # hs) = do { c \<leftarrow> bhc_remove c h; bhc_remove_n c hs }"

definition bhc_block_inserted_to_storage :: "BestHeadersChain \<Rightarrow> h256 \<Rightarrow> h256 \<Rightarrow> BestHeadersChain" where
  "bhc_block_inserted_to_storage c h best_hash =
     (let c = (if hq_front (bh_best c) = Some h
               then c\<lparr>bh_best := snd (hq_pop_front (bh_best c)), bh_headers := AList.delete h (bh_headers c)\<rparr>
               else c)
      in c\<lparr>storage_best_hash := best_hash\<rparr>)"

section \<open>The list of headers a chain stands for\<close>

abbreviation parent_of :: "IndexedBlockHeader \<Rightarrow> h256" where
  "parent_of h \<equiv> previous_header_hash (raw h)"

definition headers_linked :: "IndexedBlockHeader list \<Rightarrow> bool" where
  "headers_linked hs \<longleftrightarrow> successively (\<lambda>a b. parent_of b = hash a) hs"

definition header_map :: "IndexedBlockHeader list \<Rightarrow> h256 \<Rightarrow> IndexedBlockHeader option" where
  "header_map hs = map_of (map (\<lambda>h. (hash h, h)) hs)"

definition bhc_rel :: "BestHeadersChain \<Rightarrow> IndexedBlockHeader list \<Rightarrow> bool" where
  "bhc_rel c hs \<longleftrightarrow>
     hq_inv (bh_best c) \<and> queue (bh_best c) = map hash hs \<and> distinct (map fst (bh_headers c)) \<and>
     map_of (bh_headers c) = header_map hs \<and> headers_linked hs \<and> length hs < 2 ^ 32"

lemma bhc_rel_distinct: "bhc_rel c hs \<Longrightarrow> distinct (map hash hs)"
  using hq.inv_distinct by (metis bhc_rel_def)

lemma header_map_simps [simp]:
  "header_map [] = Map.empty" "header_map (h # hs) = (header_map hs)(hash h \<mapsto> h)"
  by (simp_all add: header_map_def)

lemma header_map_dom: "dom (header_map hs) = hash ` set hs"
  by (simp add: header_map_def dom_map_of_conv_image_fst image_image)

lemma header_map_append: "header_map (xs @ ys) = header_map ys ++ header_map xs"
  by (simp add: header_map_def)

lemma header_map_nth:
  "distinct (map hash hs) \<Longrightarrow> i < length hs \<Longrightarrow> header_map hs (hash (hs ! i)) = Some (hs ! i)"
  unfolding header_map_def by (rule map_of_is_SomeI) (auto simp: comp_def)

lemma header_map_restrict:
  assumes "distinct (map hash (xs @ ys))" "K = hash ` set ys"
  shows "header_map (xs @ ys) |` (- K) = header_map xs"
proof
  fix k
  have "k \<notin> hash ` set xs \<Longrightarrow> header_map xs k = None" "k \<notin> hash ` set ys \<Longrightarrow> header_map ys k = None"
    using header_map_dom [of xs] header_map_dom [of ys] by blast+
  moreover have "k \<in> hash ` set ys \<Longrightarrow> k \<notin> hash ` set xs" using assms(1) by auto
  ultimately show "(header_map (xs @ ys) |` (- K)) k = header_map xs k"
    using assms(2)
    by (cases "k \<in> hash ` set ys") (auto simp: restrict_map_def header_map_append map_add_def split: option.split)
qed

lemma headers_linked_snoc:
  "headers_linked (hs @ [h]) \<longleftrightarrow> headers_linked hs \<and> (hs \<noteq> [] \<longrightarrow> parent_of h = hash (last hs))"
  by (auto simp: headers_linked_def successively_append_iff)

lemma headers_linked_appendD: "headers_linked (xs @ ys) \<Longrightarrow> headers_linked xs \<and> headers_linked ys"
  by (simp add: headers_linked_def successively_append_iff)

lemma bhc_best_block_hash_eq:
  "bhc_rel c hs \<Longrightarrow> bhc_best_block_hash c = (if hs = [] then storage_best_hash c else hash (last hs))"
  by (auto simp: bhc_best_block_hash_def bhc_rel_def hq_back_def last_map)

lemma bhc_new_ok: "bhc_rel (bhc_new h) []"
  by (simp add: bhc_rel_def bhc_new_def hq.inv_new hq.hashes_new headers_linked_def)

lemma bhc_clear_ok: "bhc_rel (bhc_clear c) []"
  by (simp add: bhc_rel_def bhc_clear_def headers_linked_def)

lemma bhc_queries:
  assumes "bhc_rel c hs"
  shows "bhc_at c n = (if unat n < length hs then Some (hs ! unat n) else None)"
    "bhc_by_hash c h = header_map hs h"
    "bhc_height c h = map_option of_nat (find_pos h (map hash hs))"
    "bhc_information c = \<lparr>bi_best = of_nat (length hs), bi_total = of_nat (length hs)\<rparr>"
proof -
  have q: "queue (bh_best c) = map hash hs" "map_of (bh_headers c) = header_map hs"
    "distinct (map fst (bh_headers c))" using assms by (simp_all add: bhc_rel_def)
  show "bhc_at c n = (if unat n < length hs then Some (hs ! unat n) else None)"
    using header_map_nth [OF bhc_rel_distinct [OF assms]] by (simp add: bhc_at_def hq_at_def q)
  show "bhc_by_hash c h = header_map hs h" by (simp add: bhc_by_hash_def q)
  show "bhc_height c h = map_option of_nat (find_pos h (map hash hs))"
    by (simp add: bhc_height_def hq_position_eq q)
  have "length (bh_headers c) = card (dom (map_of (bh_headers c)))"
    using q(3) by (metis card_length distinct_card dom_map_of_conv_image_fst length_map set_map)
  also have "\<dots> = length hs"
    using bhc_rel_distinct [OF assms] by (metis distinct_card header_map_dom length_map q(2) set_map)
  finally show "bhc_information c = \<lparr>bi_best = of_nat (length hs), bi_total = of_nat (length hs)\<rparr>"
    by (simp add: bhc_information_def hq_len_def q)
qed

section \<open>The operations on the list\<close>

lemma bhc_insert_ok:
  assumes c: "bhc_rel c hs" and new: "hash h \<notin> hash ` set hs" and len: "Suc (length hs) < 2 ^ 32"
  shows "\<exists>c'. bhc_insert c h = Some c' \<and> storage_best_hash c' = storage_best_hash c \<and>
    bhc_rel c' (if parent_of h = bhc_best_block_hash c then hs @ [h] else hs)"
proof (cases "parent_of h = bhc_best_block_hash c")
  case True
  have q: "hq_inv (bh_best c)" "queue (bh_best c) = map hash hs" using c by (simp_all add: bhc_rel_def)
  from hq.push_new [OF q(1), of "hash h"] new q(2) obtain q' where
    q': "hq_push_back (bh_best c) (hash h) = Some q'" "hq_inv q'" "queue q' = map hash hs @ [hash h]" by auto
  have "header_map hs (hash h) = None" using new header_map_dom [of hs] by blast
  then have "(header_map hs)(hash h \<mapsto> h) = header_map (hs @ [h])"
    by (auto simp: fun_eq_iff header_map_append map_add_def split: option.split)
  moreover have "headers_linked (hs @ [h])"
    using c True bhc_best_block_hash_eq [OF c] by (auto simp: headers_linked_snoc bhc_rel_def)
  ultimately show ?thesis
    using c True q' len by (auto simp: bhc_insert_def bhc_rel_def intro: distinct_update)
qed (use c in \<open>simp add: bhc_insert_def\<close>)

text \<open>The only panic: a child of the best header whose own hash is already in the queue.\<close>

lemma bhc_insert_panics:
  assumes "bhc_rel c hs"
  shows "bhc_insert c h = None \<longleftrightarrow> parent_of h = bhc_best_block_hash c \<and> hash h \<in> hash ` set hs"
  using assms hq.push_known [of "bh_best c" "hash h"] hq.push_new [of "bh_best c" "hash h"]
  by (cases "hash h \<in> hash ` set hs") (auto simp: bhc_insert_def bhc_rel_def)

lemma bhc_pop_to_ok:
  "hq_inv (bh_best c) \<Longrightarrow> distinct (map fst (bh_headers c)) \<Longrightarrow> length (queue (bh_best c)) < 2 ^ 32 \<Longrightarrow>
   \<exists>c'. bhc_pop_to c n = Some c' \<and> storage_best_hash c' = storage_best_hash c \<and> hq_inv (bh_best c') \<and>
     queue (bh_best c') = take (unat n) (queue (bh_best c)) \<and> distinct (map fst (bh_headers c')) \<and>
     map_of (bh_headers c') = map_of (bh_headers c) |` (- set (drop (unat n) (queue (bh_best c))))"
proof (induction "length (queue (bh_best c))" arbitrary: c rule: less_induct)
  case less
  let ?q = "queue (bh_best c)"
  have len: "n < hq_len (bh_best c) \<longleftrightarrow> unat n < length ?q"
    using hq_len_unat [OF less.prems(3)] by (simp add: word_less_nat_alt)
  show ?case
  proof (cases "unat n < length ?q")
    case False
    then show ?thesis using less.prems len by (subst bhc_pop_to.simps) (simp add: restrict_map_def)
  next
    case True
    then obtain xs x where x: "?q = xs @ [x]" by (cases ?q rule: rev_cases) auto
    from hq.pop_back_snoc [OF less.prems(1) x] obtain q where
      q: "hq_pop_back (bh_best c) = (Some x, q)" "hq_inv q" "queue q = xs" by blast
    let ?c = "c\<lparr>bh_best := q, bh_headers := AList.delete x (bh_headers c)\<rparr>"
    have step: "bhc_pop_to c n = bhc_pop_to ?c n"
      using True len q(1) by (subst bhc_pop_to.simps) simp
    have "distinct (map fst (bh_headers ?c))" using less.prems(2) by (simp add: distinct_delete)
    with less.hyps [of ?c] less.prems q x obtain c' where
      c': "bhc_pop_to ?c n = Some c'" "storage_best_hash c' = storage_best_hash c" "hq_inv (bh_best c')"
        "queue (bh_best c') = take (unat n) xs" "distinct (map fst (bh_headers c'))"
        "map_of (bh_headers c') = (map_of (bh_headers c))(x := None) |` (- set (drop (unat n) xs))"
      by auto
    have "(map_of (bh_headers c))(x := None) |` (- set (drop (unat n) xs)) =
        map_of (bh_headers c) |` (- set (drop (unat n) ?q))"
      using True x by (auto simp: fun_eq_iff restrict_map_def)
    with c' step True x show ?thesis by auto
  qed
qed

lemma takeWhile_find_pos:
  "find_pos k (map f xs) = Some i \<Longrightarrow> takeWhile (\<lambda>x. f x \<noteq> k) xs = take i xs"
  by (induction xs arbitrary: i) (auto split: if_splits)

text \<open>Removing a header removes everything after it.\<close>

lemma bhc_remove_ok:
  assumes c: "bhc_rel c hs"
  shows "\<exists>c'. bhc_remove c k = Some c' \<and> storage_best_hash c' = storage_best_hash c \<and>
    bhc_rel c' (takeWhile (\<lambda>h. hash h \<noteq> k) hs)"
proof (cases "find_pos k (map hash hs)")
  case None
  then have k: "k \<notin> hash ` set hs" by simp
  have "map_of (bh_headers c) k = None" using k c header_map_dom [of hs] by (auto simp: bhc_rel_def)
  moreover have tw: "takeWhile (\<lambda>h. hash h \<noteq> k) hs = hs" using k by (auto simp: takeWhile_eq_all_conv)
  ultimately show ?thesis using c unfolding tw by (simp add: bhc_remove_def)
next
  case (Some i)
  note tw = takeWhile_find_pos [OF Some]
  have r: "hq_inv (bh_best c)" "queue (bh_best c) = map hash hs" "map_of (bh_headers c) = header_map hs"
    "distinct (map fst (bh_headers c))" "length hs < 2 ^ 32" "headers_linked hs"
    using c by (simp_all add: bhc_rel_def)
  note d = bhc_rel_distinct [OF c]
  have i: "i < length hs" "hash (hs ! i) = k" using find_pos_Some [OF Some] by auto
  have stored: "map_of (bh_headers c) k \<noteq> None" using header_map_nth [OF d i(1)] i(2) r(3) by simp
  from hq_remove_spec [OF r(1), of k] obtain q where
    q: "hq_remove (bh_best c) k = Some (position_in k (map hash hs), q)" "hq_inv q"
      "queue q = remove1 k (map hash hs)" by (auto simp: r(2))
  have pos: "position_in k (map hash hs) = (if i = 0 then Front else Inside (of_nat i))"
    by (simp add: position_in_def Some)
  have ui: "unat (of_nat i :: u32) = i" using i(1) r(5) by simp
  then have i0: "(of_nat i :: u32) = 0 \<longleftrightarrow> i = 0" by (auto simp: unat_eq_0)
  let ?c = "c\<lparr>bh_headers := AList.delete k (bh_headers c), bh_best := q\<rparr>"
  have rem: "bhc_remove c k = (if i = 0 then Some (bhc_clear ?c) else bhc_pop_to ?c (of_nat i))"
    using stored q(1) pos i0 by (auto simp: bhc_remove_def bhc_clear_after_def Let_def)
  show ?thesis
  proof (cases "i = 0")
    case True
    with rem tw show ?thesis using bhc_clear_ok [of ?c] by (simp add: bhc_clear_def)
  next
    case False
    have qi: "queue q = map hash (take i hs @ drop (Suc i) hs)"
      using take_drop_remove1 [OF Some] q(3) by (simp add: take_map drop_map)
    then have td: "take i (queue q) = map hash (take i hs)" "drop i (queue q) = map hash (drop (Suc i) hs)"
      using i(1) by simp_all
    have len: "length (queue q) < 2 ^ 32" using r(5) i(1) by (simp add: qi)
    have "distinct (map fst (AList.delete k (bh_headers c)))" using r(4) by (rule distinct_delete)
    with bhc_pop_to_ok [of ?c "of_nat i"] q(2) len obtain c' where
      "bhc_pop_to ?c (of_nat i) = Some c'" "storage_best_hash c' = storage_best_hash c" "hq_inv (bh_best c')"
      "queue (bh_best c') = take i (queue q)" "distinct (map fst (bh_headers c'))"
      "map_of (bh_headers c') = map_of (AList.delete k (bh_headers c)) |` (- set (drop i (queue q)))"
      unfolding ui by auto
    then have c': "bhc_pop_to ?c (of_nat i) = Some c'" "storage_best_hash c' = storage_best_hash c"
      "hq_inv (bh_best c')" "queue (bh_best c') = map hash (take i hs)" "distinct (map fst (bh_headers c'))"
      "map_of (bh_headers c') = (header_map hs)(k := None) |` (- hash ` set (drop (Suc i) hs))"
      by (simp_all add: td r(3))
    have "(header_map hs)(k := None) |` (- hash ` set (drop (Suc i) hs)) =
        header_map (take i hs @ drop i hs) |` (- hash ` set (drop i hs))"
    proof -
      have "set (map hash (drop i hs)) = insert k (hash ` set (drop (Suc i) hs))"
        by (simp flip: Cons_nth_drop_Suc [OF i(1)] i(2))
      then show ?thesis unfolding append_take_drop_id set_map by (auto simp: fun_eq_iff restrict_map_def)
    qed
    also have "\<dots> = header_map (take i hs)" by (rule header_map_restrict) (simp_all add: d)
    finally have "map_of (bh_headers c') = header_map (take i hs)" using c'(6) by simp
    moreover have "headers_linked (take i hs)"
      using headers_linked_appendD [of "take i hs" "drop i hs"] r(6) by simp
    ultimately show ?thesis using rem False tw c' r(5) by (auto simp: bhc_rel_def)
  qed
qed

lemma bhc_block_inserted_ok:
  assumes c: "bhc_rel c hs"
  shows "bhc_rel (bhc_block_inserted_to_storage c k b) (if hs \<noteq> [] \<and> hash (hd hs) = k then tl hs else hs)"
    "storage_best_hash (bhc_block_inserted_to_storage c k b) = b"
proof -
  have r: "hq_inv (bh_best c)" "queue (bh_best c) = map hash hs" "map_of (bh_headers c) = header_map hs"
    "distinct (map fst (bh_headers c))" "length hs < 2 ^ 32" "headers_linked hs"
    using c by (simp_all add: bhc_rel_def)
  show "storage_best_hash (bhc_block_inserted_to_storage c k b) = b"
    by (simp add: bhc_block_inserted_to_storage_def Let_def)
  show "bhc_rel (bhc_block_inserted_to_storage c k b) (if hs \<noteq> [] \<and> hash (hd hs) = k then tl hs else hs)"
  proof (cases "hs \<noteq> [] \<and> hash (hd hs) = k")
    case False
    then have "hq_front (bh_best c) \<noteq> Some k" by (cases hs) (simp_all add: hq_front_def r(2))
    with c False show ?thesis by (auto simp: bhc_block_inserted_to_storage_def bhc_rel_def)
  next
    case True
    then obtain h t where h: "hs = h # t" "hash h = k" by (cases hs) auto
    from hq.pop_front_Cons [OF r(1), of k "map hash t"] h r(2) obtain q where
      q: "hq_pop_front (bh_best c) = (Some k, q)" "hq_inv q" "queue q = map hash t" by auto
    have "k \<notin> hash ` set t" using bhc_rel_distinct [OF c] h by auto
    then have "header_map t k = None" using header_map_dom [of t] by blast
    then have "(header_map hs)(k := None) = header_map t" using h by (auto simp: fun_eq_iff)
    moreover have "headers_linked t" using r(6) headers_linked_appendD [of "[h]" t] h by simp
    moreover have "hq_front (bh_best c) = Some k" using h by (simp add: hq_front_def r(2))
    ultimately show ?thesis
      using h q r by (auto simp: bhc_block_inserted_to_storage_def bhc_rel_def distinct_delete)
  qed
qed

lemma bhc_children_ok:
  assumes c: "bhc_rel c hs"
  shows "bhc_children c k =
    (case find_pos k (map hash hs) of
       Some i \<Rightarrow> if Suc i < length hs then [hash (hs ! Suc i)] else []
     | None \<Rightarrow> [])"
proof (cases "find_pos k (map hash hs)")
  case None
  with c show ?thesis by (simp add: bhc_children_def hq_position_eq bhc_rel_def)
next
  case (Some i)
  have r: "queue (bh_best c) = map hash hs" "length hs < 2 ^ 32" using c by (simp_all add: bhc_rel_def)
  have i: "i < length hs" using find_pos_Some [OF Some] by simp
  have "hq_at (bh_best c) (of_nat i + 1) = (if Suc i < length hs then Some (hash (hs ! Suc i)) else None)"
  proof (cases "Suc i < 2 ^ 32")
    case True
    have "unat (of_nat (Suc i) :: u32) = Suc i" using True by (rule unat_of_nat_u32)
    then have "unat (of_nat i + 1 :: u32) = Suc i" by (simp add: add.commute)
    then show ?thesis by (simp add: hq_at_def r)
  qed (use i r in simp)
  then show ?thesis by (simp add: bhc_children_def hq_position_eq r Some)
qed

lemma bhc_insert_n_linked:
  assumes "bhc_rel c hs" "headers_linked ns" "ns \<noteq> [] \<longrightarrow> parent_of (hd ns) = bhc_best_block_hash c"
    and "distinct (map hash (hs @ ns))" "length (hs @ ns) < 2 ^ 32"
  shows "\<exists>c'. bhc_insert_n c ns = Some c' \<and> storage_best_hash c' = storage_best_hash c \<and> bhc_rel c' (hs @ ns)"
  using assms
proof (induction ns arbitrary: c hs)
  case (Cons n ns)
  from Cons.prems(4) have n: "hash n \<notin> hash ` set hs" by auto
  from bhc_insert_ok [OF Cons.prems(1) n] Cons.prems(3,5) obtain c1 where
    c1: "bhc_insert c n = Some c1" "storage_best_hash c1 = storage_best_hash c" "bhc_rel c1 (hs @ [n])" by auto
  have ns: "headers_linked ns" "ns \<noteq> [] \<longrightarrow> parent_of (hd ns) = hash n"
    using Cons.prems(2) by (cases ns; simp add: headers_linked_def)+
  with Cons.IH [OF c1(3) ns(1)] c1 Cons.prems(4,5) bhc_best_block_hash_eq [OF c1(3)] show ?case by auto
qed simp

section \<open>Reachable header chains\<close>

text \<open>
  The states the chain can be in after any sequence of its mutating operations, as long as it holds fewer
  than \<open>2 ^ 32 - 1\<close> headers.
\<close>

inductive bhc_reachable :: "BestHeadersChain \<Rightarrow> bool" where
  reach_new: "bhc_reachable (bhc_new h)"
| reach_insert: "bhc_reachable c \<Longrightarrow> length (queue (bh_best c)) < 2 ^ 32 - 1 \<Longrightarrow> bhc_insert c h = Some c' \<Longrightarrow>
    bhc_reachable c'"
| reach_remove: "bhc_reachable c \<Longrightarrow> bhc_remove c k = Some c' \<Longrightarrow> bhc_reachable c'"
| reach_inserted: "bhc_reachable c \<Longrightarrow> bhc_reachable (bhc_block_inserted_to_storage c k b)"
| reach_clear: "bhc_reachable c \<Longrightarrow> bhc_reachable (bhc_clear c)"

lemma bhc_reachable_rel: "bhc_reachable c \<Longrightarrow> \<exists>hs. bhc_rel c hs"
proof (induction rule: bhc_reachable.induct)
  case (reach_insert c h c')
  then obtain hs where hs: "bhc_rel c hs" by blast
  show ?case
  proof (cases "hash h \<in> hash ` set hs")
    case True
    with reach_insert.hyps(3) bhc_insert_panics [OF hs, of h] have "c' = c"
      by (auto simp: bhc_insert_def split: if_splits)
    with hs show ?thesis by blast
  next
    case False
    have "Suc (length hs) < 2 ^ 32" using hs reach_insert.hyps(2) by (simp add: bhc_rel_def)
    from bhc_insert_ok [OF hs False this] reach_insert.hyps(3) show ?thesis by auto
  qed
next
  case (reach_remove c k c')
  then obtain hs where "bhc_rel c hs" by blast
  from bhc_remove_ok [OF this, of k] reach_remove.hyps(2) show ?case by auto
next
  case (reach_inserted c k b)
  then obtain hs where "bhc_rel c hs" by blast
  from bhc_block_inserted_ok(1) [OF this] show ?case by blast
qed (use bhc_new_ok bhc_clear_ok in blast)+

text \<open>In every reachable state the queue and the map of the headers chain hold the same headers, each queued
  header is the child of the one before it, looking a queued header up by its position and by its hash gives the
  same header, and removal of any header never panics and cuts the chain right before it.\<close>

theorem headers_chain_consistent:
  assumes "bhc_reachable c"
  shows "\<exists>hs. queue (bh_best c) = map hash hs \<and> distinct (map hash hs) \<and> headers_linked hs \<and>
    (\<forall>n. bhc_at c n = (if unat n < length hs then Some (hs ! unat n) else None)) \<and>
    (\<forall>i < length hs. bhc_by_hash c (hash (hs ! i)) = Some (hs ! i)) \<and>
    (\<forall>k. k \<notin> hash ` set hs \<longrightarrow> bhc_by_hash c k = None) \<and>
    bi_total (bhc_information c) = bi_best (bhc_information c) \<and>
    (\<forall>k. \<exists>c'. bhc_remove c k = Some c' \<and> queue (bh_best c') = map hash (takeWhile (\<lambda>h. hash h \<noteq> k) hs))"
proof -
  from bhc_reachable_rel [OF assms] obtain hs where hs: "bhc_rel c hs" by blast
  note d = bhc_rel_distinct [OF hs]
  have "k \<notin> hash ` set hs \<Longrightarrow> bhc_by_hash c k = None" for k
    unfolding bhc_queries(2) [OF hs] using header_map_dom [of hs] by blast
  moreover have "\<exists>c'. bhc_remove c k = Some c' \<and>
      queue (bh_best c') = map hash (takeWhile (\<lambda>h. hash h \<noteq> k) hs)" for k
    using bhc_remove_ok [OF hs, of k] by (auto simp: bhc_rel_def)
  ultimately show ?thesis
    using hs d header_map_nth [OF d] by (intro exI [of _ hs]) (simp add: bhc_queries [OF hs] bhc_rel_def)
qed

theorem headers_chain_consistent_witness:
  "\<exists>c hs. bhc_insert (bhc_new 2) \<lparr>hash = 3, raw = sample_header\<rparr> = Some c \<and> queue (bh_best c) = [3] \<and>
     queue (bh_best c) = map hash hs \<and> headers_linked hs"
proof -
  let ?h = "\<lparr>hash = 3, raw = sample_header\<rparr>"
  have "bhc_best_block_hash (bhc_new 2) = parent_of ?h"
    unfolding bhc_best_block_hash_eq [OF bhc_new_ok] by (simp add: bhc_new_def sample_header_def)
  with bhc_insert_ok [OF bhc_new_ok, of ?h 2] obtain c where
    c: "bhc_insert (bhc_new 2) ?h = Some c" "bhc_rel c [?h]" by auto
  have "bhc_reachable c"
    by (rule reach_insert [OF reach_new _ c(1)]) (simp add: bhc_new_def hq_new_def)
  from headers_chain_consistent [OF this] obtain hs where "queue (bh_best c) = map hash hs" "headers_linked hs"
    by blast
  moreover have "queue (bh_best c) = [3]" using c(2) by (simp add: bhc_rel_def)
  ultimately show ?thesis using c(1) by blast
qed

end
