(* ===== verification/Kv_Store.thy ===== *)
theory Kv_Store
  imports Block_Types
begin

text \<open>
  The key-value layer of the database (\<^verbatim>\<open>db/src/kv\<close>): keys, values and transactions, the in-memory
  database, the two overlay databases, the block cache and the disk database.

  A database type of the Rust code implements the trait \<^verbatim>\<open>KeyValueDatabase\<close>; here its two methods
  are the fields of a \<open>kv_ops\<close> record, and the databases that wrap another one take that record as
  an argument. The locale \<open>kv_database\<close> is the contract: a write applies the operations of the
  transaction, in order, to the map of keys to values that reads observe (\<open>kv_view\<close>). Every
  database of the directory is shown to satisfy it, the wrappers for every database that does.
\<close>

section \<open>Keys, values and transactions\<close>

datatype KeyValue =
    Meta string bytes
  | BlockHash u32 h256
  | BlockData h256 Block
  | BlockNumber h256 u32
  | Configuration string bytes

datatype Key =
    KMeta string
  | KBlockHash u32
  | KBlock h256
  | KBlockNumber h256
  | KConfiguration string

datatype Value =
    VMeta bytes
  | VBlockHash h256
  | VBlock Block
  | VBlockNumber u32
  | VConfiguration bytes

datatype Operation = Insert KeyValue | Delete Key

type_synonym Transaction = "Operation list"

fun as_meta :: "Value \<Rightarrow> bytes option" where
  "as_meta (VMeta bs) = Some bs"
| "as_meta _ = None"

fun as_block_hash :: "Value \<Rightarrow> h256 option" where
  "as_block_hash (VBlockHash h) = Some h"
| "as_block_hash _ = None"

fun as_block :: "Value \<Rightarrow> Block option" where
  "as_block (VBlock b) = Some b"
| "as_block _ = None"

fun as_block_number :: "Value \<Rightarrow> u32 option" where
  "as_block_number (VBlockNumber n) = Some n"
| "as_block_number _ = None"

fun as_configuration :: "Value \<Rightarrow> bytes option" where
  "as_configuration (VConfiguration bs) = Some bs"
| "as_configuration _ = None"

datatype 'v KeyState = KInsert 'v | KDelete | KUnknown

fun key_state_map :: "('v \<Rightarrow> 'u) \<Rightarrow> 'v KeyState \<Rightarrow> 'u KeyState" where
  "key_state_map f (KInsert v) = KInsert (f v)"
| "key_state_map f KDelete = KDelete"
| "key_state_map f KUnknown = KUnknown"

fun into_option :: "'v KeyState \<Rightarrow> 'v option" where
  "into_option (KInsert v) = Some v"
| "into_option KDelete = None"
| "into_option KUnknown = None"

fun into_operation ::
  "'v KeyState \<Rightarrow> 'k \<Rightarrow> ('k \<Rightarrow> 'v \<Rightarrow> KeyValue) \<Rightarrow> ('k \<Rightarrow> Key) \<Rightarrow> Operation option" where
  "into_operation (KInsert v) k ins del = Some (Insert (ins k v))"
| "into_operation KDelete k ins del = Some (Delete (del k))"
| "into_operation KUnknown k ins del = None"

definition tx_insert :: "KeyValue \<Rightarrow> Transaction \<Rightarrow> Transaction" where
  "tx_insert kv tx = tx @ [Insert kv]"

definition tx_delete :: "Key \<Rightarrow> Transaction \<Rightarrow> Transaction" where
  "tx_delete k tx = tx @ [Delete k]"

section \<open>The trait and its specification\<close>

record 'd kv_ops =
  kv_write :: "'d \<Rightarrow> Transaction \<Rightarrow> 'd \<times> (string + unit)"
  kv_get :: "'d \<Rightarrow> Key \<Rightarrow> string + Value KeyState"

fun kv_key :: "KeyValue \<Rightarrow> Key" where
  "kv_key (Meta k v) = KMeta k"
| "kv_key (BlockHash k v) = KBlockHash k"
| "kv_key (BlockData k v) = KBlock k"
| "kv_key (BlockNumber k v) = KBlockNumber k"
| "kv_key (Configuration k v) = KConfiguration k"

fun kv_value :: "KeyValue \<Rightarrow> Value" where
  "kv_value (Meta k v) = VMeta v"
| "kv_value (BlockHash k v) = VBlockHash v"
| "kv_value (BlockData k v) = VBlock v"
| "kv_value (BlockNumber k v) = VBlockNumber v"
| "kv_value (Configuration k v) = VConfiguration v"

fun value_for :: "Key \<Rightarrow> Value \<Rightarrow> bool" where
  "value_for (KMeta k) v = (as_meta v \<noteq> None)"
| "value_for (KBlockHash k) v = (as_block_hash v \<noteq> None)"
| "value_for (KBlock k) v = (as_block v \<noteq> None)"
| "value_for (KBlockNumber k) v = (as_block_number v \<noteq> None)"
| "value_for (KConfiguration k) v = (as_configuration v \<noteq> None)"

text \<open>What a reader of the database sees, and the effect a transaction has on it.\<close>

definition kv_view :: "'d kv_ops \<Rightarrow> 'd \<Rightarrow> Key \<Rightarrow> Value option" where
  "kv_view ops d k = (case kv_get ops d k of Inl _ \<Rightarrow> None | Inr s \<Rightarrow> into_option s)"

fun apply_op :: "Operation \<Rightarrow> (Key \<Rightarrow> Value option) \<Rightarrow> Key \<Rightarrow> Value option" where
  "apply_op (Insert kv) m = m(kv_key kv := Some (kv_value kv))"
| "apply_op (Delete k) m = m(k := None)"

definition apply_tx :: "Transaction \<Rightarrow> (Key \<Rightarrow> Value option) \<Rightarrow> Key \<Rightarrow> Value option" where
  "apply_tx tx m = fold apply_op tx m"

section \<open>The in-memory database\<close>

record MemoryDatabase =
  mem_meta :: "(string \<times> bytes KeyState) list"
  mem_block_hash :: "(u32 \<times> h256 KeyState) list"
  mem_block :: "(h256 \<times> Block KeyState) list"
  mem_block_number :: "(h256 \<times> u32 KeyState) list"
  mem_configuration :: "(string \<times> bytes KeyState) list"

definition memory_default :: MemoryDatabase where
  "memory_default = \<lparr>mem_meta = [], mem_block_hash = [], mem_block = [], mem_block_number = [],
                     mem_configuration = []\<rparr>"

definition column_operations ::
  "('k \<Rightarrow> 'v \<Rightarrow> KeyValue) \<Rightarrow> ('k \<Rightarrow> Key) \<Rightarrow> ('k \<times> 'v KeyState) list \<Rightarrow> Operation list" where
  "column_operations ins del column =
     List.map_filter (\<lambda>(key, state). into_operation state key ins del) column"

definition drain_transaction :: "MemoryDatabase \<Rightarrow> Transaction \<times> MemoryDatabase" where
  "drain_transaction db =
     (column_operations Meta KMeta (mem_meta db) @
      column_operations BlockHash KBlockHash (mem_block_hash db) @
      column_operations BlockData KBlock (mem_block db) @
      column_operations BlockNumber KBlockNumber (mem_block_number db) @
      column_operations Configuration KConfiguration (mem_configuration db),
      memory_default)"

fun memory_write_op :: "Operation \<Rightarrow> MemoryDatabase \<Rightarrow> MemoryDatabase" where
  "memory_write_op (Insert (Meta k v)) db = db\<lparr>mem_meta := AList.update k (KInsert v) (mem_meta db)\<rparr>"
| "memory_write_op (Insert (BlockHash k v)) db =
     db\<lparr>mem_block_hash := AList.update k (KInsert v) (mem_block_hash db)\<rparr>"
| "memory_write_op (Insert (BlockData k v)) db =
     db\<lparr>mem_block := AList.update k (KInsert v) (mem_block db)\<rparr>"
| "memory_write_op (Insert (BlockNumber k v)) db =
     db\<lparr>mem_block_number := AList.update k (KInsert v) (mem_block_number db)\<rparr>"
| "memory_write_op (Insert (Configuration k v)) db =
     db\<lparr>mem_configuration := AList.update k (KInsert v) (mem_configuration db)\<rparr>"
| "memory_write_op (Delete (KMeta k)) db = db\<lparr>mem_meta := AList.update k KDelete (mem_meta db)\<rparr>"
| "memory_write_op (Delete (KBlockHash k)) db =
     db\<lparr>mem_block_hash := AList.update k KDelete (mem_block_hash db)\<rparr>"
| "memory_write_op (Delete (KBlock k)) db = db\<lparr>mem_block := AList.update k KDelete (mem_block db)\<rparr>"
| "memory_write_op (Delete (KBlockNumber k)) db =
     db\<lparr>mem_block_number := AList.update k KDelete (mem_block_number db)\<rparr>"
| "memory_write_op (Delete (KConfiguration k)) db =
     db\<lparr>mem_configuration := AList.update k KDelete (mem_configuration db)\<rparr>"

definition memory_write :: "MemoryDatabase \<Rightarrow> Transaction \<Rightarrow> MemoryDatabase \<times> (string + unit)" where
  "memory_write db tx = (fold memory_write_op tx db, Inr ())"

definition unwrap_state :: "'v KeyState option \<Rightarrow> 'v KeyState" where
  "unwrap_state s = (case s of None \<Rightarrow> KUnknown | Some s \<Rightarrow> s)"

fun memory_lookup :: "MemoryDatabase \<Rightarrow> Key \<Rightarrow> Value KeyState" where
  "memory_lookup db (KMeta k) = key_state_map VMeta (unwrap_state (map_of (mem_meta db) k))"
| "memory_lookup db (KBlockHash k) =
     key_state_map VBlockHash (unwrap_state (map_of (mem_block_hash db) k))"
| "memory_lookup db (KBlock k) = key_state_map VBlock (unwrap_state (map_of (mem_block db) k))"
| "memory_lookup db (KBlockNumber k) =
     key_state_map VBlockNumber (unwrap_state (map_of (mem_block_number db) k))"
| "memory_lookup db (KConfiguration k) =
     key_state_map VConfiguration (unwrap_state (map_of (mem_configuration db) k))"

definition memory_get :: "MemoryDatabase \<Rightarrow> Key \<Rightarrow> string + Value KeyState" where
  "memory_get db k = Inr (memory_lookup db k)"

definition memory_ops :: "MemoryDatabase kv_ops" where
  "memory_ops = \<lparr>kv_write = memory_write, kv_get = memory_get\<rparr>"

section \<open>Overlay databases\<close>

record 'd OverlayDatabase =
  od_db :: 'd
  od_overlay :: MemoryDatabase

definition overlay_new :: "'d \<Rightarrow> 'd OverlayDatabase" where
  "overlay_new d = \<lparr>od_db = d, od_overlay = memory_default\<rparr>"

definition overlay_flush :: "'d kv_ops \<Rightarrow> 'd OverlayDatabase \<Rightarrow> 'd OverlayDatabase \<times> (string + unit)" where
  "overlay_flush ops ov =
     (case drain_transaction (od_overlay ov) of (tx, mem) \<Rightarrow>
      case kv_write ops (od_db ov) tx of (d, res) \<Rightarrow> (\<lparr>od_db = d, od_overlay = mem\<rparr>, res))"

definition overlay_write :: "'d OverlayDatabase \<Rightarrow> Transaction \<Rightarrow> 'd OverlayDatabase \<times> (string + unit)" where
  "overlay_write ov tx =
     (case memory_write (od_overlay ov) tx of (mem, res) \<Rightarrow> (ov\<lparr>od_overlay := mem\<rparr>, res))"

definition overlay_get :: "'d kv_ops \<Rightarrow> 'd OverlayDatabase \<Rightarrow> Key \<Rightarrow> string + Value KeyState" where
  "overlay_get ops ov k =
     (case memory_get (od_overlay ov) k of
        Inl e \<Rightarrow> Inl e
      | Inr KUnknown \<Rightarrow> kv_get ops (od_db ov) k
      | Inr exists \<Rightarrow> Inr exists)"

definition overlay_ops :: "'d kv_ops \<Rightarrow> 'd OverlayDatabase kv_ops" where
  "overlay_ops ops = \<lparr>kv_write = overlay_write, kv_get = overlay_get ops\<rparr>"

record 'd AutoFlushingOverlayDatabase =
  af_db :: 'd
  af_overlay :: MemoryDatabase
  af_operations :: nat
  af_max_operations :: nat

definition autoflush_new :: "'d \<Rightarrow> nat \<Rightarrow> 'd AutoFlushingOverlayDatabase" where
  "autoflush_new d max_operations =
     \<lparr>af_db = d, af_overlay = memory_default, af_operations = 0, af_max_operations = max_operations\<rparr>"

definition autoflush_flush ::
  "'d kv_ops \<Rightarrow> 'd AutoFlushingOverlayDatabase \<Rightarrow> 'd AutoFlushingOverlayDatabase \<times> (string + unit)" where
  "autoflush_flush ops a =
     (case drain_transaction (af_overlay a) of (tx, mem) \<Rightarrow>
      case kv_write ops (af_db a) tx of (d, res) \<Rightarrow> (a\<lparr>af_db := d, af_overlay := mem\<rparr>, res))"

definition autoflush_write ::
  "'d kv_ops \<Rightarrow> 'd AutoFlushingOverlayDatabase \<Rightarrow> Transaction \<Rightarrow>
   'd AutoFlushingOverlayDatabase \<times> (string + unit)" where
  "autoflush_write ops a tx =
     (let a = a\<lparr>af_operations := af_operations a + 1\<rparr> in
      case memory_write (af_overlay a) tx of
        (mem, Inl e) \<Rightarrow> (a\<lparr>af_overlay := mem\<rparr>, Inl e)
      | (mem, Inr _) \<Rightarrow>
          let a = a\<lparr>af_overlay := mem\<rparr> in
          if af_operations a = af_max_operations a
          then case autoflush_flush ops a of
                 (a, Inl e) \<Rightarrow> (a, Inl e)
               | (a, Inr _) \<Rightarrow> (a\<lparr>af_operations := 0\<rparr>, Inr ())
          else (a, Inr ()))"

definition autoflush_get :: "'d kv_ops \<Rightarrow> 'd AutoFlushingOverlayDatabase \<Rightarrow> Key \<Rightarrow> string + Value KeyState" where
  "autoflush_get ops a k =
     (case memory_get (af_overlay a) k of
        Inl e \<Rightarrow> Inl e
      | Inr KUnknown \<Rightarrow> kv_get ops (af_db a) k
      | Inr exists \<Rightarrow> Inr exists)"

text \<open>Dropping the database: the flush has to succeed (\<open>None\<close> is the panic of \<^verbatim>\<open>expect\<close>).\<close>

definition autoflush_drop :: "'d kv_ops \<Rightarrow> 'd AutoFlushingOverlayDatabase \<Rightarrow> 'd option" where
  "autoflush_drop ops a =
     (case autoflush_flush ops a of (a, Inl _) \<Rightarrow> None | (a, Inr _) \<Rightarrow> Some (af_db a))"

definition autoflush_ops :: "'d kv_ops \<Rightarrow> 'd AutoFlushingOverlayDatabase kv_ops" where
  "autoflush_ops ops = \<lparr>kv_write = autoflush_write ops, kv_get = autoflush_get ops\<rparr>"

section \<open>The block cache\<close>

text \<open>
  \<^verbatim>\<open>LruCache\<close> is third-party code: \<open>lru_ops\<close> has the operations the cache database calls. An insertion
  may evict any entry; looking a key up changes the recency of the entries and nothing else.
\<close>

record 'c lru_ops =
  lru_new :: "nat \<Rightarrow> 'c"
  lru_insert :: "'c \<Rightarrow> h256 \<Rightarrow> Block KeyState \<Rightarrow> 'c"
  lru_get_mut :: "'c \<Rightarrow> h256 \<Rightarrow> Block KeyState option \<times> 'c"

definition lru_peek :: "'c lru_ops \<Rightarrow> 'c \<Rightarrow> h256 \<Rightarrow> Block KeyState option" where
  "lru_peek L c h = fst (lru_get_mut L c h)"

definition lru_ok :: "'c lru_ops \<Rightarrow> bool" where
  "lru_ok L \<longleftrightarrow>
     (\<forall>n h. lru_peek L (lru_new L n) h = None) \<and>
     (\<forall>c h s. lru_peek L (lru_insert L c h s) h \<in> {Some s, None}) \<and>
     (\<forall>c h s h'. h' \<noteq> h \<longrightarrow> lru_peek L (lru_insert L c h s) h' \<in> {lru_peek L c h', None}) \<and>
     (\<forall>c h h'. lru_peek L (snd (lru_get_mut L c h)) h' = lru_peek L c h')"

record ('d, 'c) CacheDatabase =
  cd_db :: 'd
  cd_block :: 'c

definition cache_new :: "'c lru_ops \<Rightarrow> 'd \<Rightarrow> ('d, 'c) CacheDatabase" where
  "cache_new L d = \<lparr>cd_db = d, cd_block = lru_new L 2116\<rparr>"

fun cache_note :: "'c lru_ops \<Rightarrow> Operation \<Rightarrow> 'c \<Rightarrow> 'c" where
  "cache_note L (Insert (BlockData h b)) c = lru_insert L c h (KInsert b)"
| "cache_note L (Delete (KBlock h)) c = lru_insert L c h KDelete"
| "cache_note L _ c = c"

definition cache_write ::
  "'c lru_ops \<Rightarrow> 'd kv_ops \<Rightarrow> ('d, 'c) CacheDatabase \<Rightarrow> Transaction \<Rightarrow>
   ('d, 'c) CacheDatabase \<times> (string + unit)" where
  "cache_write L ops c tx =
     (let c = c\<lparr>cd_block := fold (cache_note L) tx (cd_block c)\<rparr> in
      case kv_write ops (cd_db c) tx of (d, res) \<Rightarrow> (c\<lparr>cd_db := d\<rparr>, res))"

definition cache_get ::
  "'c lru_ops \<Rightarrow> 'd kv_ops \<Rightarrow> ('d, 'c) CacheDatabase \<Rightarrow> Key \<Rightarrow>
   (string + Value KeyState) \<times> ('d, 'c) CacheDatabase" where
  "cache_get L ops c k =
     (case k of
        KBlock h \<Rightarrow>
          (case lru_get_mut L (cd_block c) h of
             (Some state, lru) \<Rightarrow> (Inr (key_state_map VBlock state), c\<lparr>cd_block := lru\<rparr>)
           | (None, lru) \<Rightarrow> (kv_get ops (cd_db c) k, c\<lparr>cd_block := lru\<rparr>))
      | _ \<Rightarrow> (kv_get ops (cd_db c) k, c))"

text \<open>
  The trait's \<^verbatim>\<open>get\<close> is the value \<open>cache_get\<close> returns. Its new state differs from the old one in the
  recency of the cache's entries only, and the laws of \<open>lru_ok\<close> hold for every eviction order.
\<close>

definition cache_ops :: "'c lru_ops \<Rightarrow> 'd kv_ops \<Rightarrow> ('d, 'c) CacheDatabase kv_ops" where
  "cache_ops L ops = \<lparr>kv_write = cache_write L ops, kv_get = (\<lambda>c k. fst (cache_get L ops c k))\<rparr>"

section \<open>The disk database\<close>

definition COL_COUNT :: u32 where "COL_COUNT = 10"
definition COL_META :: u32 where "COL_META = 0"
definition COL_BLOCK_HASHES :: u32 where "COL_BLOCK_HASHES = 1"
definition COL_BLOCKS :: u32 where "COL_BLOCKS = 2"
definition COL_BLOCK_NUMBERS :: u32 where "COL_BLOCK_NUMBERS = 3"
definition COL_CONFIGURATION :: u32 where "COL_CONFIGURATION = 4"

datatype Location = DB | Column u32

record RawKeyValue =
  rkv_location :: Location
  rkv_key :: bytes
  rkv_value :: bytes

record RawKey =
  rk_location :: Location
  rk_key :: bytes

datatype RawOperation = RawInsert RawKeyValue | RawDelete RawKey

fun raw_key_value :: "externs \<Rightarrow> KeyValue \<Rightarrow> RawKeyValue" where
  "raw_key_value X (Meta k v) =
     \<lparr>rkv_location = Column COL_META, rkv_key = ser_str k, rkv_value = ser_bytes v\<rparr>"
| "raw_key_value X (BlockHash k v) =
     \<lparr>rkv_location = Column COL_BLOCK_HASHES, rkv_key = ser_u32 k, rkv_value = ser_h256 v\<rparr>"
| "raw_key_value X (BlockData k v) =
     \<lparr>rkv_location = Column COL_BLOCKS, rkv_key = ser_h256 k, rkv_value = ser_block X v\<rparr>"
| "raw_key_value X (BlockNumber k v) =
     \<lparr>rkv_location = Column COL_BLOCK_NUMBERS, rkv_key = ser_h256 k, rkv_value = ser_u32 v\<rparr>"
| "raw_key_value X (Configuration k v) =
     \<lparr>rkv_location = Column COL_CONFIGURATION, rkv_key = ser_str k, rkv_value = ser_bytes v\<rparr>"

fun raw_key :: "Key \<Rightarrow> RawKey" where
  "raw_key (KMeta k) = \<lparr>rk_location = Column COL_META, rk_key = ser_str k\<rparr>"
| "raw_key (KBlockHash k) = \<lparr>rk_location = Column COL_BLOCK_HASHES, rk_key = ser_u32 k\<rparr>"
| "raw_key (KBlock k) = \<lparr>rk_location = Column COL_BLOCKS, rk_key = ser_h256 k\<rparr>"
| "raw_key (KBlockNumber k) = \<lparr>rk_location = Column COL_BLOCK_NUMBERS, rk_key = ser_h256 k\<rparr>"
| "raw_key (KConfiguration k) = \<lparr>rk_location = Column COL_CONFIGURATION, rk_key = ser_str k\<rparr>"

fun raw_operation :: "externs \<Rightarrow> Operation \<Rightarrow> RawOperation" where
  "raw_operation X (Insert kv) = RawInsert (raw_key_value X kv)"
| "raw_operation X (Delete k) = RawDelete (raw_key k)"

text \<open>\<^verbatim>\<open>Value::for_key\<close>; the error is the formatted reader error.\<close>

fun map_value :: "('a \<Rightarrow> Value) \<Rightarrow> ReaderError + 'a \<Rightarrow> ReaderError + Value" where
  "map_value f (Inl e) = Inl e"
| "map_value f (Inr v) = Inr (f v)"

fun value_for_key :: "externs \<Rightarrow> Key \<Rightarrow> bytes \<Rightarrow> ReaderError + Value" where
  "value_for_key X (KMeta k) bs = map_value VMeta (deserialize de_bytes bs)"
| "value_for_key X (KBlockHash k) bs = map_value VBlockHash (deserialize de_h256 bs)"
| "value_for_key X (KBlock k) bs = map_value VBlock (deserialize (de_block X) bs)"
| "value_for_key X (KBlockNumber k) bs = map_value VBlockNumber (deserialize de_u32 bs)"
| "value_for_key X (KConfiguration k) bs = map_value VConfiguration (deserialize de_bytes bs)"

text \<open>
  RocksDB: write batches and the database handle. A location stands for the column family handle
  \<^verbatim>\<open>cfs[col]\<close>; the database is opened with \<open>COL_COUNT\<close> families.
\<close>

record ('r, 'b) rocks_ops =
  batch_new :: 'b
  batch_put :: "'b \<Rightarrow> Location \<Rightarrow> bytes \<Rightarrow> bytes \<Rightarrow> string + 'b"
  batch_delete :: "'b \<Rightarrow> Location \<Rightarrow> bytes \<Rightarrow> string + 'b"
  rocks_write :: "'r \<Rightarrow> 'b \<Rightarrow> 'r \<times> (string + unit)"
  rocks_get :: "'r \<Rightarrow> Location \<Rightarrow> bytes \<Rightarrow> string + bytes option"

fun disk_batch :: "('r, 'b) rocks_ops \<Rightarrow> RawOperation list \<Rightarrow> 'b \<Rightarrow> string + 'b" where
  "disk_batch R [] b = Inr b"
| "disk_batch R (RawInsert kv # tx) b =
     (case batch_put R b (rkv_location kv) (rkv_key kv) (rkv_value kv) of
        Inl e \<Rightarrow> Inl e
      | Inr b \<Rightarrow> disk_batch R tx b)"
| "disk_batch R (RawDelete k # tx) b =
     (case batch_delete R b (rk_location k) (rk_key k) of
        Inl e \<Rightarrow> Inl e
      | Inr b \<Rightarrow> disk_batch R tx b)"

definition disk_write_raw :: "('r, 'b) rocks_ops \<Rightarrow> 'r \<Rightarrow> RawOperation list \<Rightarrow> 'r \<times> (string + unit)" where
  "disk_write_raw R d tx =
     (case disk_batch R tx (batch_new R) of
        Inl e \<Rightarrow> (d, Inl e)
      | Inr batch \<Rightarrow> rocks_write R d batch)"

definition disk_get_raw :: "('r, 'b) rocks_ops \<Rightarrow> 'r \<Rightarrow> RawKey \<Rightarrow> string + bytes option" where
  "disk_get_raw R d k = rocks_get R d (rk_location k) (rk_key k)"

definition disk_write ::
  "externs \<Rightarrow> ('r, 'b) rocks_ops \<Rightarrow> 'r \<Rightarrow> Transaction \<Rightarrow> 'r \<times> (string + unit)" where
  "disk_write X R d tx = disk_write_raw R d (map (raw_operation X) tx)"

definition disk_get ::
  "externs \<Rightarrow> (ReaderError \<Rightarrow> string) \<Rightarrow> ('r, 'b) rocks_ops \<Rightarrow> 'r \<Rightarrow> Key \<Rightarrow> string + Value KeyState" where
  "disk_get X format R d k =
     (case disk_get_raw R d (raw_key k) of
        Inl e \<Rightarrow> Inl e
      | Inr None \<Rightarrow> Inr KUnknown
      | Inr (Some value) \<Rightarrow>
          (case value_for_key X k value of
             Inl e \<Rightarrow> Inl (format e)
           | Inr v \<Rightarrow> Inr (KInsert v)))"

definition disk_ops ::
  "externs \<Rightarrow> (ReaderError \<Rightarrow> string) \<Rightarrow> ('r, 'b) rocks_ops \<Rightarrow> 'r kv_ops" where
  "disk_ops X format R = \<lparr>kv_write = disk_write X R, kv_get = disk_get X format R\<rparr>"

text \<open>
  What is relied on: reads, puts and deletes succeed, and committing a batch applies its
  operations in the order they were put. \<open>eff\<close> is the effect of a batch on the stored pairs.
\<close>

definition rocks_content :: "('r, 'b) rocks_ops \<Rightarrow> 'r \<Rightarrow> Location \<times> bytes \<Rightarrow> bytes option" where
  "rocks_content R d lk =
     (case rocks_get R d (fst lk) (snd lk) of Inl _ \<Rightarrow> None | Inr v \<Rightarrow> v)"

definition rocks_effect ::
  "('r, 'b) rocks_ops \<Rightarrow>
   ('b \<Rightarrow> (Location \<times> bytes \<Rightarrow> bytes option) \<Rightarrow> Location \<times> bytes \<Rightarrow> bytes option) \<Rightarrow> bool" where
  "rocks_effect R eff \<longleftrightarrow>
     (\<forall>m. eff (batch_new R) m = m) \<and>
     (\<forall>b l k v. \<exists>b'. batch_put R b l k v = Inr b' \<and> (\<forall>m. eff b' m = (eff b m)((l, k) := Some v))) \<and>
     (\<forall>b l k. \<exists>b'. batch_delete R b l k = Inr b' \<and> (\<forall>m. eff b' m = (eff b m)((l, k) := None))) \<and>
     (\<forall>d b. \<exists>d'. rocks_write R d b = (d', Inr ()) \<and> rocks_content R d' = eff b (rocks_content R d)) \<and>
     (\<forall>d l k. \<exists>v. rocks_get R d l k = Inr v)"

definition rocks_ok :: "('r, 'b) rocks_ops \<Rightarrow> bool" where
  "rocks_ok R \<longleftrightarrow> (\<exists>eff. rocks_effect R eff)"

section \<open>The contract\<close>

lemma apply_tx_simps [simp]:
  "apply_tx [] m = m"
  "apply_tx (op # tx) m = apply_tx tx (apply_op op m)"
  "apply_tx (tx @ tx') m = apply_tx tx' (apply_tx tx m)"
  by (simp_all add: apply_tx_def)

lemma value_for_kv [simp]: "value_for (kv_key kv) (kv_value kv)"
  by (cases kv) simp_all

fun op_key :: "Operation \<Rightarrow> Key" where
  "op_key (Insert kv) = kv_key kv"
| "op_key (Delete k) = k"

fun op_state :: "Operation \<Rightarrow> Value KeyState" where
  "op_state (Insert kv) = KInsert (kv_value kv)"
| "op_state (Delete k) = KDelete"

lemma op_state_known [simp]: "op_state op \<noteq> KUnknown"
  by (cases op) simp_all

lemma apply_op_eq: "apply_op op m = m(op_key op := into_option (op_state op))"
  by (cases op) simp_all

locale kv_database =
  fixes ops :: "'d kv_ops"
    and db_inv :: "'d \<Rightarrow> bool"
    and op_ok :: "Operation \<Rightarrow> bool"
  assumes get_total: "db_inv d \<Longrightarrow> \<exists>s. kv_get ops d k = Inr s"
    and view_typed: "db_inv d \<Longrightarrow> kv_view ops d k = Some v \<Longrightarrow> value_for k v"
    and write_result: "db_inv d \<Longrightarrow> list_all op_ok tx \<Longrightarrow> snd (kv_write ops d tx) = Inr ()"
    and write_inv: "db_inv d \<Longrightarrow> list_all op_ok tx \<Longrightarrow> db_inv (fst (kv_write ops d tx))"
    and write_view:
      "db_inv d \<Longrightarrow> list_all op_ok tx \<Longrightarrow>
       kv_view ops (fst (kv_write ops d tx)) = apply_tx tx (kv_view ops d)"
begin

lemma write_obtain:
  assumes "db_inv d" "list_all op_ok tx"
  obtains d' where "kv_write ops d tx = (d', Inr ())" "db_inv d'"
    "kv_view ops d' = apply_tx tx (kv_view ops d)"
  using write_result [OF assms] write_inv [OF assms] write_view [OF assms] that
  by (metis prod.collapse)

lemma get_view: "db_inv d \<Longrightarrow> \<exists>s. kv_get ops d k = Inr s \<and> into_option s = kv_view ops d k"
  using get_total [of d k] by (auto simp: kv_view_def)

end

section \<open>The in-memory database satisfies it\<close>

text \<open>One column of the database, and the operations that are drained from it.\<close>

locale memory_column =
  fixes ins :: "'k \<Rightarrow> 'v \<Rightarrow> KeyValue"
    and del :: "'k \<Rightarrow> Key"
    and val :: "'v \<Rightarrow> Value"
  assumes key_ins: "kv_key (ins k v) = del k"
    and value_ins: "kv_value (ins k v) = val v"
    and del_inj: "del k = del k' \<longleftrightarrow> k = k'"
begin

lemma drained_key:
  "distinct (map fst al) \<Longrightarrow>
   apply_tx (column_operations ins del al) m (del k) =
   (case unwrap_state (map_of al k) of
      KInsert v \<Rightarrow> Some (val v) | KDelete \<Rightarrow> None | KUnknown \<Rightarrow> m (del k))"
proof (induction al arbitrary: m)
  case Nil
  then show ?case by (simp add: column_operations_def unwrap_state_def)
next
  case (Cons e al)
  obtain k' s where e: "e = (k', s)" by fastforce
  have none: "k = k' \<Longrightarrow> map_of al k = None"
    using Cons.prems e by (auto simp: map_of_eq_None_iff)
  show ?case
    using Cons e none
    by (cases s; cases "k = k'")
      (simp_all add: column_operations_def unwrap_state_def key_ins value_ins del_inj
        cong: KeyState.case_cong)
qed

lemma drained_other:
  "(\<And>k'. k \<noteq> del k') \<Longrightarrow> apply_tx (column_operations ins del al) m k = m k"
proof (induction al arbitrary: m)
  case Nil
  then show ?case by (simp add: column_operations_def)
next
  case (Cons e al)
  then show ?case
    by (cases e; cases "snd e") (auto simp: column_operations_def key_ins)
qed

lemma drained_update:
  "set (column_operations ins del (AList.update k s al)) \<subseteq>
   set (column_operations ins del al) \<union> set_option (into_operation s k ins del)"
proof (induction al)
  case Nil
  then show ?case by (auto simp: column_operations_def split: option.splits)
next
  case (Cons e al)
  then show ?case
    by (cases e) (auto simp: column_operations_def split: option.splits if_splits)
qed

end

interpretation meta_column: memory_column Meta KMeta VMeta by unfold_locales simp_all
interpretation hash_column: memory_column BlockHash KBlockHash VBlockHash by unfold_locales simp_all
interpretation block_column: memory_column BlockData KBlock VBlock by unfold_locales simp_all
interpretation number_column: memory_column BlockNumber KBlockNumber VBlockNumber by unfold_locales simp_all
interpretation config_column: memory_column Configuration KConfiguration VConfiguration
  by unfold_locales simp_all

lemmas drained_key =
  meta_column.drained_key hash_column.drained_key block_column.drained_key
  number_column.drained_key config_column.drained_key

lemmas drained_other =
  meta_column.drained_other hash_column.drained_other block_column.drained_other
  number_column.drained_other config_column.drained_other

lemmas drained_update =
  meta_column.drained_update hash_column.drained_update block_column.drained_update
  number_column.drained_update config_column.drained_update

text \<open>The association lists stand for hash maps: no key occurs twice.\<close>

definition memory_inv :: "MemoryDatabase \<Rightarrow> bool" where
  "memory_inv db \<longleftrightarrow>
     distinct (map fst (mem_meta db)) \<and> distinct (map fst (mem_block_hash db)) \<and>
     distinct (map fst (mem_block db)) \<and> distinct (map fst (mem_block_number db)) \<and>
     distinct (map fst (mem_configuration db))"

lemma memory_inv_default [simp]: "memory_inv memory_default"
  by (simp add: memory_inv_def memory_default_def)

lemma memory_lookup_default [simp]: "memory_lookup memory_default k = KUnknown"
  by (cases k) (simp_all add: memory_default_def unwrap_state_def)

lemma memory_write_op_inv: "memory_inv db \<Longrightarrow> memory_inv (memory_write_op op db)"
  by (cases "(op, db)" rule: memory_write_op.cases) (simp_all add: memory_inv_def distinct_update)

lemma memory_write_op_lookup:
  "memory_lookup (memory_write_op op db) k = (if k = op_key op then op_state op else memory_lookup db k)"
  by (cases "(op, db)" rule: memory_write_op.cases; cases k)
    (simp_all add: unwrap_state_def update_conv')

lemma key_state_map_insert [simp]:
  "key_state_map f s = KInsert v \<longleftrightarrow> (\<exists>x. s = KInsert x \<and> v = f x)"
  by (cases s) auto

lemma key_state_map_case [simp]:
  "(case key_state_map f s of KInsert v \<Rightarrow> g v | KDelete \<Rightarrow> a | KUnknown \<Rightarrow> b) =
   (case s of KInsert v \<Rightarrow> g (f v) | KDelete \<Rightarrow> a | KUnknown \<Rightarrow> b)"
  by (cases s) simp_all

lemma memory_lookup_typed: "memory_lookup db k = KInsert v \<Longrightarrow> value_for k v"
  by (cases k) auto

definition drained :: "MemoryDatabase \<Rightarrow> Transaction" where
  "drained db = fst (drain_transaction db)"

lemma drain_transaction_eq: "drain_transaction db = (drained db, memory_default)"
  by (simp add: drained_def drain_transaction_def)

lemma drained_default [simp]: "drained memory_default = []"
  by (simp add: drained_def drain_transaction_def memory_default_def column_operations_def)

lemma drained_view:
  assumes "memory_inv db"
  shows "apply_tx (drained db) m k =
    (case memory_lookup db k of KInsert v \<Rightarrow> Some v | KDelete \<Rightarrow> None | KUnknown \<Rightarrow> m k)"
  using assms
  by (cases k)
    (simp_all add: drained_def drain_transaction_def memory_inv_def drained_key drained_other
      cong: KeyState.case_cong)

lemma drained_write_op: "set (drained (memory_write_op op db)) \<subseteq> insert op (set (drained db))"
  by (cases "(op, db)" rule: memory_write_op.cases)
    (auto simp: drained_def drain_transaction_def dest!: drained_update [THEN subsetD])

lemma memory_write_inv: "memory_inv db \<Longrightarrow> memory_inv (fold memory_write_op tx db)"
  by (induction tx arbitrary: db) (simp_all add: memory_write_op_inv)

lemma drained_write: "set (drained (fold memory_write_op tx db)) \<subseteq> set tx \<union> set (drained db)"
proof (induction tx arbitrary: db)
  case (Cons op tx)
  show ?case using Cons [of "memory_write_op op db"] drained_write_op [of op db] by auto
qed simp

lemma drained_write_view:
  "memory_inv db \<Longrightarrow>
   apply_tx (drained (fold memory_write_op tx db)) m = apply_tx tx (apply_tx (drained db) m)"
proof (induction tx arbitrary: db)
  case (Cons op tx)
  have "apply_tx (drained (memory_write_op op db)) m = apply_op op (apply_tx (drained db) m)"
    using Cons.prems
    by (auto simp: fun_eq_iff apply_op_eq drained_view memory_write_op_inv memory_write_op_lookup
        split: KeyState.split)
  with Cons show ?case by (simp add: memory_write_op_inv)
qed simp

lemma memory_view_drained: "memory_inv db \<Longrightarrow> kv_view memory_ops db = apply_tx (drained db) Map.empty"
  by (rule ext) (simp add: kv_view_def memory_ops_def memory_get_def drained_view split: KeyState.split)

lemma memory_write_eq: "kv_write memory_ops db tx = (fold memory_write_op tx db, Inr ())"
  by (simp add: memory_ops_def memory_write_def)

interpretation memory: kv_database memory_ops memory_inv "\<lambda>_. True"
proof
  show "\<exists>s. kv_get memory_ops d k = Inr s" for d k by (simp add: memory_ops_def memory_get_def)
next
  show "kv_view memory_ops d k = Some v \<Longrightarrow> value_for k v" for d k v
    by (cases "memory_lookup d k")
      (simp_all add: kv_view_def memory_ops_def memory_get_def memory_lookup_typed)
next
  show "snd (kv_write memory_ops d tx) = Inr ()" for d tx by (simp add: memory_write_eq)
next
  show "memory_inv d \<Longrightarrow> memory_inv (fst (kv_write memory_ops d tx))" for d tx
    by (simp add: memory_write_eq memory_write_inv)
next
  show "kv_view memory_ops (fst (kv_write memory_ops d tx)) = apply_tx tx (kv_view memory_ops d)"
    if "memory_inv d" for d tx
    using that memory_write_inv [OF that, of tx]
    by (simp add: memory_write_eq memory_view_drained drained_write_view)
qed

section \<open>The wrappers preserve it\<close>

definition overlay_inv ::
  "('d \<Rightarrow> bool) \<Rightarrow> (Operation \<Rightarrow> bool) \<Rightarrow> 'd OverlayDatabase \<Rightarrow> bool" where
  "overlay_inv db_inv op_ok ov \<longleftrightarrow>
     db_inv (od_db ov) \<and> memory_inv (od_overlay ov) \<and> list_all op_ok (drained (od_overlay ov))"

definition autoflush_inv ::
  "('d \<Rightarrow> bool) \<Rightarrow> (Operation \<Rightarrow> bool) \<Rightarrow> 'd AutoFlushingOverlayDatabase \<Rightarrow> bool" where
  "autoflush_inv db_inv op_ok a \<longleftrightarrow>
     db_inv (af_db a) \<and> memory_inv (af_overlay a) \<and> list_all op_ok (drained (af_overlay a))"

definition cache_inv ::
  "'c lru_ops \<Rightarrow> 'd kv_ops \<Rightarrow> ('d \<Rightarrow> bool) \<Rightarrow> ('d, 'c) CacheDatabase \<Rightarrow> bool" where
  "cache_inv L ops db_inv c \<longleftrightarrow>
     db_inv (cd_db c) \<and>
     (\<forall>h s. lru_peek L (cd_block c) h = Some s \<longrightarrow>
            kv_view ops (cd_db c) (KBlock h) = map_option VBlock (into_option s))"

lemma drained_ok:
  "list_all op_ok (drained db) \<Longrightarrow> list_all op_ok tx \<Longrightarrow>
   list_all op_ok (drained (fold memory_write_op tx db))"
  using drained_write [of tx db] by (auto simp: list_all_iff)

lemma cache_note_peek:
  assumes "lru_ok L" "lru_peek L (cache_note L op c) h = Some s"
  shows "(op_key op = KBlock h \<and> op_state op = key_state_map VBlock s) \<or>
    (op_key op \<noteq> KBlock h \<and> lru_peek L c h = Some s)"
proof -
  have eq: "lru_peek L (lru_insert L c h' s') h = Some s \<Longrightarrow>
      (h' = h \<and> s' = s) \<or> (h' \<noteq> h \<and> lru_peek L c h = Some s)" for h' s'
    using assms(1) unfolding lru_ok_def by (metis empty_iff insertE option.distinct(1) option.inject)
  show ?thesis
    using assms(2) by (cases "(L, op, c)" rule: cache_note.cases) (auto dest!: eq)
qed

lemma into_option_key_state_map [simp]:
  "into_option (key_state_map f s) = map_option f (into_option s)"
  by (cases s) simp_all

text \<open>The cache agrees with what the operations leave in the database.\<close>

lemma cache_note_view:
  assumes "lru_ok L"
    and "\<forall>h s. lru_peek L c h = Some s \<longrightarrow> m (KBlock h) = map_option VBlock (into_option s)"
  shows "lru_peek L (fold (cache_note L) tx c) h = Some s \<Longrightarrow>
    apply_tx tx m (KBlock h) = map_option VBlock (into_option s)"
  using assms(2)
proof (induction tx arbitrary: c m)
  case (Cons op tx)
  have "\<forall>h s. lru_peek L (cache_note L op c) h = Some s \<longrightarrow>
      apply_op op m (KBlock h) = map_option VBlock (into_option s)"
    using cache_note_peek [OF assms(1)] Cons.prems(2) by (fastforce simp: apply_op_eq)
  with Cons show ?case by simp
qed simp

context kv_database
begin

lemma overlay_view:
  assumes "overlay_inv db_inv op_ok ov"
  shows "kv_view (overlay_ops ops) ov = apply_tx (drained (od_overlay ov)) (kv_view ops (od_db ov))"
  using assms
  by (auto simp: fun_eq_iff overlay_inv_def drained_view kv_view_def overlay_ops_def overlay_get_def
      memory_get_def split: KeyState.split)

lemma view_typed_drained:
  assumes "memory_inv mem" "db_inv d" "apply_tx (drained mem) (kv_view ops d) k = Some v"
  shows "value_for k v"
  using assms view_typed [of d k v] memory_lookup_typed [of mem k v]
  by (auto simp: drained_view split: KeyState.splits)

text \<open>An overlay over a database that satisfies the contract satisfies it.\<close>

lemma overlay_database: "kv_database (overlay_ops ops) (overlay_inv db_inv op_ok) op_ok"
proof
  fix d :: "'d OverlayDatabase" and k v and tx
  assume d: "overlay_inv db_inv op_ok d"
  then have parts: "db_inv (od_db d)" "memory_inv (od_overlay d)" by (simp_all add: overlay_inv_def)
  show "\<exists>s. kv_get (overlay_ops ops) d k = Inr s"
    using get_total [OF parts(1)]
    by (simp add: overlay_ops_def overlay_get_def memory_get_def split: KeyState.split)
  show "value_for k v" if "kv_view (overlay_ops ops) d k = Some v"
    using that view_typed_drained [OF parts(2,1)] by (simp add: overlay_view [OF d])
  assume tx: "list_all op_ok tx"
  show "snd (kv_write (overlay_ops ops) d tx) = Inr ()"
    by (simp add: overlay_ops_def overlay_write_def memory_write_def)
  show inv': "overlay_inv db_inv op_ok (fst (kv_write (overlay_ops ops) d tx))"
    using d tx
    by (simp add: overlay_inv_def overlay_ops_def overlay_write_def memory_write_def
        memory_write_inv drained_ok)
  show "kv_view (overlay_ops ops) (fst (kv_write (overlay_ops ops) d tx)) =
      apply_tx tx (kv_view (overlay_ops ops) d)"
    using overlay_view [OF d] overlay_view [OF inv'] parts
    by (simp add: overlay_ops_def overlay_write_def memory_write_def drained_write_view)
qed

text \<open>Flushing moves what the overlay shows into the database below.\<close>

lemma overlay_flush_correct:
  assumes "overlay_inv db_inv op_ok ov"
  shows "\<exists>ov'. overlay_flush ops ov = (ov', Inr ()) \<and> overlay_inv db_inv op_ok ov' \<and>
    od_overlay ov' = memory_default \<and> kv_view ops (od_db ov') = kv_view (overlay_ops ops) ov"
proof -
  have parts: "db_inv (od_db ov)" "list_all op_ok (drained (od_overlay ov))"
    using assms by (simp_all add: overlay_inv_def)
  from write_obtain [OF parts] obtain d' where
    "kv_write ops (od_db ov) (drained (od_overlay ov)) = (d', Inr ())" "db_inv d'"
    "kv_view ops d' = apply_tx (drained (od_overlay ov)) (kv_view ops (od_db ov))" .
  then show ?thesis
    by (simp add: overlay_flush_def drain_transaction_eq overlay_inv_def overlay_view [OF assms])
qed

lemma autoflush_view:
  assumes "autoflush_inv db_inv op_ok a"
  shows "kv_view (autoflush_ops ops) a = apply_tx (drained (af_overlay a)) (kv_view ops (af_db a))"
  using assms
  by (auto simp: fun_eq_iff autoflush_inv_def drained_view kv_view_def autoflush_ops_def
      autoflush_get_def memory_get_def split: KeyState.split)

lemma autoflush_flush_correct:
  assumes "autoflush_inv db_inv op_ok a"
  shows "\<exists>d'. autoflush_flush ops a = (a\<lparr>af_db := d', af_overlay := memory_default\<rparr>, Inr ()) \<and>
    db_inv d' \<and> kv_view ops d' = kv_view (autoflush_ops ops) a"
proof -
  have parts: "db_inv (af_db a)" "list_all op_ok (drained (af_overlay a))"
    using assms by (simp_all add: autoflush_inv_def)
  from write_obtain [OF parts] obtain d' where
    "kv_write ops (af_db a) (drained (af_overlay a)) = (d', Inr ())" "db_inv d'"
    "kv_view ops d' = apply_tx (drained (af_overlay a)) (kv_view ops (af_db a))" .
  then show ?thesis
    by (intro exI [of _ d']) (simp add: autoflush_flush_def drain_transaction_eq autoflush_view [OF assms])
qed

text \<open>Whether or not a write reaches the flush limit, it has the same visible effect.\<close>

lemma autoflush_write_correct:
  assumes a: "autoflush_inv db_inv op_ok a" and tx: "list_all op_ok tx"
  shows "\<exists>a'. autoflush_write ops a tx = (a', Inr ()) \<and> autoflush_inv db_inv op_ok a' \<and>
    kv_view (autoflush_ops ops) a' = apply_tx tx (kv_view (autoflush_ops ops) a)"
proof -
  define b where "b = a\<lparr>af_operations := af_operations a + 1,
                        af_overlay := fold memory_write_op tx (af_overlay a)\<rparr>"
  have b: "autoflush_inv db_inv op_ok b"
    using a tx by (simp add: b_def autoflush_inv_def memory_write_inv drained_ok)
  have view: "kv_view (autoflush_ops ops) b = apply_tx tx (kv_view (autoflush_ops ops) a)"
    using a by (simp add: autoflush_view [OF a] autoflush_view [OF b])
      (simp add: b_def drained_write_view autoflush_inv_def)
  have step: "autoflush_write ops a tx =
      (if af_operations b = af_max_operations b
       then case autoflush_flush ops b of
              (a, Inl e) \<Rightarrow> (a, Inl e) | (a, Inr _) \<Rightarrow> (a\<lparr>af_operations := 0\<rparr>, Inr ())
       else (b, Inr ()))"
    by (simp add: autoflush_write_def memory_write_def b_def Let_def)
  from autoflush_flush_correct [OF b] obtain d' where
    flush: "autoflush_flush ops b = (b\<lparr>af_db := d', af_overlay := memory_default\<rparr>, Inr ())"
    and d': "db_inv d'" "kv_view ops d' = kv_view (autoflush_ops ops) b" by blast
  let ?c = "b\<lparr>af_db := d', af_overlay := memory_default, af_operations := 0\<rparr>"
  have c: "autoflush_inv db_inv op_ok ?c" by (simp add: autoflush_inv_def d')
  have "kv_view (autoflush_ops ops) ?c = kv_view (autoflush_ops ops) b"
    by (simp add: autoflush_view [OF c] d')
  moreover have "autoflush_write ops a tx =
      (if af_operations b = af_max_operations b then (?c, Inr ()) else (b, Inr ()))"
    unfolding step flush by simp
  ultimately show ?thesis using b c view by simp
qed

lemma autoflush_database: "kv_database (autoflush_ops ops) (autoflush_inv db_inv op_ok) op_ok"
proof
  fix a :: "'d AutoFlushingOverlayDatabase" and k v and tx
  assume a: "autoflush_inv db_inv op_ok a"
  then have parts: "db_inv (af_db a)" "memory_inv (af_overlay a)" by (simp_all add: autoflush_inv_def)
  show "\<exists>s. kv_get (autoflush_ops ops) a k = Inr s"
    using get_total [OF parts(1)]
    by (simp add: autoflush_ops_def autoflush_get_def memory_get_def split: KeyState.split)
  show "value_for k v" if "kv_view (autoflush_ops ops) a k = Some v"
    using that view_typed_drained [OF parts(2,1)] by (simp add: autoflush_view [OF a])
  assume tx: "list_all op_ok tx"
  from autoflush_write_correct [OF a tx] obtain a' where
    a': "kv_write (autoflush_ops ops) a tx = (a', Inr ())" "autoflush_inv db_inv op_ok a'"
      "kv_view (autoflush_ops ops) a' = apply_tx tx (kv_view (autoflush_ops ops) a)"
    by (auto simp: autoflush_ops_def)
  show "snd (kv_write (autoflush_ops ops) a tx) = Inr ()" using a' by simp
  show "autoflush_inv db_inv op_ok (fst (kv_write (autoflush_ops ops) a tx))" using a' by simp
  show "kv_view (autoflush_ops ops) (fst (kv_write (autoflush_ops ops) a tx)) =
      apply_tx tx (kv_view (autoflush_ops ops) a)" using a' by simp
qed

lemma cache_view:
  assumes "cache_inv L ops db_inv c"
  shows "kv_view (cache_ops L ops) c = kv_view ops (cd_db c)"
proof
  fix k
  show "kv_view (cache_ops L ops) c k = kv_view ops (cd_db c) k"
    using assms
    by (cases k; cases "lru_get_mut L (cd_block c) (case k of KBlock h \<Rightarrow> h | _ \<Rightarrow> 0)")
      (auto simp: kv_view_def cache_ops_def cache_get_def cache_inv_def lru_peek_def
        split: option.split)
qed

text \<open>So does the block cache, whatever it evicts.\<close>

lemma cache_database:
  assumes L: "lru_ok L"
  shows "kv_database (cache_ops L ops) (cache_inv L ops db_inv) op_ok"
proof
  fix c and k v and tx
  assume c: "cache_inv L ops db_inv c"
  then have d: "db_inv (cd_db c)" by (simp add: cache_inv_def)
  show "\<exists>s. kv_get (cache_ops L ops) c k = Inr s"
    using get_total [OF d]
    by (auto simp: cache_ops_def cache_get_def split: Key.split option.split prod.split)
  show "value_for k v" if "kv_view (cache_ops L ops) c k = Some v"
    using that view_typed [OF d] by (simp add: cache_view [OF c])
  assume tx: "list_all op_ok tx"
  from write_obtain [OF d tx] obtain d' where d':
    "kv_write ops (cd_db c) tx = (d', Inr ())" "db_inv d'"
    "kv_view ops d' = apply_tx tx (kv_view ops (cd_db c))" .
  let ?c = "\<lparr>cd_db = d', cd_block = fold (cache_note L) tx (cd_block c)\<rparr>"
  have step: "kv_write (cache_ops L ops) c tx = (?c, Inr ())"
    using d' by (simp add: cache_ops_def cache_write_def)
  have c': "cache_inv L ops db_inv ?c"
    using c d' cache_note_view [OF L, of "cd_block c" "kv_view ops (cd_db c)" tx]
    by (simp add: cache_inv_def)
  show "snd (kv_write (cache_ops L ops) c tx) = Inr ()" by (simp add: step)
  show "cache_inv L ops db_inv (fst (kv_write (cache_ops L ops) c tx))" using c' by (simp add: step)
  show "kv_view (cache_ops L ops) (fst (kv_write (cache_ops L ops) c tx)) =
      apply_tx tx (kv_view (cache_ops L ops) c)"
    using d' by (simp add: step cache_view [OF c] cache_view [OF c'])
qed

text \<open>A sequence of transactions.\<close>

lemma write_all_view:
  "db_inv d \<Longrightarrow> list_all (list_all op_ok) txs \<Longrightarrow>
   db_inv (fold (\<lambda>tx d. fst (kv_write ops d tx)) txs d) \<and>
   kv_view ops (fold (\<lambda>tx d. fst (kv_write ops d tx)) txs d) = apply_tx (concat txs) (kv_view ops d)"
proof (induction txs arbitrary: d)
  case (Cons tx txs)
  then show ?case using write_inv [of d tx] write_view [of d tx] by simp
qed simp

end

interpretation overlay_memory:
  kv_database "overlay_ops memory_ops" "overlay_inv memory_inv (\<lambda>_. True)" "\<lambda>_. True"
  by (rule memory.overlay_database)

interpretation autoflush_memory:
  kv_database "autoflush_ops memory_ops" "autoflush_inv memory_inv (\<lambda>_. True)" "\<lambda>_. True"
  by (rule memory.autoflush_database)

section \<open>The disk database satisfies it\<close>

text \<open>The operations whose values can be encoded.\<close>

fun op_encodable :: "externs \<Rightarrow> Operation \<Rightarrow> bool" where
  "op_encodable X (Insert (Meta k v)) = (length v < 2 ^ 64)"
| "op_encodable X (Insert (BlockData k v)) = valid_block X v"
| "op_encodable X (Insert (Configuration k v)) = (length v < 2 ^ 64)"
| "op_encodable X _ = True"

definition raw_slot :: "Key \<Rightarrow> Location \<times> bytes" where
  "raw_slot k = (rk_location (raw_key k), rk_key (raw_key k))"

definition decode_slot :: "externs \<Rightarrow> (Location \<times> bytes \<Rightarrow> bytes option) \<Rightarrow> Key \<Rightarrow> Value option" where
  "decode_slot X m k =
     (case m (raw_slot k) of
        None \<Rightarrow> None
      | Some bs \<Rightarrow> (case value_for_key X k bs of Inl _ \<Rightarrow> None | Inr v \<Rightarrow> Some v))"

definition decodable :: "externs \<Rightarrow> (Location \<times> bytes \<Rightarrow> bytes option) \<Rightarrow> bool" where
  "decodable X m \<longleftrightarrow> (\<forall>k bs. m (raw_slot k) = Some bs \<longrightarrow> (\<exists>v. value_for_key X k bs = Inr v))"

definition disk_inv :: "externs \<Rightarrow> ('r, 'b) rocks_ops \<Rightarrow> 'r \<Rightarrow> bool" where
  "disk_inv X R d \<longleftrightarrow> decodable X (rocks_content R d)"

fun raw_apply ::
  "RawOperation \<Rightarrow> (Location \<times> bytes \<Rightarrow> bytes option) \<Rightarrow> Location \<times> bytes \<Rightarrow> bytes option" where
  "raw_apply (RawInsert kv) m = m((rkv_location kv, rkv_key kv) := Some (rkv_value kv))"
| "raw_apply (RawDelete k) m = m((rk_location k, rk_key k) := None)"

lemmas column_defs =
  COL_META_def COL_BLOCK_HASHES_def COL_BLOCKS_def COL_BLOCK_NUMBERS_def COL_CONFIGURATION_def

lemma raw_slot_inject: "raw_slot k = raw_slot k' \<longleftrightarrow> k = k'"
  by (cases k; cases k')
    (auto simp: raw_slot_def column_defs ser_str_inject
      dest: u32.prefix_free [of _ "[]" _ "[]", simplified] h256.prefix_free [of _ "[]" _ "[]", simplified])

lemma raw_slot_column_in_range: "\<exists>c. fst (raw_slot k) = Column c \<and> c < COL_COUNT"
  by (cases k) (simp_all add: raw_slot_def column_defs COL_COUNT_def)

lemma raw_key_value_slot: "(rkv_location (raw_key_value X kv), rkv_key (raw_key_value X kv)) = raw_slot (kv_key kv)"
  by (cases kv) (simp_all add: raw_slot_def)

lemma value_for_key_typed: "value_for_key X k bs = Inr v \<Longrightarrow> value_for k v"
  by (cases k) (auto elim: map_value.elims)

lemma value_for_key_raw:
  assumes "digits_ok X" "op_encodable X (Insert kv)"
  shows "value_for_key X (kv_key kv) (rkv_value (raw_key_value X kv)) = Inr (kv_value kv)"
  using assms
  by (cases kv)
    (simp_all add: byte_string.deserialize_serialize h256.deserialize_serialize
      u32.deserialize_serialize codec.deserialize_serialize [OF block_codec])

lemma raw_apply_operation:
  assumes "digits_ok X" "op_encodable X op"
  shows "decode_slot X (raw_apply (raw_operation X op) m) = apply_op op (decode_slot X m)"
    and "decodable X m \<Longrightarrow> decodable X (raw_apply (raw_operation X op) m)"
proof -
  show "decode_slot X (raw_apply (raw_operation X op) m) = apply_op op (decode_slot X m)"
  proof (cases op)
    case (Insert kv)
    then show ?thesis
      using value_for_key_raw assms
      by (auto simp: fun_eq_iff decode_slot_def raw_key_value_slot raw_slot_inject)
  next
    case (Delete k)
    then show ?thesis
      by (auto simp: fun_eq_iff decode_slot_def raw_slot_inject simp flip: raw_slot_def)
  qed
  show "decodable X (raw_apply (raw_operation X op) m)" if "decodable X m"
    using that value_for_key_raw assms
    by (cases op)
      (auto simp: decodable_def raw_key_value_slot raw_slot_inject simp flip: raw_slot_def)
qed

lemma disk_batch_effect:
  assumes "rocks_effect R eff"
  shows "\<exists>b'. disk_batch R raws b = Inr b' \<and> (\<forall>m. eff b' m = fold raw_apply raws (eff b m))"
proof (induction raws arbitrary: b)
  case (Cons raw raws)
  have "\<exists>b'. disk_batch R (raw # raws) b = disk_batch R raws b' \<and> (\<forall>m. eff b' m = raw_apply raw (eff b m))"
    using assms by (cases raw) (simp_all add: rocks_effect_def, (metis sum.simps(6))+)
  with Cons show ?case by (metis fold_simps(2))
qed simp

lemma raw_apply_transaction:
  assumes "digits_ok X" "list_all (op_encodable X) tx"
  shows "decode_slot X (fold raw_apply (map (raw_operation X) tx) m) = apply_tx tx (decode_slot X m)"
    and "decodable X m \<Longrightarrow> decodable X (fold raw_apply (map (raw_operation X) tx) m)"
  using assms(2)
  by (induction tx arbitrary: m) (simp_all add: raw_apply_operation [OF assms(1)])

lemma disk_view:
  assumes "rocks_ok R"
  shows "kv_view (disk_ops X format R) d = decode_slot X (rocks_content R d)"
proof
  fix k
  from assms obtain v where "rocks_get R d (rk_location (raw_key k)) (rk_key (raw_key k)) = Inr v"
    unfolding rocks_ok_def rocks_effect_def by metis
  then show "kv_view (disk_ops X format R) d k = decode_slot X (rocks_content R d) k"
    by (auto simp: kv_view_def disk_ops_def disk_get_def disk_get_raw_def decode_slot_def
        rocks_content_def raw_slot_def split: option.split sum.split)
qed

lemma disk_write_content:
  assumes "rocks_ok R"
  shows "\<exists>d'. kv_write (disk_ops X format R) d tx = (d', Inr ()) \<and>
    rocks_content R d' = fold raw_apply (map (raw_operation X) tx) (rocks_content R d)"
proof -
  from assms obtain eff where eff: "rocks_effect R eff" by (auto simp: rocks_ok_def)
  from disk_batch_effect [OF eff, of "map (raw_operation X) tx" "batch_new R"] obtain b where
    b: "disk_batch R (map (raw_operation X) tx) (batch_new R) = Inr b"
      "\<And>m. eff b m = fold raw_apply (map (raw_operation X) tx) (eff (batch_new R) m)" by blast
  from eff obtain d' where "rocks_write R d b = (d', Inr ())" "rocks_content R d' = eff b (rocks_content R d)"
    unfolding rocks_effect_def by blast
  with b eff show ?thesis
    by (simp add: disk_ops_def disk_write_def disk_write_raw_def rocks_effect_def)
qed

lemma disk_database:
  assumes "rocks_ok R" "digits_ok X"
  shows "kv_database (disk_ops X format R) (disk_inv X R) (op_encodable X)"
proof
  fix d k v tx
  assume d: "disk_inv X R d"
  from assms(1) obtain c where c: "rocks_get R d (rk_location (raw_key k)) (rk_key (raw_key k)) = Inr c"
    unfolding rocks_ok_def rocks_effect_def by metis
  then have "rocks_content R d (raw_slot k) = c" by (simp add: rocks_content_def raw_slot_def)
  with d c show "\<exists>s. kv_get (disk_ops X format R) d k = Inr s"
    by (cases c) (fastforce simp: disk_ops_def disk_get_def disk_get_raw_def disk_inv_def decodable_def
        split: sum.split)+
  show "value_for k v" if "kv_view (disk_ops X format R) d k = Some v"
    using that
    by (auto simp: disk_view [OF assms(1)] decode_slot_def value_for_key_typed
        split: option.splits sum.splits)
  assume tx: "list_all (op_encodable X) tx"
  from disk_write_content [OF assms(1)] obtain d' where
    d': "kv_write (disk_ops X format R) d tx = (d', Inr ())"
      "rocks_content R d' = fold raw_apply (map (raw_operation X) tx) (rocks_content R d)" by blast
  show "snd (kv_write (disk_ops X format R) d tx) = Inr ()" by (simp add: d')
  show "disk_inv X R (fst (kv_write (disk_ops X format R) d tx))"
    using d by (simp add: d' disk_inv_def raw_apply_transaction(2) [OF assms(2) tx])
  show "kv_view (disk_ops X format R) (fst (kv_write (disk_ops X format R) d tx)) =
      apply_tx tx (kv_view (disk_ops X format R) d)"
    by (simp add: d' disk_view [OF assms(1)] raw_apply_transaction(1) [OF assms(2) tx])
qed

section \<open>Instances of the third-party parameters\<close>

text \<open>A cache of one entry, and a store kept as a map with batches as lists of operations.\<close>

definition one_entry_lru :: "(h256 \<times> Block KeyState) option lru_ops" where
  "one_entry_lru =
     \<lparr>lru_new = (\<lambda>_. None), lru_insert = (\<lambda>_ h s. Some (h, s)),
      lru_get_mut = (\<lambda>c h. (case c of None \<Rightarrow> None | Some (h', s) \<Rightarrow> if h = h' then Some s else None, c))\<rparr>"

definition map_rocks :: "(Location \<times> bytes \<Rightarrow> bytes option, RawOperation list) rocks_ops" where
  "map_rocks =
     \<lparr>batch_new = [],
      batch_put = (\<lambda>b l k v. Inr (b @ [RawInsert \<lparr>rkv_location = l, rkv_key = k, rkv_value = v\<rparr>])),
      batch_delete = (\<lambda>b l k. Inr (b @ [RawDelete \<lparr>rk_location = l, rk_key = k\<rparr>])),
      rocks_write = (\<lambda>d b. (fold raw_apply b d, Inr ())),
      rocks_get = (\<lambda>d l k. Inr (d (l, k)))\<rparr>"

lemma one_entry_lru_ok: "lru_ok one_entry_lru"
  by (auto simp: lru_ok_def lru_peek_def one_entry_lru_def split: option.split)

lemma map_rocks_content [simp]: "rocks_content map_rocks d = d"
  by (simp add: fun_eq_iff rocks_content_def map_rocks_def)

lemma map_rocks_ok: "rocks_ok map_rocks"
proof -
  have "rocks_effect map_rocks (fold raw_apply)"
    unfolding rocks_effect_def map_rocks_content by (simp add: map_rocks_def)
  then show ?thesis by (auto simp: rocks_ok_def)
qed

interpretation disk:
  kv_database "disk_ops reference_externs (\<lambda>_. []) map_rocks" "disk_inv reference_externs map_rocks"
    "op_encodable reference_externs"
  by (rule disk_database [OF map_rocks_ok reference_externs_ok(1)])

section \<open>Properties\<close>

text \<open>
  The databases a node opens: the block cache over the flushing overlay (limit 50) over the disk
  (\<^verbatim>\<open>BlockChainDatabase::open_with_cache\<close>).
\<close>

definition production_ops ::
  "'c lru_ops \<Rightarrow> 'd kv_ops \<Rightarrow> ('d AutoFlushingOverlayDatabase, 'c) CacheDatabase kv_ops" where
  "production_ops L ops = cache_ops L (autoflush_ops ops)"

definition production_open ::
  "'c lru_ops \<Rightarrow> 'd \<Rightarrow> ('d AutoFlushingOverlayDatabase, 'c) CacheDatabase" where
  "production_open L d = cache_new L (autoflush_new d 50)"

context kv_database
begin

lemma autoflush_new_ok:
  assumes "db_inv d"
  shows "autoflush_inv db_inv op_ok (autoflush_new d n)"
    and "kv_view (autoflush_ops ops) (autoflush_new d n) = kv_view ops d"
proof -
  show inv: "autoflush_inv db_inv op_ok (autoflush_new d n)"
    using assms by (simp add: autoflush_inv_def autoflush_new_def)
  show "kv_view (autoflush_ops ops) (autoflush_new d n) = kv_view ops d"
    by (simp add: autoflush_view [OF inv]) (simp add: autoflush_new_def)
qed

lemma cache_new_ok:
  assumes "lru_ok L" "db_inv d"
  shows "cache_inv L ops db_inv (cache_new L d)"
    and "kv_view (cache_ops L ops) (cache_new L d) = kv_view ops d"
proof -
  show inv: "cache_inv L ops db_inv (cache_new L d)"
    using assms by (simp add: cache_inv_def cache_new_def lru_ok_def)
  show "kv_view (cache_ops L ops) (cache_new L d) = kv_view ops d"
    by (simp add: cache_view [OF inv]) (simp add: cache_new_def)
qed

end

lemma production_database:
  assumes "kv_database ops db_inv op_ok" "lru_ok L"
  shows "kv_database (production_ops L ops)
    (cache_inv L (autoflush_ops ops) (autoflush_inv db_inv op_ok)) op_ok"
  unfolding production_ops_def
  using assms by (intro kv_database.cache_database kv_database.autoflush_database)

lemma production_open_ok:
  assumes "kv_database ops db_inv op_ok" "lru_ok L" "db_inv d"
  shows "cache_inv L (autoflush_ops ops) (autoflush_inv db_inv op_ok) (production_open L d)"
    and "kv_view (production_ops L ops) (production_open L d) = kv_view ops d"
  unfolding production_open_def production_ops_def
  using kv_database.cache_new_ok [OF kv_database.autoflush_database [OF assms(1)] assms(2)]
    kv_database.autoflush_new_ok [OF assms(1,3)]
  by simp_all

text \<open>C8: after any sequence of transactions, every read through the node's database stack (block
  cache, flushing overlay, disk) returns the last value that was written, or what was on disk
  before; and when the stack is dropped the flush succeeds and the disk alone shows the same.\<close>

theorem production_stack_correct:
  assumes "rocks_ok R" "digits_ok X" "lru_ok L" "disk_inv X R d"
    and "list_all (list_all (op_encodable X)) txs"
    and "ops = disk_ops X format R"
    and "c = fold (\<lambda>tx c. fst (kv_write (production_ops L ops) c tx)) txs (production_open L d)"
  shows "kv_view (production_ops L ops) c = apply_tx (concat txs) (kv_view ops d) \<and>
    (\<exists>d'. autoflush_drop ops (cd_db c) = Some d' \<and> disk_inv X R d' \<and>
          kv_view ops d' = apply_tx (concat txs) (kv_view ops d))"
proof -
  have disk: "kv_database ops (disk_inv X R) (op_encodable X)"
    unfolding assms(6) by (rule disk_database [OF assms(1,2)])
  note start = production_open_ok [OF disk assms(3,4)]
  have inv: "cache_inv L (autoflush_ops ops) (autoflush_inv (disk_inv X R) (op_encodable X)) c"
    and view: "kv_view (production_ops L ops) c = apply_tx (concat txs) (kv_view ops d)"
    using kv_database.write_all_view [OF production_database [OF disk assms(3)] start(1) assms(5)]
    by (simp_all add: assms(7) start(2))
  then have af: "autoflush_inv (disk_inv X R) (op_encodable X) (cd_db c)" by (simp add: cache_inv_def)
  have "kv_view (production_ops L ops) c = kv_view (autoflush_ops ops) (cd_db c)"
    unfolding production_ops_def
    by (rule kv_database.cache_view [OF kv_database.autoflush_database [OF disk] inv])
  with kv_database.autoflush_flush_correct [OF disk af] view show ?thesis
    by (auto simp: autoflush_drop_def)
qed

definition empty_rocks :: "Location \<times> bytes \<Rightarrow> bytes option" where
  "empty_rocks = (\<lambda>_. None)"

definition sample_txs :: "Transaction list" where
  "sample_txs = [[Insert (BlockData 9 sample_block), Insert (BlockNumber 9 4)],
                 [Delete (KBlockNumber 9), Insert (Meta ''best'' [1])]]"

lemma sample_txs_ok:
  "disk_inv reference_externs map_rocks empty_rocks"
  "list_all (list_all (op_encodable reference_externs)) sample_txs"
  by (simp_all add: disk_inv_def decodable_def empty_rocks_def sample_txs_def sample_valid)

theorem production_stack_correct_witness:
  "kv_view (production_ops one_entry_lru (disk_ops reference_externs (\<lambda>_. []) map_rocks))
     (fold (\<lambda>tx c. fst (kv_write
         (production_ops one_entry_lru (disk_ops reference_externs (\<lambda>_. []) map_rocks)) c tx))
       sample_txs (production_open one_entry_lru empty_rocks)) (KBlock 9) = Some (VBlock sample_block)"
  using production_stack_correct [OF map_rocks_ok reference_externs_ok(1) one_entry_lru_ok
      sample_txs_ok refl refl]
  by (simp add: sample_txs_def)

text \<open>Flushing an overlay (a fork of the database) succeeds, empties it, and leaves the database
  below showing exactly what the overlay showed, over any database that satisfies the contract;
  stated here over the in-memory database.\<close>

theorem overlay_flush_moves_view:
  assumes "overlay_inv memory_inv (\<lambda>_. True) ov"
  shows "\<exists>ov'. overlay_flush memory_ops ov = (ov', Inr ()) \<and> memory_inv (od_db ov') \<and>
    drained (od_overlay ov') = [] \<and>
    kv_view memory_ops (od_db ov') = kv_view (overlay_ops memory_ops) ov"
  using memory.overlay_flush_correct [OF assms] by (auto simp: overlay_inv_def)

definition sample_overlay :: "MemoryDatabase OverlayDatabase" where
  "sample_overlay = fst (overlay_write (overlay_new memory_default) (concat sample_txs))"

lemma sample_overlay_inv: "overlay_inv memory_inv (\<lambda>_. True) sample_overlay"
  unfolding sample_overlay_def
  using overlay_memory.write_inv [of "overlay_new memory_default" "concat sample_txs"]
  by (simp add: overlay_ops_def list_all_iff overlay_inv_def overlay_new_def)

theorem overlay_flush_moves_view_witness:
  "\<exists>ov'. overlay_flush memory_ops sample_overlay = (ov', Inr ()) \<and> memory_inv (od_db ov') \<and>
    drained (od_overlay ov') = [] \<and>
    kv_view memory_ops (od_db ov') = kv_view (overlay_ops memory_ops) sample_overlay"
  by (rule overlay_flush_moves_view [OF sample_overlay_inv])

text \<open>Once a flush has failed the flushing overlay never flushes again: the counter is left at
  its limit, and every later write moves it further away.\<close>

theorem autoflush_failed_flush_disables_flushing:
  assumes "af_operations a + 1 = af_max_operations a"
    and "autoflush_write ops a tx = (a', Inl e)"
  shows "af_db (fold (\<lambda>tx a. fst (autoflush_write ops a tx)) txs a') = af_db a'"
proof -
  have stuck: "af_db (fold (\<lambda>tx a. fst (autoflush_write ops a tx)) txs b) = af_db b"
    if "af_max_operations b \<le> af_operations b" for b
    using that
    by (induction txs arbitrary: b) (simp_all add: autoflush_write_def memory_write_def Let_def)
  have "af_operations a' = af_max_operations a'"
    using assms
    by (auto simp: autoflush_write_def memory_write_def autoflush_flush_def Let_def
        split: prod.splits sum.splits)
  then show ?thesis using stuck by simp
qed

definition broken_ops :: "MemoryDatabase kv_ops" where
  "broken_ops = memory_ops\<lparr>kv_write := (\<lambda>d tx. (d, Inl ''no space left''))\<rparr>"

theorem autoflush_failed_flush_disables_flushing_witness:
  "af_db (fold (\<lambda>tx a. fst (autoflush_write broken_ops a tx)) [[], []]
     (fst (autoflush_write broken_ops (autoflush_new memory_default 1) []))) = memory_default"
  using autoflush_failed_flush_disables_flushing
    [of "autoflush_new memory_default 1" broken_ops "[]" "(autoflush_new memory_default 1)\<lparr>af_operations := 1\<rparr>"
      "''no space left''" "[[], []]"]
  by (simp add: autoflush_new_def autoflush_write_def memory_write_def autoflush_flush_def
      broken_ops_def drain_transaction_eq)

end
