(* ===== verification/Block_Db.thy ===== *)
theory Block_Db
  imports Kv_Store "HOL-Library.Monad_Syntax"
begin

text \<open>
  The block chain database (\<^verbatim>\<open>db/src/block_chain_db.rs\<close>, \<^verbatim>\<open>storage/src\<close>): blocks by hash, the canonical
  chain indexed by number and by hash, forks and the switch to a fork.

  The abstract state is the list of the hashes of the canonical chain, genesis first. \<open>chain_inv\<close>
  relates a database to it; inserting, canonizing, decanonizing, forking and switching to a fork
  are shown to be the corresponding operations on that list. A panic of the code is \<open>None\<close>.
\<close>

section \<open>Storage types\<close>

record BestBlock =
  bb_number :: u32
  bb_hash :: h256

definition best_block_default :: BestBlock where
  "best_block_default = \<lparr>bb_number = 0, bb_hash = 0\<rparr>"

record SideChainOrigin =
  ancestor :: u32
  canonized_route :: "h256 list"
  decanonized_route :: "h256 list"
  origin_block_number :: u32

datatype BlockOrigin =
    KnownBlock
  | CanonChain u32
  | SideChain SideChainOrigin
  | SideChainBecomingCanonChain SideChainOrigin

datatype BlockRef = RefNumber u32 | RefHash h256

datatype Error =
    DatabaseError string
  | CannotCanonize
  | CannotDecanonize
  | UnknownParent
  | AncientFork

fun map_db_error :: "string + 'a \<Rightarrow> Error + 'a" where
  "map_db_error (Inl e) = Inl (DatabaseError e)"
| "map_db_error (Inr v) = Inr v"

section \<open>Reading\<close>

record 'd BlockChainDatabase =
  best :: BestBlock
  bdb :: 'd

definition KEY_BEST_BLOCK_NUMBER :: string where "KEY_BEST_BLOCK_NUMBER = ''best_block_number''"
definition KEY_BEST_BLOCK_HASH :: string where "KEY_BEST_BLOCK_HASH = ''best_block_hash''"
definition MAX_FORK_ROUTE_PRESET :: nat where "MAX_FORK_ROUTE_PRESET = 2048"

definition db_get :: "'d kv_ops \<Rightarrow> 'd BlockChainDatabase \<Rightarrow> Key \<Rightarrow> Value option option" where
  "db_get ops s k =
     (case kv_get ops (bdb s) k of
        Inl _ \<Rightarrow> None
      | Inr state \<Rightarrow> Some (into_option state))"

definition db_block_number :: "'d kv_ops \<Rightarrow> 'd BlockChainDatabase \<Rightarrow> h256 \<Rightarrow> u32 option option" where
  "db_block_number ops s h =
     do { v \<leftarrow> db_get ops s (KBlockNumber h); Some (Option.bind v as_block_number) }"

definition db_block_hash :: "'d kv_ops \<Rightarrow> 'd BlockChainDatabase \<Rightarrow> u32 \<Rightarrow> h256 option option" where
  "db_block_hash ops s n =
     do { v \<leftarrow> db_get ops s (KBlockHash n); Some (Option.bind v as_block_hash) }"

fun resolve_hash :: "'d kv_ops \<Rightarrow> 'd BlockChainDatabase \<Rightarrow> BlockRef \<Rightarrow> h256 option option" where
  "resolve_hash ops s (RefNumber n) = db_block_hash ops s n"
| "resolve_hash ops s (RefHash h) = Some (Some h)"

definition db_block_header ::
  "'d kv_ops \<Rightarrow> 'd BlockChainDatabase \<Rightarrow> BlockRef \<Rightarrow> IndexedBlockHeader option option" where
  "db_block_header ops s r =
     do { block_hash \<leftarrow> resolve_hash ops s r;
          case block_hash of
            None \<Rightarrow> Some None
          | Some h \<Rightarrow>
              do { v \<leftarrow> db_get ops s (KBlock h);
                   Some (map_option (\<lambda>b. \<lparr>hash = h, raw = block_header b\<rparr>) (Option.bind v as_block)) } }"

definition db_block_header_bytes ::
  "externs \<Rightarrow> 'd kv_ops \<Rightarrow> 'd BlockChainDatabase \<Rightarrow> BlockRef \<Rightarrow> bytes option option" where
  "db_block_header_bytes X ops s r =
     map_option (map_option (\<lambda>h. ser_header X (raw h))) (db_block_header ops s r)"

definition db_block ::
  "'d kv_ops \<Rightarrow> 'd BlockChainDatabase \<Rightarrow> BlockRef \<Rightarrow> IndexedBlock option option" where
  "db_block ops s r =
     do { block_hash \<leftarrow> resolve_hash ops s r;
          case block_hash of
            None \<Rightarrow> Some None
          | Some h \<Rightarrow>
              do { v \<leftarrow> db_get ops s (KBlock h);
                   Some (map_option (\<lambda>b. \<lparr>header = \<lparr>hash = h, raw = block_header b\<rparr>,
                                          vdf_proof = block_proof b\<rparr>)
                          (Option.bind v as_block)) } }"

definition contains_block :: "'d kv_ops \<Rightarrow> 'd BlockChainDatabase \<Rightarrow> BlockRef \<Rightarrow> bool option" where
  "contains_block ops s r =
     do { block_hash \<leftarrow> resolve_hash ops s r;
          case block_hash of
            None \<Rightarrow> Some False
          | Some h \<Rightarrow> do { v \<leftarrow> db_get ops s (KBlock h); Some (v \<noteq> None) } }"

definition best_header :: "'d kv_ops \<Rightarrow> 'd BlockChainDatabase \<Rightarrow> IndexedBlockHeader option" where
  "best_header ops s = Option.bind (db_block_header ops s (RefHash (bb_hash (best s)))) (\<lambda>h. h)"

section \<open>Opening\<close>

definition read_meta :: "'d kv_ops \<Rightarrow> 'd \<Rightarrow> string \<Rightarrow> string + bytes option" where
  "read_meta ops d key =
     (case kv_get ops d (KMeta key) of
        Inl e \<Rightarrow> Inl e
      | Inr state \<Rightarrow> Inr (Option.bind (into_option state) as_meta))"

definition read_best_block :: "'d kv_ops \<Rightarrow> 'd \<Rightarrow> BestBlock option option" where
  "read_best_block ops d =
     (case (read_meta ops d KEY_BEST_BLOCK_NUMBER, read_meta ops d KEY_BEST_BLOCK_HASH) of
        (Inr None, Inr None) \<Rightarrow> Some None
      | (Inr (Some number), Inr (Some best_hash)) \<Rightarrow>
          (case (deserialize de_u32 number, deserialize de_h256 best_hash) of
             (Inr n, Inr h) \<Rightarrow> Some (Some \<lparr>bb_number = n, bb_hash = h\<rparr>)
           | _ \<Rightarrow> None)
      | _ \<Rightarrow> None)"

definition db_open :: "'d kv_ops \<Rightarrow> 'd \<Rightarrow> 'd BlockChainDatabase option" where
  "db_open ops d =
     do { b \<leftarrow> read_best_block ops d;
          Some \<lparr>best = (case b of None \<Rightarrow> best_block_default | Some b \<Rightarrow> b), bdb = d\<rparr> }"

definition open_with_cache ::
  "'c lru_ops \<Rightarrow> 'd kv_ops \<Rightarrow> 'd \<Rightarrow>
   ('d AutoFlushingOverlayDatabase, 'c) CacheDatabase BlockChainDatabase option" where
  "open_with_cache L ops d = db_open (production_ops L ops) (production_open L d)"

section \<open>Writing\<close>

definition db_write ::
  "'d kv_ops \<Rightarrow> 'd BlockChainDatabase \<Rightarrow> Transaction \<Rightarrow> 'd BlockChainDatabase \<times> (Error + unit)" where
  "db_write ops s tx =
     (case kv_write ops (bdb s) tx of (d, res) \<Rightarrow> (s\<lparr>bdb := d\<rparr>, map_db_error res))"

definition db_insert ::
  "'d kv_ops \<Rightarrow> 'd BlockChainDatabase \<Rightarrow> IndexedBlock \<Rightarrow>
   ('d BlockChainDatabase \<times> (Error + unit)) option" where
  "db_insert ops s block =
     do { known \<leftarrow> contains_block ops s (RefHash (block_hash_of block));
          if known then Some (s, Inr ())
          else do {
            let parent_hash = previous_header_hash (raw (header block));
            parent_known \<leftarrow> contains_block ops s (RefHash parent_hash);
            if \<not> parent_known \<and> parent_hash \<noteq> 0 then Some (s, Inl UnknownParent)
            else Some (db_write ops s
              (tx_insert (BlockData (block_hash_of block)
                 \<lparr>block_header = raw (header block), block_proof = vdf_proof block\<rparr>) [])) } }"

definition set_best_tx :: "BestBlock \<Rightarrow> Transaction \<Rightarrow> Transaction" where
  "set_best_tx b tx =
     tx_insert (Meta KEY_BEST_BLOCK_NUMBER (ser_u32 (bb_number b)))
       (tx_insert (Meta KEY_BEST_BLOCK_HASH (ser_h256 (bb_hash b))) tx)"

definition set_best ::
  "BestBlock \<Rightarrow> 'd BlockChainDatabase \<times> (Error + unit) \<Rightarrow> 'a \<Rightarrow>
   'd BlockChainDatabase \<times> (Error + 'a)" where
  "set_best b r a = (case r of (s, Inl e) \<Rightarrow> (s, Inl e) | (s, Inr _) \<Rightarrow> (s\<lparr>best := b\<rparr>, Inr a))"

definition canonize ::
  "'d kv_ops \<Rightarrow> 'd BlockChainDatabase \<Rightarrow> h256 \<Rightarrow>
   ('d BlockChainDatabase \<times> (Error + unit)) option" where
  "canonize ops s h =
     do { found \<leftarrow> db_block ops s (RefHash h);
          case found of
            None \<Rightarrow> Some (s, Inl CannotCanonize)
          | Some block \<Rightarrow>
              let parent = previous_header_hash (raw (header block)) in
              if bb_hash (best s) \<noteq> parent then Some (s, Inl CannotCanonize)
              else if parent = 0 \<and> bb_number (best s) \<noteq> 0 then None
              else
                let new_best = \<lparr>bb_number = (if parent = 0 then 0 else bb_number (best s) + 1),
                                bb_hash = h\<rparr>;
                    update = tx_insert (BlockNumber (bb_hash new_best) (bb_number new_best))
                               (tx_insert (BlockHash (bb_number new_best) (bb_hash new_best)) [])
                in Some (set_best new_best (db_write ops s (set_best_tx new_best update)) ()) }"

definition decanonize ::
  "'d kv_ops \<Rightarrow> 'd BlockChainDatabase \<Rightarrow> ('d BlockChainDatabase \<times> (Error + h256)) option" where
  "decanonize ops s =
     do { found \<leftarrow> db_block ops s (RefHash (bb_hash (best s)));
          case found of
            None \<Rightarrow> Some (s, Inl CannotDecanonize)
          | Some block \<Rightarrow>
              let parent = previous_header_hash (raw (header block)) in
              if \<not> bb_number (best s) > 0 \<and> parent \<noteq> 0 then None
              else
                let new_best = \<lparr>bb_number = (if bb_number (best s) > 0 then bb_number (best s) - 1 else 0),
                                bb_hash = parent\<rparr>;
                    update = tx_delete (KBlockNumber (bb_hash (best s)))
                               (tx_delete (KBlockHash (bb_number (best s))) [])
                in Some (set_best new_best (db_write ops s (set_best_tx new_best update))
                          (bb_hash (best s))) }"

section \<open>Forks\<close>

type_synonym 'd ForkChainDatabase = "'d OverlayDatabase BlockChainDatabase"

fun fork_decanonize ::
  "'d kv_ops \<Rightarrow> h256 list \<Rightarrow> 'd BlockChainDatabase \<Rightarrow> (Error + 'd BlockChainDatabase) option" where
  "fork_decanonize ops [] s = Some (Inr s)"
| "fork_decanonize ops (h # hs) s =
     do { r \<leftarrow> decanonize ops s;
          case r of
            (s, Inl e) \<Rightarrow> Some (Inl e)
          | (s, Inr decanonized) \<Rightarrow> if h \<noteq> decanonized then None else fork_decanonize ops hs s }"

fun fork_canonize ::
  "'d kv_ops \<Rightarrow> h256 list \<Rightarrow> 'd BlockChainDatabase \<Rightarrow> (Error + 'd BlockChainDatabase) option" where
  "fork_canonize ops [] s = Some (Inr s)"
| "fork_canonize ops (h # hs) s =
     do { r \<leftarrow> canonize ops s h;
          case r of
            (s, Inl e) \<Rightarrow> Some (Inl e)
          | (s, Inr _) \<Rightarrow> fork_canonize ops hs s }"

definition fork ::
  "'d kv_ops \<Rightarrow> 'd BlockChainDatabase \<Rightarrow> SideChainOrigin \<Rightarrow>
   (Error + 'd ForkChainDatabase) option" where
  "fork ops s side_chain =
     do { ov \<leftarrow> db_open (overlay_ops ops) (overlay_new (bdb s));
          r \<leftarrow> fork_decanonize (overlay_ops ops) (rev (decanonized_route side_chain)) ov;
          case r of
            Inl e \<Rightarrow> Some (Inl e)
          | Inr ov \<Rightarrow> fork_canonize (overlay_ops ops) (canonized_route side_chain) ov }"

text \<open>
  The overlay of a fork refers to the database it was made from, so the flush writes to that
  database. The best block is replaced before the flush.
\<close>

definition switch_to_fork ::
  "'d kv_ops \<Rightarrow> 'd BlockChainDatabase \<Rightarrow> 'd ForkChainDatabase \<Rightarrow>
   'd BlockChainDatabase \<times> (Error + unit)" where
  "switch_to_fork ops s f =
     (let s = s\<lparr>best := best f\<rparr> in
      case overlay_flush ops ((bdb f)\<lparr>od_db := bdb s\<rparr>) of
        (ov, res) \<Rightarrow> (s\<lparr>bdb := od_db ov\<rparr>, map_db_error res))"

section \<open>Where a block belongs\<close>

fun filter_map_opt :: "('a \<Rightarrow> 'b option option) \<Rightarrow> 'a list \<Rightarrow> 'b list option" where
  "filter_map_opt f [] = Some []"
| "filter_map_opt f (x # xs) =
     do { y \<leftarrow> f x; ys \<leftarrow> filter_map_opt f xs;
          Some (case y of None \<Rightarrow> ys | Some y \<Rightarrow> y # ys) }"

definition u32_range :: "u32 \<Rightarrow> u32 \<Rightarrow> u32 list" where
  "u32_range a b = map of_nat [unat a ..< unat b]"

fun origin_loop ::
  "'d kv_ops \<Rightarrow> 'd BlockChainDatabase \<Rightarrow> nat \<Rightarrow> nat \<Rightarrow> h256 \<Rightarrow> h256 list \<Rightarrow>
   (Error + BlockOrigin) option" where
  "origin_loop ops s 0 fork_len next_hash sidechain_route = Some (Inl AncientFork)"
| "origin_loop ops s (Suc rounds) fork_len next_hash sidechain_route =
     do { number \<leftarrow> db_block_number ops s next_hash;
          case number of
            Some number \<Rightarrow>
              do { let block_number = number + of_nat fork_len + 1;
                   decanonized \<leftarrow> filter_map_opt (db_block_hash ops s)
                                     (u32_range (number + 1) (bb_number (best s) + 1));
                   let origin = \<lparr>ancestor = number, canonized_route = rev sidechain_route,
                                 decanonized_route = decanonized,
                                 origin_block_number = block_number\<rparr>;
                   if block_number > bb_number (best s)
                   then Some (Inr (SideChainBecomingCanonChain origin))
                   else Some (Inr (SideChain origin)) }
          | None \<Rightarrow>
              do { h \<leftarrow> db_block_header ops s (RefHash next_hash);
                   h \<leftarrow> h;
                   origin_loop ops s rounds (Suc fork_len) (previous_header_hash (raw h))
                     (sidechain_route @ [next_hash]) } }"

definition block_origin ::
  "'d kv_ops \<Rightarrow> 'd BlockChainDatabase \<Rightarrow> IndexedBlockHeader \<Rightarrow> (Error + BlockOrigin) option" where
  "block_origin ops s h =
     do { best_hash \<leftarrow> db_block_hash ops s (bb_number (best s));
          if best_hash \<noteq> Some (bb_hash (best s)) then None
          else do {
            known \<leftarrow> contains_block ops s (RefHash (hash h));
            if known then Some (Inr KnownBlock)
            else if bb_hash (best s) = previous_header_hash (raw h)
            then Some (Inr (CanonChain (bb_number (best s) + 1)))
            else do {
              parent_known \<leftarrow> contains_block ops s (RefHash (previous_header_hash (raw h)));
              if \<not> parent_known then Some (Inl UnknownParent)
              else origin_loop ops s MAX_FORK_ROUTE_PRESET 0 (previous_header_hash (raw h)) [] } } }"

section \<open>A chain of given blocks\<close>

fun insert_canonize_all ::
  "'d kv_ops \<Rightarrow> IndexedBlock list \<Rightarrow> 'd BlockChainDatabase \<Rightarrow> 'd BlockChainDatabase option" where
  "insert_canonize_all ops [] s = Some s"
| "insert_canonize_all ops (b # bs) s =
     do { r \<leftarrow> db_insert ops s b;
          case r of
            (s, Inl _) \<Rightarrow> None
          | (s, Inr _) \<Rightarrow>
              do { r \<leftarrow> canonize ops s (block_hash_of b);
                   case r of (s, Inl _) \<Rightarrow> None | (s, Inr _) \<Rightarrow> insert_canonize_all ops bs s } }"

definition init_test_chain :: "IndexedBlock list \<Rightarrow> MemoryDatabase BlockChainDatabase option" where
  "init_test_chain blocks =
     do { store \<leftarrow> db_open memory_ops memory_default; insert_canonize_all memory_ops blocks store }"

section \<open>Iterating over headers\<close>

text \<open>
  \<^verbatim>\<open>BlockAncestors\<close> walks from a block to its ancestors, \<^verbatim>\<open>BlockIterator\<close> over the numbers with a
  period; the header provider is the function argument. Both may run forever, so the
  collecting functions take the number of items the caller takes.
\<close>

type_synonym header_provider = "BlockRef \<Rightarrow> IndexedBlockHeader option option"

definition block_ancestors_next ::
  "header_provider \<Rightarrow> BlockRef option \<Rightarrow> (IndexedBlockHeader option \<times> BlockRef option) option" where
  "block_ancestors_next headers block =
     do { result \<leftarrow> (case block of None \<Rightarrow> Some None | Some r \<Rightarrow> headers r);
          Some (result, map_option (\<lambda>h. RefHash (previous_header_hash (raw h))) result) }"

fun take_ancestors ::
  "nat \<Rightarrow> header_provider \<Rightarrow> BlockRef option \<Rightarrow> IndexedBlockHeader list option" where
  "take_ancestors 0 headers block = Some []"
| "take_ancestors (Suc n) headers block =
     do { r \<leftarrow> block_ancestors_next headers block;
          case r of
            (None, _) \<Rightarrow> Some []
          | (Some h, block) \<Rightarrow> do { hs \<leftarrow> take_ancestors n headers block; Some (h # hs) } }"

definition block_iterator_next ::
  "header_provider \<Rightarrow> u32 \<Rightarrow> u32 \<Rightarrow> ((u32 \<times> IndexedBlockHeader) option \<times> u32) option" where
  "block_iterator_next headers period block =
     do { h \<leftarrow> headers (RefNumber block); Some (map_option (Pair block) h, block + period) }"

section \<open>The canonical chain as a list\<close>

text \<open>The parent a stored block names, and parent-linked lists of hashes, oldest first.\<close>

definition prev_of :: "(Key \<Rightarrow> Value option) \<Rightarrow> h256 \<Rightarrow> h256 option" where
  "prev_of v h =
     map_option (\<lambda>b. previous_header_hash (block_header b)) (Option.bind (v (KBlock h)) as_block)"

fun linked :: "(h256 \<Rightarrow> h256 option) \<Rightarrow> h256 \<Rightarrow> h256 list \<Rightarrow> bool" where
  "linked prev p [] = True"
| "linked prev p (h # hs) = (prev h = Some p \<and> linked prev h hs)"

lemma linked_append: "linked prev p (xs @ ys) \<longleftrightarrow> linked prev p xs \<and> linked prev (last (p # xs)) ys"
  by (induction xs arbitrary: p) auto

lemma linked_prev: "linked prev p hs \<Longrightarrow> h \<in> set hs \<Longrightarrow> prev h \<noteq> None"
  by (induction hs arbitrary: p) auto

lemma linked_nth:
  assumes "linked prev p hs" "i < length hs"
  shows "prev (hs ! i) = Some ((p # hs) ! i)"
  using assms by (induction hs arbitrary: p i) (auto simp: nth_Cons split: nat.splits)

lemma linked_distinct:
  assumes "prev 0 = None" "linked prev 0 hs"
  shows "distinct (0 # hs)"
  using assms(2)
proof (induction hs rule: rev_induct)
  case (snoc h hs)
  then have l: "linked prev 0 hs" and h: "prev h = Some (last (0 # hs))"
    by (simp_all add: linked_append)
  with snoc have d: "distinct (0 # hs)" by simp
  have "h \<noteq> 0" using h assms(1) by auto
  moreover have "h \<notin> set hs"
  proof
    assume "h \<in> set hs"
    then obtain i where i: "i < length hs" "hs ! i = h" by (auto simp: in_set_conv_nth)
    with h linked_nth [OF l i(1)] have "(0 # hs) ! i = (0 # hs) ! length hs"
      using last_conv_nth [of "0 # hs"] by simp
    with d i(1) show False using nth_eq_iff_index_eq [OF d, of i "length hs"] by simp
  qed
  ultimately show ?case using d by auto
qed simp

lemma linked_update: "linked prev p hs \<Longrightarrow> h \<notin> set hs \<Longrightarrow> linked (prev(h := q)) p hs"
  by (induction hs arbitrary: p) auto

definition best_of :: "h256 list \<Rightarrow> BestBlock" where
  "best_of hs = \<lparr>bb_number = of_nat (length hs - 1), bb_hash = last (0 # hs)\<rparr>"

definition meta_view :: "(Key \<Rightarrow> Value option) \<Rightarrow> h256 list \<Rightarrow> bool" where
  "meta_view v hs \<longleftrightarrow>
     v (KMeta KEY_BEST_BLOCK_NUMBER) = Some (VMeta (ser_u32 (bb_number (best_of hs)))) \<and>
     v (KMeta KEY_BEST_BLOCK_HASH) = Some (VMeta (ser_h256 (bb_hash (best_of hs)))) \<or>
     hs = [] \<and> v (KMeta KEY_BEST_BLOCK_NUMBER) = None \<and> v (KMeta KEY_BEST_BLOCK_HASH) = None"

definition chain_view :: "(Key \<Rightarrow> Value option) \<Rightarrow> h256 list \<Rightarrow> bool" where
  "chain_view v hs \<longleftrightarrow>
     linked (prev_of v) 0 hs \<and> prev_of v 0 = None \<and> length hs < 2 ^ 32 \<and>
     (\<forall>n. v (KBlockHash n) = (if unat n < length hs then Some (VBlockHash (hs ! unat n)) else None)) \<and>
     (\<forall>h. v (KBlockNumber h) = map_option (\<lambda>i. VBlockNumber (of_nat i)) (find_pos h hs)) \<and>
     meta_view v hs"

lemma chain_view_distinct: "chain_view v hs \<Longrightarrow> distinct (0 # hs)"
  unfolding chain_view_def using linked_distinct by blast

lemma meta_keys_distinct [simp]: "KEY_BEST_BLOCK_NUMBER \<noteq> KEY_BEST_BLOCK_HASH"
  "KEY_BEST_BLOCK_HASH \<noteq> KEY_BEST_BLOCK_NUMBER"
  by (simp_all add: KEY_BEST_BLOCK_NUMBER_def KEY_BEST_BLOCK_HASH_def)

lemmas tx_defs = tx_insert_def tx_delete_def set_best_tx_def

text \<open>The transactions of \<^verbatim>\<open>canonize\<close> and \<^verbatim>\<open>decanonize\<close>.\<close>

definition canonize_tx :: "BestBlock \<Rightarrow> Transaction" where
  "canonize_tx b =
     set_best_tx b (tx_insert (BlockNumber (bb_hash b) (bb_number b))
       (tx_insert (BlockHash (bb_number b) (bb_hash b)) []))"

definition decanonize_tx :: "BestBlock \<Rightarrow> BestBlock \<Rightarrow> Transaction" where
  "decanonize_tx old b =
     set_best_tx b (tx_delete (KBlockNumber (bb_hash old)) (tx_delete (KBlockHash (bb_number old)) []))"

lemma canonize_tx_apply:
  "apply_tx (canonize_tx b) v (KBlock h) = v (KBlock h)"
  "apply_tx (canonize_tx b) v (KBlockHash n) =
     (if n = bb_number b then Some (VBlockHash (bb_hash b)) else v (KBlockHash n))"
  "apply_tx (canonize_tx b) v (KBlockNumber h) =
     (if h = bb_hash b then Some (VBlockNumber (bb_number b)) else v (KBlockNumber h))"
  "apply_tx (canonize_tx b) v (KMeta KEY_BEST_BLOCK_NUMBER) = Some (VMeta (ser_u32 (bb_number b)))"
  "apply_tx (canonize_tx b) v (KMeta KEY_BEST_BLOCK_HASH) = Some (VMeta (ser_h256 (bb_hash b)))"
  by (simp_all add: canonize_tx_def tx_defs)

lemma decanonize_tx_apply:
  "apply_tx (decanonize_tx old b) v (KBlock h) = v (KBlock h)"
  "apply_tx (decanonize_tx old b) v (KBlockHash n) =
     (if n = bb_number old then None else v (KBlockHash n))"
  "apply_tx (decanonize_tx old b) v (KBlockNumber h) =
     (if h = bb_hash old then None else v (KBlockNumber h))"
  "apply_tx (decanonize_tx old b) v (KMeta KEY_BEST_BLOCK_NUMBER) = Some (VMeta (ser_u32 (bb_number b)))"
  "apply_tx (decanonize_tx old b) v (KMeta KEY_BEST_BLOCK_HASH) = Some (VMeta (ser_h256 (bb_hash b)))"
  by (simp_all add: decanonize_tx_def tx_defs)

lemma prev_of_index_tx [simp]:
  "prev_of (apply_tx (canonize_tx b) v) = prev_of v"
  "prev_of (apply_tx (decanonize_tx old b) v) = prev_of v"
  by (simp_all add: fun_eq_iff prev_of_def canonize_tx_apply decanonize_tx_apply)

lemma best_of_snoc: "bb_number (best_of (hs @ [h])) = of_nat (length hs)" "bb_hash (best_of (hs @ [h])) = h"
  by (simp_all add: best_of_def)

lemma index_snoc:
  fixes n :: u32
  assumes "length hs < 2 ^ 32"
  shows "unat n < length (hs @ [h]) \<longleftrightarrow> unat n < length hs \<or> n = of_nat (length hs)"
    and "\<not> unat (of_nat (length hs) :: u32) < length hs"
    and "n \<noteq> of_nat (length hs) \<Longrightarrow> unat n < length hs \<Longrightarrow> (hs @ [h]) ! unat n = hs ! unat n"
  using assms unat_eq_of_nat_u32 [OF assms, of n] by (auto simp: nth_append less_Suc_eq)

lemma find_pos_snoc:
  "h \<notin> set hs \<Longrightarrow> find_pos k (hs @ [h]) = (if k = h then Some (length hs) else find_pos k hs)"
  by (auto simp: find_pos_append split: option.split)

lemma canonize_tx_view:
  assumes v: "chain_view v hs" and h: "prev_of v h = Some (last (0 # hs))" "length hs + 1 < 2 ^ 32"
  shows "chain_view (apply_tx (canonize_tx (best_of (hs @ [h]))) v) (hs @ [h])"
proof -
  let ?v = "apply_tx (canonize_tx (best_of (hs @ [h]))) v"
  from v h have l: "linked (prev_of ?v) 0 (hs @ [h])" "prev_of ?v 0 = None"
    by (simp_all add: chain_view_def linked_append)
  have new: "h \<notin> set hs" using linked_distinct [OF l(2,1)] by simp
  have len: "length hs < 2 ^ 32" using h(2) by simp
  have "?v (KBlockHash n) =
      (if unat n < length (hs @ [h]) then Some (VBlockHash ((hs @ [h]) ! unat n)) else None)" for n
    using v len unfolding index_snoc(1) [OF len]
    by (simp add: canonize_tx_apply best_of_snoc chain_view_def index_snoc)
  moreover have "?v (KBlockNumber k) = map_option (\<lambda>i. VBlockNumber (of_nat i)) (find_pos k (hs @ [h]))" for k
    using v new by (simp add: canonize_tx_apply best_of_snoc chain_view_def find_pos_snoc)
  moreover have "meta_view ?v (hs @ [h])" by (simp add: meta_view_def canonize_tx_apply)
  ultimately show ?thesis using l h(2) by (simp add: chain_view_def)
qed

lemma decanonize_tx_view:
  assumes v: "chain_view v (hs @ [h])"
  shows "chain_view (apply_tx (decanonize_tx (best_of (hs @ [h])) (best_of hs)) v) hs"
proof -
  let ?v = "apply_tx (decanonize_tx (best_of (hs @ [h])) (best_of hs)) v"
  have len: "length hs < 2 ^ 32" using v by (simp add: chain_view_def)
  from chain_view_distinct [OF v] have new: "h \<notin> set hs" by simp
  have index: "v (KBlockHash n) =
      (if unat n < length (hs @ [h]) then Some (VBlockHash ((hs @ [h]) ! unat n)) else None)" for n
    using v by (simp add: chain_view_def)
  have "?v (KBlockHash n) = (if unat n < length hs then Some (VBlockHash (hs ! unat n)) else None)" for n
    using len index [of n] unfolding index_snoc(1) [OF len]
    by (simp add: decanonize_tx_apply best_of_snoc index_snoc)
  moreover have "?v (KBlockNumber k) = map_option (\<lambda>i. VBlockNumber (of_nat i)) (find_pos k hs)" for k
    using v new by (simp add: decanonize_tx_apply best_of_snoc chain_view_def find_pos_snoc)
  moreover have "meta_view ?v hs" by (simp add: meta_view_def decanonize_tx_apply)
  ultimately show ?thesis using v len by (simp add: chain_view_def linked_append)
qed

section \<open>The operations implement it\<close>

text \<open>\<open>chain_inv\<close>: the database satisfies its invariant, shows the chain, and knows its best block.\<close>

definition chain_inv ::
  "'d kv_ops \<Rightarrow> ('d \<Rightarrow> bool) \<Rightarrow> 'd BlockChainDatabase \<Rightarrow> h256 list \<Rightarrow> bool" where
  "chain_inv ops db_inv s hs \<longleftrightarrow>
     db_inv (bdb s) \<and> chain_view (kv_view ops (bdb s)) hs \<and> best s = best_of hs"

text \<open>The blocks a database shows, canonical or not.\<close>

definition blocks_view :: "'d kv_ops \<Rightarrow> 'd BlockChainDatabase \<Rightarrow> h256 \<Rightarrow> Value option" where
  "blocks_view ops s h = kv_view ops (bdb s) (KBlock h)"

lemma prev_of_blocks_view:
  "blocks_view ops s = blocks_view ops' s' \<Longrightarrow>
   prev_of (kv_view ops (bdb s)) = prev_of (kv_view ops' (bdb s'))"
  by (simp add: fun_eq_iff blocks_view_def prev_of_def)

text \<open>
  The databases the block chain database runs on: those that satisfy the contract and accept the
  index and meta data operations.
\<close>

locale block_database = kv_database +
  assumes hash_ok: "op_ok (Insert (BlockHash n h))"
    and number_ok: "op_ok (Insert (BlockNumber h n))"
    and meta_ok: "length bs \<le> 32 \<Longrightarrow> op_ok (Insert (Meta m bs))"
    and delete_ok: "op_ok (Delete k)"
begin

lemma db_get_view: "db_inv (bdb s) \<Longrightarrow> db_get ops s k = Some (kv_view ops (bdb s) k)"
  using get_total [of "bdb s" k] by (auto simp: db_get_def kv_view_def)

lemma stored_typed: "db_inv d \<Longrightarrow> prev_of (kv_view ops d) h = None \<longleftrightarrow> kv_view ops d (KBlock h) = None"
  using view_typed [of d "KBlock h"] by (cases "kv_view ops d (KBlock h)") (auto simp: prev_of_def)

lemma contains_block_view:
  "db_inv (bdb s) \<Longrightarrow>
   contains_block ops s (RefHash h) = Some (prev_of (kv_view ops (bdb s)) h \<noteq> None)"
  by (simp add: contains_block_def db_get_view stored_typed)

lemma db_block_view:
  assumes "db_inv (bdb s)"
  shows "prev_of (kv_view ops (bdb s)) h = None \<Longrightarrow> db_block ops s (RefHash h) = Some None"
    and "prev_of (kv_view ops (bdb s)) h = Some p \<Longrightarrow>
      \<exists>b. db_block ops s (RefHash h) = Some (Some b) \<and> previous_header_hash (raw (header b)) = p"
  using assms by (auto simp: db_block_def db_get_view prev_of_def)

lemma db_block_header_view:
  assumes "db_inv (bdb s)" "prev_of (kv_view ops (bdb s)) h = Some p"
  shows "\<exists>b. db_block_header ops s (RefHash h) = Some (Some b) \<and> previous_header_hash (raw b) = p"
  using assms by (auto simp: db_block_header_def db_get_view prev_of_def)

lemma db_block_hash_chain:
  assumes "chain_inv ops db_inv s hs"
  shows "db_block_hash ops s n = Some (if unat n < length hs then Some (hs ! unat n) else None)"
  using assms by (simp add: chain_inv_def chain_view_def db_block_hash_def db_get_view)

lemma db_block_number_chain:
  assumes "chain_inv ops db_inv s hs"
  shows "db_block_number ops s h = Some (map_option of_nat (find_pos h hs))"
  using assms
  by (cases "find_pos h hs") (simp_all add: chain_inv_def chain_view_def db_block_number_def db_get_view)

lemma index_tx_ok:
  "list_all op_ok (canonize_tx b)" "list_all op_ok (decanonize_tx old b)"
  by (simp_all add: canonize_tx_def decanonize_tx_def tx_defs hash_ok number_ok delete_ok meta_ok)

lemma db_write_ok:
  assumes "db_inv (bdb s)" "list_all op_ok tx"
  shows "\<exists>s'. db_write ops s tx = (s', Inr ()) \<and> best s' = best s \<and> db_inv (bdb s') \<and>
    kv_view ops (bdb s') = apply_tx tx (kv_view ops (bdb s))"
proof -
  from write_obtain [OF assms] obtain d where
    "kv_write ops (bdb s) tx = (d, Inr ())" "db_inv d" "kv_view ops d = apply_tx tx (kv_view ops (bdb s))" .
  then show ?thesis by (simp add: db_write_def)
qed

text \<open>Canonizing a stored child of the best block appends it.\<close>

lemma canonize_ok:
  assumes s: "chain_inv ops db_inv s hs" and len: "length hs + 1 < 2 ^ 32"
    and h: "prev_of (kv_view ops (bdb s)) h = Some (bb_hash (best s))"
  shows "\<exists>s'. canonize ops s h = Some (s', Inr ()) \<and> chain_inv ops db_inv s' (hs @ [h]) \<and>
    blocks_view ops s' = blocks_view ops s"
proof -
  have inv: "db_inv (bdb s)" and v: "chain_view (kv_view ops (bdb s)) hs" and b: "best s = best_of hs"
    using s by (simp_all add: chain_inv_def)
  let ?b = "best_of (hs @ [h])"
  have "hs \<noteq> [] \<Longrightarrow> last hs \<noteq> 0"
    using chain_view_distinct [OF v] last_in_set [of hs] by (metis distinct.simps(2))
  then have zero: "bb_hash (best s) = 0 \<longleftrightarrow> hs = []" by (simp add: b best_of_def)
  have new: "\<lparr>bb_number = (if bb_hash (best s) = 0 then 0 else bb_number (best s) + 1), bb_hash = h\<rparr> = ?b"
    unfolding zero by (cases hs) (simp_all add: b best_of_def)
  from db_block_view(2) [OF inv h] obtain blk where
    blk: "db_block ops s (RefHash h) = Some (Some blk)"
      "previous_header_hash (raw (header blk)) = bb_hash (best s)" by blast
  have "\<not> (bb_hash (best s) = 0 \<and> bb_number (best s) \<noteq> 0)"
    unfolding zero by (simp add: b best_of_def)
  then have step: "canonize ops s h = Some (set_best ?b (db_write ops s (canonize_tx ?b)) ())"
    using blk by (simp add: canonize_def canonize_tx_def Let_def flip: new)
  from db_write_ok [OF inv index_tx_ok(1)] obtain s' where
    s': "db_write ops s (canonize_tx ?b) = (s', Inr ())" "db_inv (bdb s')"
      "kv_view ops (bdb s') = apply_tx (canonize_tx ?b) (kv_view ops (bdb s))" by blast
  have "chain_view (kv_view ops (bdb s')) (hs @ [h])"
    unfolding s' using canonize_tx_view [OF v _ len] h by (simp add: b best_of_def)
  moreover have "blocks_view ops (s'\<lparr>best := ?b\<rparr>) = blocks_view ops s"
    by (simp add: fun_eq_iff blocks_view_def s' canonize_tx_apply)
  ultimately show ?thesis using s' by (simp add: step set_best_def chain_inv_def)
qed

text \<open>Decanonizing removes the last block of the chain.\<close>

lemma decanonize_ok:
  assumes s: "chain_inv ops db_inv s (hs @ [h])"
  shows "\<exists>s'. decanonize ops s = Some (s', Inr h) \<and> chain_inv ops db_inv s' hs \<and>
    blocks_view ops s' = blocks_view ops s"
proof -
  have inv: "db_inv (bdb s)" and v: "chain_view (kv_view ops (bdb s)) (hs @ [h])"
    and b: "best s = best_of (hs @ [h])"
    using s by (simp_all add: chain_inv_def)
  have len: "length hs < 2 ^ 32" and h: "prev_of (kv_view ops (bdb s)) h = Some (last (0 # hs))"
    using v by (simp_all add: chain_view_def linked_append)
  from db_block_view(2) [OF inv h] obtain blk where
    blk: "db_block ops s (RefHash h) = Some (Some blk)"
      "previous_header_hash (raw (header blk)) = last (0 # hs)" by blast
  have pos: "0 < bb_number (best s) \<longleftrightarrow> hs \<noteq> []"
    using len of_nat_u32_eq_iff [of "length hs" 0] by (simp add: b best_of_snoc word_neq_0_conv flip: word_neq_0_conv)
  have new: "\<lparr>bb_number = (if bb_number (best s) > 0 then bb_number (best s) - 1 else 0),
      bb_hash = last (0 # hs)\<rparr> = best_of hs"
    unfolding pos by (cases hs) (simp_all add: b best_of_def)
  have "\<not> (\<not> bb_number (best s) > 0 \<and> last (0 # hs) \<noteq> 0)" unfolding pos by simp
  then have step: "decanonize ops s =
      Some (set_best (best_of hs) (db_write ops s (decanonize_tx (best s) (best_of hs))) h)"
    using blk by (simp add: decanonize_def decanonize_tx_def Let_def b best_of_snoc del: last.simps flip: new)
  from db_write_ok [OF inv index_tx_ok(2)] obtain s' where
    s': "db_write ops s (decanonize_tx (best s) (best_of hs)) = (s', Inr ())" "db_inv (bdb s')"
      "kv_view ops (bdb s') = apply_tx (decanonize_tx (best s) (best_of hs)) (kv_view ops (bdb s))"
    by blast
  have "chain_view (kv_view ops (bdb s')) hs"
    unfolding s' b using decanonize_tx_view [OF v] .
  moreover have "blocks_view ops (s'\<lparr>best := best_of hs\<rparr>) = blocks_view ops s"
    by (simp add: fun_eq_iff blocks_view_def s' decanonize_tx_apply)
  ultimately show ?thesis using s' by (simp add: step set_best_def chain_inv_def)
qed

text \<open>Reading the meta data back gives the best block of the chain.\<close>

lemma db_open_ok:
  assumes "db_inv d" "chain_view (kv_view ops d) hs"
  shows "db_open ops d = Some \<lparr>best = best_of hs, bdb = d\<rparr>"
proof -
  have meta: "read_meta ops d k = Inr (Option.bind (kv_view ops d (KMeta k)) as_meta)" for k
    using get_total [OF assms(1), of "KMeta k"] by (auto simp: read_meta_def kv_view_def)
  have "meta_view (kv_view ops d) hs" using assms(2) by (simp add: chain_view_def)
  then show ?thesis
    by (auto simp: db_open_def read_best_block_def meta meta_view_def best_block_default_def
        best_of_def u32.deserialize_serialize h256.deserialize_serialize)
qed

lemma fork_decanonize_ok:
  "chain_inv ops db_inv s (hs @ ds) \<Longrightarrow>
   \<exists>s'. fork_decanonize ops (rev ds) s = Some (Inr s') \<and> chain_inv ops db_inv s' hs \<and>
        blocks_view ops s' = blocks_view ops s"
proof (induction ds arbitrary: s rule: rev_induct)
  case (snoc d ds)
  from decanonize_ok [of s "hs @ ds" d] snoc.prems obtain s1 where
    s1: "decanonize ops s = Some (s1, Inr d)" "chain_inv ops db_inv s1 (hs @ ds)"
      "blocks_view ops s1 = blocks_view ops s" by auto
  from snoc.IH [OF s1(2)] s1 show ?case by auto
qed auto

lemma fork_canonize_ok:
  "chain_inv ops db_inv s hs \<Longrightarrow> length hs + length cs < 2 ^ 32 \<Longrightarrow>
   linked (prev_of (kv_view ops (bdb s))) (bb_hash (best s)) cs \<Longrightarrow>
   \<exists>s'. fork_canonize ops cs s = Some (Inr s') \<and> chain_inv ops db_inv s' (hs @ cs) \<and>
        blocks_view ops s' = blocks_view ops s"
proof (induction cs arbitrary: s hs)
  case (Cons c cs)
  from canonize_ok [OF Cons.prems(1), of c] Cons.prems obtain s1 where
    s1: "canonize ops s c = Some (s1, Inr ())" "chain_inv ops db_inv s1 (hs @ [c])"
      "blocks_view ops s1 = blocks_view ops s" by auto
  have "bb_hash (best s1) = c" using s1(2) by (simp add: chain_inv_def best_of_def)
  then have "linked (prev_of (kv_view ops (bdb s1))) (bb_hash (best s1)) cs"
    using Cons.prems(3) prev_of_blocks_view [OF s1(3)] by simp
  from Cons.IH [OF s1(2) _ this] Cons.prems(2) s1 show ?case by auto
qed auto

lemma overlay_block_database: "block_database (overlay_ops ops) (overlay_inv db_inv op_ok) op_ok"
  by (intro block_database.intro block_database_axioms.intro overlay_database hash_ok number_ok
      meta_ok delete_ok)

lemma insert_ok:
  assumes s: "chain_inv ops db_inv s hs"
    and ok: "op_ok (Insert (BlockData (block_hash_of b) (to_raw_block b)))"
    and new: "prev_of (kv_view ops (bdb s)) (block_hash_of b) = None" "block_hash_of b \<noteq> 0"
    and parent: "previous_header_hash (raw (header b)) = 0 \<or>
      prev_of (kv_view ops (bdb s)) (previous_header_hash (raw (header b))) \<noteq> None"
  shows "\<exists>s'. db_insert ops s b = Some (s', Inr ()) \<and> chain_inv ops db_inv s' hs \<and>
    blocks_view ops s' = (blocks_view ops s)(block_hash_of b := Some (VBlock (to_raw_block b)))"
proof -
  have inv: "db_inv (bdb s)" and v: "chain_view (kv_view ops (bdb s)) hs"
    using s by (simp_all add: chain_inv_def)
  let ?op = "Insert (BlockData (block_hash_of b) (to_raw_block b))"
  from db_write_ok [OF inv, of "[?op]"] ok obtain s' where
    s': "db_write ops s [?op] = (s', Inr ())" "best s' = best s" "db_inv (bdb s')"
      "kv_view ops (bdb s') = apply_tx [?op] (kv_view ops (bdb s))" by auto
  have prev: "prev_of (kv_view ops (bdb s')) =
      (prev_of (kv_view ops (bdb s)))(block_hash_of b \<mapsto> previous_header_hash (raw (header b)))"
    by (simp add: s' fun_eq_iff prev_of_def to_raw_block_def)
  have "block_hash_of b \<notin> set hs"
    using v new(1) linked_prev unfolding chain_view_def by blast
  then have "linked (prev_of (kv_view ops (bdb s'))) 0 hs"
    using v unfolding prev chain_view_def by (intro linked_update) auto
  then have "chain_view (kv_view ops (bdb s')) hs"
    using v new(2) by (simp add: chain_view_def prev) (simp add: s' meta_view_def)
  moreover have "db_insert ops s b = Some (s', Inr ())"
    using new parent s'(1)
    by (auto simp: db_insert_def contains_block_view [OF inv] tx_insert_def to_raw_block_def)
  moreover have "blocks_view ops s' =
      (blocks_view ops s)(block_hash_of b := Some (VBlock (to_raw_block b)))"
    by (simp add: blocks_view_def fun_eq_iff s')
  ultimately show ?thesis
    using s s' by (intro exI [of _ s']) (simp add: chain_inv_def)
qed

end

text \<open>Working on an overlay leaves the database below alone.\<close>

lemma overlay_db_write: "db_write (overlay_ops ops) s tx = (s', r) \<Longrightarrow> od_db (bdb s') = od_db (bdb s)"
  by (auto simp: db_write_def overlay_ops_def overlay_write_def split: prod.splits)

lemma overlay_set_best: "set_best b (db_write (overlay_ops ops) s tx) a = (s', r) \<Longrightarrow> od_db (bdb s') = od_db (bdb s)"
  by (cases "db_write (overlay_ops ops) s tx")
    (auto simp: set_best_def overlay_db_write split: sum.splits)

lemma overlay_canonize:
  "canonize (overlay_ops ops) s h = Some (s', r) \<Longrightarrow> od_db (bdb s') = od_db (bdb s)"
  by (auto simp: canonize_def Let_def overlay_set_best
      split: Option.bind_splits option.splits if_splits)

lemma overlay_decanonize:
  "decanonize (overlay_ops ops) s = Some (s', r) \<Longrightarrow> od_db (bdb s') = od_db (bdb s)"
  by (auto simp: decanonize_def Let_def overlay_set_best
      split: Option.bind_splits option.splits if_splits)

lemma overlay_fork_decanonize:
  "fork_decanonize (overlay_ops ops) hs s = Some (Inr s') \<Longrightarrow> od_db (bdb s') = od_db (bdb s)"
  by (induction hs arbitrary: s)
    (auto dest!: overlay_decanonize split: Option.bind_splits sum.splits prod.splits if_splits)

lemma overlay_fork_canonize:
  "fork_canonize (overlay_ops ops) hs s = Some (Inr s') \<Longrightarrow> od_db (bdb s') = od_db (bdb s)"
  by (induction hs arbitrary: s)
    (auto dest!: overlay_canonize split: Option.bind_splits sum.splits prod.splits)

context block_database
begin

lemma overlay_new_ok:
  assumes "db_inv d"
  shows "overlay_inv db_inv op_ok (overlay_new d)"
    and "kv_view (overlay_ops ops) (overlay_new d) = kv_view ops d"
proof -
  show inv: "overlay_inv db_inv op_ok (overlay_new d)"
    using assms by (simp add: overlay_inv_def overlay_new_def)
  show "kv_view (overlay_ops ops) (overlay_new d) = kv_view ops d"
    by (simp add: overlay_view [OF inv]) (simp add: overlay_new_def)
qed

text \<open>A fork replaces the blocks after the ancestor by the blocks of the side chain.\<close>

lemma fork_ok:
  assumes s: "chain_inv ops db_inv s (hs @ decanonized_route sc)"
    and len: "length hs + length (canonized_route sc) < 2 ^ 32"
    and link: "linked (prev_of (kv_view ops (bdb s))) (last (0 # hs)) (canonized_route sc)"
  shows "\<exists>f. fork ops s sc = Some (Inr f) \<and>
    chain_inv (overlay_ops ops) (overlay_inv db_inv op_ok) f (hs @ canonized_route sc) \<and>
    od_db (bdb f) = bdb s \<and> blocks_view (overlay_ops ops) f = blocks_view ops s"
proof -
  have parts: "db_inv (bdb s)" "chain_view (kv_view ops (bdb s)) (hs @ decanonized_route sc)"
    using s by (simp_all add: chain_inv_def)
  let ?o = "\<lparr>best = best_of (hs @ decanonized_route sc), bdb = overlay_new (bdb s)\<rparr>"
  note ov = overlay_new_ok [OF parts(1)] and bdb = overlay_block_database
  have open_eq: "db_open (overlay_ops ops) (overlay_new (bdb s)) = Some ?o"
    using block_database.db_open_ok [OF bdb ov(1)] parts(2) by (simp add: ov(2))
  have "chain_inv (overlay_ops ops) (overlay_inv db_inv op_ok) ?o (hs @ decanonized_route sc)"
    using ov parts(2) by (simp add: chain_inv_def)
  from block_database.fork_decanonize_ok [OF bdb this] obtain s1 where
    s1: "fork_decanonize (overlay_ops ops) (rev (decanonized_route sc)) ?o = Some (Inr s1)"
      "chain_inv (overlay_ops ops) (overlay_inv db_inv op_ok) s1 hs"
      "blocks_view (overlay_ops ops) s1 = blocks_view (overlay_ops ops) ?o" by blast
  have blocks: "blocks_view (overlay_ops ops) ?o = blocks_view ops s"
    by (simp add: blocks_view_def fun_eq_iff ov(2))
  have "linked (prev_of (kv_view (overlay_ops ops) (bdb s1))) (bb_hash (best s1)) (canonized_route sc)"
    using link s1(2) prev_of_blocks_view [OF s1(3) [unfolded blocks]]
    by (simp add: chain_inv_def best_of_def)
  from block_database.fork_canonize_ok [OF bdb s1(2) len this] obtain f where
    f: "fork_canonize (overlay_ops ops) (canonized_route sc) s1 = Some (Inr f)"
      "chain_inv (overlay_ops ops) (overlay_inv db_inv op_ok) f (hs @ canonized_route sc)"
      "blocks_view (overlay_ops ops) f = blocks_view (overlay_ops ops) s1" by blast
  have "od_db (bdb f) = bdb s"
    using overlay_fork_canonize [OF f(1)] overlay_fork_decanonize [OF s1(1)]
    by (simp add: overlay_new_def)
  then show ?thesis using f s1(3) blocks by (simp add: fork_def open_eq s1(1))
qed

lemma switch_to_fork_ok:
  assumes f: "chain_inv (overlay_ops ops) (overlay_inv db_inv op_ok) f hs" and d: "od_db (bdb f) = bdb s"
  shows "\<exists>s'. switch_to_fork ops s f = (s', Inr ()) \<and> chain_inv ops db_inv s' hs \<and>
    blocks_view ops s' = blocks_view (overlay_ops ops) f"
proof -
  have inv: "overlay_inv db_inv op_ok (bdb f)" using f by (simp add: chain_inv_def)
  from overlay_flush_correct [OF inv] obtain ov where
    ov: "overlay_flush ops (bdb f) = (ov, Inr ())" "overlay_inv db_inv op_ok ov"
      "kv_view ops (od_db ov) = kv_view (overlay_ops ops) (bdb f)" by blast
  have "(bdb f)\<lparr>od_db := bdb s\<rparr> = bdb f" using d by (cases "bdb f") simp
  then show ?thesis
    using f ov
    by (auto simp: switch_to_fork_def Let_def chain_inv_def overlay_inv_def blocks_view_def intro!: ext)
qed

end

section \<open>What \<^verbatim>\<open>block_origin\<close> answers\<close>

text \<open>
  \<open>side_origin\<close>: the route leads from a block of the canonical chain, the ancestor, to the parent of
  the new block; the blocks after the ancestor are the ones to decanonize.
\<close>

definition side_origin ::
  "(h256 \<Rightarrow> h256 option) \<Rightarrow> h256 list \<Rightarrow> h256 \<Rightarrow> nat \<Rightarrow> SideChainOrigin \<Rightarrow> bool" where
  "side_origin prev hs parent i sc \<longleftrightarrow>
     i < length hs \<and> ancestor sc = of_nat i \<and>
     linked prev (hs ! i) (canonized_route sc) \<and> last (hs ! i # canonized_route sc) = parent \<and>
     set (canonized_route sc) \<inter> set hs = {} \<and> length (canonized_route sc) < MAX_FORK_ROUTE_PRESET \<and>
     decanonized_route sc = drop (Suc i) hs \<and>
     origin_block_number sc = of_nat (i + length (canonized_route sc) + 1)"

text \<open>The specification of the answer for a header with the given hash and parent.\<close>

fun origin_spec ::
  "(h256 \<Rightarrow> h256 option) \<Rightarrow> h256 list \<Rightarrow> h256 \<Rightarrow> h256 \<Rightarrow> Error + BlockOrigin \<Rightarrow> bool" where
  "origin_spec prev hs h parent (Inr KnownBlock) = (prev h \<noteq> None)"
| "origin_spec prev hs h parent (Inr (CanonChain n)) =
     (prev h = None \<and> parent = last hs \<and> n = of_nat (length hs))"
| "origin_spec prev hs h parent (Inr (SideChain sc)) =
     (prev h = None \<and>
      (\<exists>i. side_origin prev hs parent i sc \<and> i + length (canonized_route sc) + 1 < length hs))"
| "origin_spec prev hs h parent (Inr (SideChainBecomingCanonChain sc)) =
     (prev h = None \<and>
      (\<exists>i. side_origin prev hs parent i sc \<and> length hs \<le> i + length (canonized_route sc) + 1))"
| "origin_spec prev hs h parent (Inl UnknownParent) = (prev h = None \<and> prev parent = None)"
| "origin_spec prev hs h parent (Inl AncientFork) =
     (prev h = None \<and>
      (\<exists>p cs. length cs = MAX_FORK_ROUTE_PRESET \<and> linked prev p cs \<and> last cs = parent \<and>
              set cs \<inter> set hs = {}))"
| "origin_spec prev hs h parent _ = False"

text \<open>Every stored block has a stored parent, and only the first block of the chain has none.\<close>

definition parents_stored :: "(h256 \<Rightarrow> h256 option) \<Rightarrow> h256 list \<Rightarrow> bool" where
  "parents_stored prev hs \<longleftrightarrow>
     (\<forall>h p. prev h = Some p \<longrightarrow> (if p = 0 then h \<in> set hs else prev p \<noteq> None))"

lemma filter_map_opt_Some: "(\<And>x. x \<in> set xs \<Longrightarrow> f x = Some (Some (g x))) \<Longrightarrow> filter_map_opt f xs = Some (map g xs)"
  by (induction xs) auto

lemma map_nth_upt_drop: "map ((!) xs) [i ..< length xs] = drop i xs"
  by (rule nth_equalityI) auto

lemma filter_map_opt_map: "filter_map_opt f (map g xs) = filter_map_opt (\<lambda>x. f (g x)) xs"
  by (induction xs) auto

lemma decanonized_range:
  assumes "i < length hs" "length hs < 2 ^ 32"
    and "\<And>n :: u32. f n = Some (if unat n < length hs then Some (hs ! unat n) else None)"
  shows "filter_map_opt f (u32_range (of_nat i + 1) (bb_number (best_of hs) + 1)) = Some (drop (Suc i) hs)"
proof -
  have "unat (of_nat i + 1 :: u32) = Suc i" and "unat (bb_number (best_of hs) + 1) = length hs"
    using assms(1,2) unat_of_nat_u32 [of "Suc i"] unat_of_nat_u32 [of "length hs"]
    by (simp_all add: best_of_def of_nat_diff add.commute)
  then have "filter_map_opt f (u32_range (of_nat i + 1) (bb_number (best_of hs) + 1)) =
      filter_map_opt (\<lambda>n. f (of_nat n)) [Suc i ..< length hs]"
    by (simp add: u32_range_def filter_map_opt_map)
  also have "\<dots> = Some (map ((!) hs) [Suc i ..< length hs])"
    using assms(2,3) by (intro filter_map_opt_Some) simp
  finally show ?thesis by (simp add: map_nth_upt_drop)
qed

context block_database
begin

lemma origin_loop_ok:
  assumes s: "chain_inv ops db_inv s hs" and len: "length hs + MAX_FORK_ROUTE_PRESET < 2 ^ 32"
    and prev: "prev = prev_of (kv_view ops (bdb s))" and closed: "parents_stored prev hs"
    and h: "prev h = None"
  shows "prev next_hash \<noteq> None \<Longrightarrow> linked prev next_hash (rev r) \<Longrightarrow> set r \<inter> set hs = {} \<Longrightarrow>
    last (next_hash # rev r) = parent \<Longrightarrow> k + length r = MAX_FORK_ROUTE_PRESET \<Longrightarrow>
    \<exists>res. origin_loop ops s k (length r) next_hash r = Some res \<and> origin_spec prev hs h parent res"
proof (induction k arbitrary: next_hash r)
  case 0
  then have "r \<noteq> []" by (auto simp: MAX_FORK_ROUTE_PRESET_def)
  then have "last (rev r) = parent" using "0.prems"(4) by simp
  with 0 h have "origin_spec prev hs h parent (Inl AncientFork)"
    by (simp, intro exI [of _ next_hash] exI [of _ "rev r"]) simp
  then show ?case by simp
next
  case (Suc k)
  have inv: "db_inv (bdb s)" and b: "best s = best_of hs" and hs_len: "length hs < 2 ^ 32"
    using s by (simp_all add: chain_inv_def chain_view_def)
  show ?case
  proof (cases "find_pos next_hash hs")
    case (Some i)
    have i: "i < length hs" "hs ! i = next_hash" using find_pos_Some [OF Some] by simp_all
    let ?sc = "\<lparr>ancestor = of_nat i, canonized_route = rev r, decanonized_route = drop (Suc i) hs,
                origin_block_number = of_nat i + of_nat (length r) + 1\<rparr>"
    have range: "filter_map_opt (db_block_hash ops s) (u32_range (of_nat i + 1) (bb_number (best s) + 1)) =
        Some (drop (Suc i) hs)"
      unfolding b by (rule decanonized_range [OF i(1) hs_len db_block_hash_chain [OF s]])
    have side: "side_origin prev hs parent i ?sc"
      using i Suc.prems by (simp add: side_origin_def)
    have "i + length r + 1 < 2 ^ 32" using i Suc.prems(5) len by simp
    then have "origin_block_number ?sc > bb_number (best s) \<longleftrightarrow> length hs \<le> i + length r + 1"
      using i(1) hs_len unat_of_nat_u32 [of "i + length r + 1"] unat_of_nat_u32 [of "length hs - 1"]
      by (auto simp: b best_of_def word_less_nat_alt ac_simps)
    then have res: "origin_loop ops s (Suc k) (length r) next_hash r =
        Some (Inr (if length hs \<le> i + length r + 1 then SideChainBecomingCanonChain ?sc else SideChain ?sc))"
      by (simp add: db_block_number_chain [OF s] Some range Let_def)
    show ?thesis
    proof (cases "length hs \<le> i + length r + 1")
      case True
      then show ?thesis unfolding res using side h by (intro exI conjI, simp) (auto intro!: exI [of _ i])
    next
      case False
      then show ?thesis unfolding res using side h by (intro exI conjI, simp) (auto intro!: exI [of _ i])
    qed
  next
    case None
    from Suc.prems(1) obtain p where p: "prev next_hash = Some p" by auto
    with closed None have p0: "prev p \<noteq> None" by (auto simp: parents_stored_def split: if_splits)
    from db_block_header_view [OF inv p [unfolded prev]] obtain hd where
      hd: "db_block_header ops s (RefHash next_hash) = Some (Some hd)"
        "previous_header_hash (raw hd) = p" by blast
    have "\<exists>res. origin_loop ops s k (length (r @ [next_hash])) p (r @ [next_hash]) = Some res \<and>
        origin_spec prev hs h parent res"
      using Suc.prems None p0 p by (intro Suc.IH) auto
    then show ?thesis by (simp add: db_block_number_chain [OF s] None hd)
  qed
qed

lemma block_origin_ok:
  assumes s: "chain_inv ops db_inv s hs" and len: "length hs + MAX_FORK_ROUTE_PRESET < 2 ^ 32"
    and ne: "hs \<noteq> []"
    and closed: "parents_stored (prev_of (kv_view ops (bdb s))) hs"
  shows "\<exists>res. block_origin ops s h = Some res \<and>
    origin_spec (prev_of (kv_view ops (bdb s))) hs (hash h) (previous_header_hash (raw h)) res"
proof -
  let ?prev = "prev_of (kv_view ops (bdb s))" and ?p = "previous_header_hash (raw h)"
  have inv: "db_inv (bdb s)" and b: "best s = best_of hs"
    using s by (simp_all add: chain_inv_def)
  have best_hash: "db_block_hash ops s (bb_number (best s)) = Some (Some (bb_hash (best s)))"
    using ne len by (simp add: db_block_hash_chain [OF s] b best_of_def last_conv_nth)
  have loop: "?prev (hash h) = None \<Longrightarrow> ?prev ?p \<noteq> None \<Longrightarrow>
      \<exists>res. origin_loop ops s MAX_FORK_ROUTE_PRESET 0 ?p [] = Some res \<and>
            origin_spec ?prev hs (hash h) ?p res"
    using origin_loop_ok [OF s len refl closed, of "hash h" ?p "[]" ?p MAX_FORK_ROUTE_PRESET] by simp
  have eqs: "bb_hash (best s) = last hs" "bb_number (best s) + 1 = of_nat (length hs)"
    using ne by (simp_all add: b best_of_def of_nat_diff Suc_leI)
  show ?thesis
    using loop by (auto simp: block_origin_def best_hash contains_block_view [OF inv] eqs)
qed

lemma block_origin_canon:
  assumes s: "chain_inv ops db_inv s hs" and ne: "hs \<noteq> []" and len: "length hs < 2 ^ 32"
    and new: "prev_of (kv_view ops (bdb s)) (hash h) = None" "previous_header_hash (raw h) = last hs"
  shows "block_origin ops s h = Some (Inr (CanonChain (of_nat (length hs))))"
proof -
  have inv: "db_inv (bdb s)" and b: "best s = best_of hs" using s by (simp_all add: chain_inv_def)
  have "db_block_hash ops s (bb_number (best s)) = Some (Some (bb_hash (best s)))"
    using ne len by (simp add: db_block_hash_chain [OF s] b best_of_def last_conv_nth)
  moreover have "bb_hash (best s) = last hs" "bb_number (best s) + 1 = of_nat (length hs)"
    using ne by (simp_all add: b best_of_def of_nat_diff Suc_leI)
  ultimately show ?thesis using new by (simp add: block_origin_def contains_block_view [OF inv])
qed

text \<open>A fork along the route of an origin ends in the parent of the new block.\<close>

lemma side_fork_ok:
  assumes s: "chain_inv ops db_inv s hs" and len: "length hs + MAX_FORK_ROUTE_PRESET < 2 ^ 32"
    and i: "side_origin (prev_of (kv_view ops (bdb s))) hs parent i sc"
  shows "\<exists>f. fork ops s sc = Some (Inr f) \<and> od_db (bdb f) = bdb s \<and>
    chain_inv (overlay_ops ops) (overlay_inv db_inv op_ok) f (take (Suc i) hs @ canonized_route sc) \<and>
    blocks_view (overlay_ops ops) f = blocks_view ops s \<and>
    last (take (Suc i) hs @ canonized_route sc) = parent"
proof -
  let ?hs = "take (Suc i) hs"
  have lt: "i < length hs" and d: "decanonized_route sc = drop (Suc i) hs"
    using i by (simp_all add: side_origin_def)
  have last: "last (0 # ?hs) = hs ! i" using lt by (simp add: take_Suc_conv_app_nth)
  have "chain_inv ops db_inv s (?hs @ decanonized_route sc)" using s by (simp add: d)
  moreover have "length ?hs + length (canonized_route sc) < 2 ^ 32"
    using len i lt by (simp add: side_origin_def)
  moreover have "linked (prev_of (kv_view ops (bdb s))) (last (0 # ?hs)) (canonized_route sc)"
    unfolding last using i by (simp add: side_origin_def)
  ultimately obtain f where f: "fork ops s sc = Some (Inr f)" "od_db (bdb f) = bdb s"
      "chain_inv (overlay_ops ops) (overlay_inv db_inv op_ok) f (?hs @ canonized_route sc)"
      "blocks_view (overlay_ops ops) f = blocks_view ops s"
    using fork_ok by blast
  have "?hs \<noteq> []" using lt by (cases hs) simp_all
  then have "last (?hs @ canonized_route sc) = parent"
    using i last by (simp add: side_origin_def last_append split: if_splits)
  with f show ?thesis by blast
qed

end

section \<open>The databases of the program\<close>

interpretation memory_blocks: block_database memory_ops memory_inv "\<lambda>_. True"
  by unfold_locales simp_all

lemma disk_block_database:
  assumes "rocks_ok R" "digits_ok X"
  shows "block_database (disk_ops X format R) (disk_inv X R) (op_encodable X)"
  by (intro block_database.intro block_database_axioms.intro disk_database assms) simp_all

lemma production_block_database:
  assumes "block_database ops db_inv op_ok" "lru_ok L"
  shows "block_database (production_ops L ops)
    (cache_inv L (autoflush_ops ops) (autoflush_inv db_inv op_ok)) op_ok"
  using assms(1) unfolding block_database_def
  by (auto intro: production_database assms(2))

lemma memory_empty_chain:
  "chain_inv memory_ops memory_inv \<lparr>best = best_block_default, bdb = memory_default\<rparr> []"
  "db_open memory_ops memory_default = Some \<lparr>best = best_block_default, bdb = memory_default\<rparr>"
proof -
  have "kv_view memory_ops memory_default = (\<lambda>_. None)"
    by (simp add: fun_eq_iff kv_view_def memory_ops_def memory_get_def)
  then have "chain_view (kv_view memory_ops memory_default) []"
    by (simp add: chain_view_def prev_of_def meta_view_def)
  then show "chain_inv memory_ops memory_inv \<lparr>best = best_block_default, bdb = memory_default\<rparr> []"
    by (simp add: chain_inv_def best_of_def best_block_default_def)
  show "db_open memory_ops memory_default = Some \<lparr>best = best_block_default, bdb = memory_default\<rparr>"
    using memory_blocks.db_open_ok [OF memory_inv_default \<open>chain_view _ []\<close>]
    by (simp add: best_of_def best_block_default_def)
qed

context block_database
begin

lemma db_block_header_blocks:
  "db_inv (bdb s) \<Longrightarrow> db_block_header ops s (RefHash h) =
   Some (map_option (\<lambda>b. \<lparr>hash = h, raw = block_header b\<rparr>) (Option.bind (blocks_view ops s h) as_block))"
  by (simp add: db_block_header_def db_get_view blocks_view_def)

lemma prev_of_blocks:
  "prev_of (kv_view ops (bdb s)) h =
   map_option (\<lambda>b. previous_header_hash (block_header b)) (Option.bind (blocks_view ops s h) as_block)"
  by (simp add: prev_of_def blocks_view_def)

text \<open>Inserting and canonizing a child of the best block appends it.\<close>

lemma insert_canonize_ok:
  assumes s: "chain_inv ops db_inv s hs" and len: "length hs + 1 < 2 ^ 32"
    and ok: "op_ok (Insert (BlockData (block_hash_of b) (to_raw_block b)))"
    and new: "prev_of (kv_view ops (bdb s)) (block_hash_of b) = None" "block_hash_of b \<noteq> 0"
    and parent: "previous_header_hash (raw (header b)) = bb_hash (best s)"
  shows "\<exists>s1 s2. db_insert ops s b = Some (s1, Inr ()) \<and>
    canonize ops s1 (block_hash_of b) = Some (s2, Inr ()) \<and>
    chain_inv ops db_inv s2 (hs @ [block_hash_of b]) \<and>
    blocks_view ops s2 = (blocks_view ops s)(block_hash_of b := Some (VBlock (to_raw_block b)))"
proof -
  have v: "chain_view (kv_view ops (bdb s)) hs" "best s = best_of hs"
    using s by (simp_all add: chain_inv_def)
  have "previous_header_hash (raw (header b)) = 0 \<or>
      prev_of (kv_view ops (bdb s)) (previous_header_hash (raw (header b))) \<noteq> None"
  proof (cases hs rule: rev_cases)
    case Nil
    then show ?thesis by (simp add: parent v(2) best_of_def)
  next
    case (snoc ys y)
    then show ?thesis using v by (simp add: parent best_of_def chain_view_def linked_append)
  qed
  from insert_ok [OF s ok new this] obtain s1 where
    s1: "db_insert ops s b = Some (s1, Inr ())" "chain_inv ops db_inv s1 hs"
      "blocks_view ops s1 = (blocks_view ops s)(block_hash_of b := Some (VBlock (to_raw_block b)))" by blast
  have "prev_of (kv_view ops (bdb s1)) (block_hash_of b) = Some (bb_hash (best s1))"
    using s1(2) v(2) parent by (simp add: prev_of_blocks s1(3) to_raw_block_def chain_inv_def)
  from canonize_ok [OF s1(2) len this] s1 show ?thesis by auto
qed

end

section \<open>A sample chain\<close>

fun blocks_linked :: "h256 \<Rightarrow> IndexedBlock list \<Rightarrow> bool" where
  "blocks_linked p [] = True"
| "blocks_linked p (b # bs) =
     (previous_header_hash (raw (header b)) = p \<and> blocks_linked (block_hash_of b) bs)"

lemma insert_canonize_all_ok:
  "chain_inv memory_ops memory_inv s hs \<Longrightarrow> length hs + length bs < 2 ^ 32 \<Longrightarrow>
   distinct (0 # map block_hash_of bs) \<Longrightarrow> blocks_linked (bb_hash (best s)) bs \<Longrightarrow>
   \<forall>b \<in> set bs. blocks_view memory_ops s (block_hash_of b) = None \<Longrightarrow>
   \<exists>s'. insert_canonize_all memory_ops bs s = Some s' \<and>
        chain_inv memory_ops memory_inv s' (hs @ map block_hash_of bs) \<and>
        blocks_view memory_ops s' =
          blocks_view memory_ops s ++ map_of (rev (map (\<lambda>b. (block_hash_of b, VBlock (to_raw_block b))) bs))"
proof (induction bs arbitrary: s hs)
  case (Cons b bs)
  have "prev_of (kv_view memory_ops (bdb s)) (block_hash_of b) = None"
    using Cons.prems(5) by (simp add: memory_blocks.prev_of_blocks)
  then obtain s1 s2 where s2: "db_insert memory_ops s b = Some (s1, Inr ())"
    "canonize memory_ops s1 (block_hash_of b) = Some (s2, Inr ())"
    "chain_inv memory_ops memory_inv s2 (hs @ [block_hash_of b])"
    "blocks_view memory_ops s2 =
       (blocks_view memory_ops s)(block_hash_of b := Some (VBlock (to_raw_block b)))"
    using memory_blocks.insert_canonize_ok [OF Cons.prems(1), of b] Cons.prems by auto
  have "bb_hash (best s2) = block_hash_of b" using s2(3) by (simp add: chain_inv_def best_of_def)
  moreover have "\<forall>c \<in> set bs. blocks_view memory_ops s2 (block_hash_of c) = None"
    using Cons.prems(3,5) by (auto simp: s2(4)) (metis imageI)
  ultimately obtain s3 where s3: "insert_canonize_all memory_ops bs s2 = Some s3"
    "chain_inv memory_ops memory_inv s3 ((hs @ [block_hash_of b]) @ map block_hash_of bs)"
    "blocks_view memory_ops s3 = blocks_view memory_ops s2 ++
       map_of (rev (map (\<lambda>b. (block_hash_of b, VBlock (to_raw_block b))) bs))"
    using Cons.IH [OF s2(3)] Cons.prems by auto
  then show ?case using s2 by (simp add: map_add_upd_left)
qed auto

lemma init_test_chain_ok:
  assumes "blocks_linked 0 bs" "distinct (0 # map block_hash_of bs)" "length bs < 2 ^ 32"
  shows "\<exists>s. init_test_chain bs = Some s \<and> chain_inv memory_ops memory_inv s (map block_hash_of bs) \<and>
    blocks_view memory_ops s = map_of (rev (map (\<lambda>b. (block_hash_of b, VBlock (to_raw_block b))) bs))"
proof -
  let ?e = "\<lparr>best = best_block_default, bdb = memory_default\<rparr>"
  have "blocks_view memory_ops ?e = Map.empty"
    by (simp add: fun_eq_iff blocks_view_def kv_view_def memory_ops_def memory_get_def
        memory_default_def unwrap_state_def)
  then show ?thesis
    using insert_canonize_all_ok [OF memory_empty_chain(1), of bs] assms
    by (simp add: init_test_chain_def memory_empty_chain(2)) (simp add: best_block_default_def)
qed

definition link_block :: "h256 \<Rightarrow> h256 \<Rightarrow> IndexedBlock" where
  "link_block h p =
     \<lparr>header = \<lparr>hash = h, raw = sample_header\<lparr>previous_header_hash := p\<rparr>\<rparr>, vdf_proof = []\<rparr>"

lemma link_block_simps [simp]:
  "block_hash_of (link_block h p) = h" "previous_header_hash (raw (header (link_block h p))) = p"
  "previous_header_hash (block_header (to_raw_block (link_block h p))) = p"
  by (simp_all add: link_block_def to_raw_block_def)

text \<open>The chain 7, 8 with a side chain 9, 10 on top of 7.\<close>

definition sample_db :: "MemoryDatabase BlockChainDatabase" where
  "sample_db = the (do {
     s \<leftarrow> init_test_chain [link_block 7 0, link_block 8 7];
     r \<leftarrow> db_insert memory_ops s (link_block 9 7);
     r \<leftarrow> db_insert memory_ops (fst r) (link_block 10 9);
     Some (fst r) })"

lemma sample_db_ok:
  "chain_inv memory_ops memory_inv sample_db [7, 8]"
  "blocks_view memory_ops sample_db =
     [7 \<mapsto> VBlock (to_raw_block (link_block 7 0)), 8 \<mapsto> VBlock (to_raw_block (link_block 8 7)),
      9 \<mapsto> VBlock (to_raw_block (link_block 9 7)), 10 \<mapsto> VBlock (to_raw_block (link_block 10 9))]"
proof -
  from init_test_chain_ok [of "[link_block 7 0, link_block 8 7]"] obtain s where
    s: "init_test_chain [link_block 7 0, link_block 8 7] = Some s"
      "chain_inv memory_ops memory_inv s [7, 8]"
      "blocks_view memory_ops s =
       [7 \<mapsto> VBlock (to_raw_block (link_block 7 0)), 8 \<mapsto> VBlock (to_raw_block (link_block 8 7))]"
    by (auto simp: fun_eq_iff)
  from memory_blocks.insert_ok [OF s(2), of "link_block 9 7"] obtain s1 where
    s1: "db_insert memory_ops s (link_block 9 7) = Some (s1, Inr ())"
      "chain_inv memory_ops memory_inv s1 [7, 8]"
      "blocks_view memory_ops s1 = (blocks_view memory_ops s)(9 := Some (VBlock (to_raw_block (link_block 9 7))))"
    by (auto simp: memory_blocks.prev_of_blocks s(3))
  from memory_blocks.insert_ok [OF s1(2), of "link_block 10 9"] obtain s2 where
    s2: "db_insert memory_ops s1 (link_block 10 9) = Some (s2, Inr ())"
      "chain_inv memory_ops memory_inv s2 [7, 8]"
      "blocks_view memory_ops s2 = (blocks_view memory_ops s1)(10 := Some (VBlock (to_raw_block (link_block 10 9))))"
    by (auto simp: memory_blocks.prev_of_blocks s1(3) s(3))
  have "sample_db = s2" by (simp add: sample_db_def s s1 s2)
  then show "chain_inv memory_ops memory_inv sample_db [7, 8]"
    "blocks_view memory_ops sample_db =
     [7 \<mapsto> VBlock (to_raw_block (link_block 7 0)), 8 \<mapsto> VBlock (to_raw_block (link_block 8 7)),
      9 \<mapsto> VBlock (to_raw_block (link_block 9 7)), 10 \<mapsto> VBlock (to_raw_block (link_block 10 9))]"
    using s2 s1 s by (simp_all add: fun_eq_iff)
qed

lemma sample_db_prev:
  "prev_of (kv_view memory_ops (bdb sample_db)) = [7 \<mapsto> 0, 8 \<mapsto> 7, 9 \<mapsto> 7, 10 \<mapsto> 9]"
  by (simp add: fun_eq_iff memory_blocks.prev_of_blocks sample_db_ok(2))

lemma sample_db_parents: "parents_stored (prev_of (kv_view memory_ops (bdb sample_db))) [7, 8]"
  unfolding sample_db_prev by (auto simp: parents_stored_def split: if_splits)

section \<open>Properties\<close>

text \<open>C10: on every database that satisfies the contract, canonizing a block appends it to the
  canonical chain exactly when it is stored and its parent is the best block, and is refused
  without any change otherwise.\<close>

theorem canonize_refines_append:
  assumes "block_database ops db_inv op_ok" "chain_inv ops db_inv s hs" "length hs + 1 < 2 ^ 32"
  shows "if prev_of (kv_view ops (bdb s)) h = Some (bb_hash (best s))
    then \<exists>s'. canonize ops s h = Some (s', Inr ()) \<and> chain_inv ops db_inv s' (hs @ [h]) \<and>
              blocks_view ops s' = blocks_view ops s
    else canonize ops s h = Some (s, Inl CannotCanonize)"
proof (cases "prev_of (kv_view ops (bdb s)) h = Some (bb_hash (best s))")
  case True
  with block_database.canonize_ok [OF assms True] show ?thesis by simp
next
  case False
  have inv: "db_inv (bdb s)" using assms(2) by (simp add: chain_inv_def)
  show ?thesis
    using False block_database.db_block_view [OF assms(1) inv, of h]
    by (cases "prev_of (kv_view ops (bdb s)) h") (auto simp: canonize_def Let_def)
qed

theorem canonize_refines_append_witness:
  "canonize memory_ops sample_db 10 = Some (sample_db, Inl CannotCanonize)"
  using canonize_refines_append [OF memory_blocks.block_database_axioms sample_db_ok(1), of 10]
    sample_db_ok(1)
  by (simp add: sample_db_prev chain_inv_def best_of_def)

text \<open>C11: decanonizing removes the last block of the canonical chain and returns its hash, leaves the
  stored blocks alone, undoes the canonization, and is refused on an empty chain.\<close>

theorem decanonize_refines_butlast:
  assumes "block_database ops db_inv op_ok" "chain_inv ops db_inv s hs"
  shows "if hs = [] then decanonize ops s = Some (s, Inl CannotDecanonize)
    else \<exists>s'. decanonize ops s = Some (s', Inr (last hs)) \<and> chain_inv ops db_inv s' (butlast hs) \<and>
              blocks_view ops s' = blocks_view ops s \<and>
              (\<exists>s''. canonize ops s' (last hs) = Some (s'', Inr ()) \<and> chain_inv ops db_inv s'' hs)"
proof (cases hs rule: rev_cases)
  case Nil
  have inv: "db_inv (bdb s)" "prev_of (kv_view ops (bdb s)) 0 = None" "bb_hash (best s) = 0"
    using assms(2) by (simp_all add: chain_inv_def chain_view_def best_of_def Nil)
  with Nil show ?thesis
    using block_database.db_block_view(1) [OF assms(1) inv(1,2)] by (simp add: decanonize_def)
next
  case (snoc ys y)
  from block_database.decanonize_ok [OF assms(1), of s ys y] assms(2) snoc obtain s' where
    s': "decanonize ops s = Some (s', Inr y)" "chain_inv ops db_inv s' ys"
      "blocks_view ops s' = blocks_view ops s" by auto
  have "length ys + 1 < 2 ^ 32" "prev_of (kv_view ops (bdb s')) y = Some (bb_hash (best s'))"
    using assms(2) s'(2) prev_of_blocks_view [OF s'(3)]
    by (simp_all add: chain_inv_def chain_view_def snoc linked_append best_of_def)
  from block_database.canonize_ok [OF assms(1) s'(2) this] s' snoc show ?thesis by auto
qed

theorem decanonize_refines_butlast_witness:
  "\<exists>s'. decanonize memory_ops sample_db = Some (s', Inr 8) \<and> chain_inv memory_ops memory_inv s' [7]"
  using decanonize_refines_butlast [OF memory_blocks.block_database_axioms sample_db_ok(1)] by auto

text \<open>C6: \<^verbatim>\<open>block_origin\<close> never panics and classifies every header correctly: known, extending the best
  block (always so when the block is new and its parent is the best block), on a side chain that stays shorter or becomes longer than the canonical chain (with
  the route from the newest canonical ancestor to the parent, and the blocks to decanonize), with
  an unknown parent, or on a side chain of more than the preset length.\<close>

theorem block_origin_correct:
  assumes "block_database ops db_inv op_ok" "chain_inv ops db_inv s hs" "hs \<noteq> []"
    and "length hs + MAX_FORK_ROUTE_PRESET < 2 ^ 32"
    and "parents_stored (prev_of (kv_view ops (bdb s))) hs"
  shows "\<exists>res. block_origin ops s h = Some res \<and>
    origin_spec (prev_of (kv_view ops (bdb s))) hs (hash h) (previous_header_hash (raw h)) res \<and>
    (prev_of (kv_view ops (bdb s)) (hash h) = None \<and> previous_header_hash (raw h) = last hs \<longrightarrow>
      res = Inr (CanonChain (of_nat (length hs))))"
proof -
  have "length hs < 2 ^ 32" using assms(4) by simp
  from block_database.block_origin_ok [OF assms(1,2,4,3,5), of h] block_database.block_origin_canon [OF assms(1,2,3) this, of h]
  show ?thesis by auto
qed

theorem block_origin_correct_witness:
  "\<exists>res. block_origin memory_ops sample_db (header (link_block 11 10)) = Some res \<and>
    origin_spec (prev_of (kv_view memory_ops (bdb sample_db))) [7, 8] 11 10 res"
  using block_origin_correct [OF memory_blocks.block_database_axioms sample_db_ok(1) _ _
      sample_db_parents, of "header (link_block 11 10)"]
  by (simp add: MAX_FORK_ROUTE_PRESET_def)

text \<open>C5: a block that makes a side chain the longer one: forking along the route \<^verbatim>\<open>block_origin\<close> gives
  and switching to the fork succeed, and leave the canonical chain cut after the ancestor and
  continued by the route, ending in the parent of the block, at least as long as before minus
  the new block; no stored block is lost.\<close>

theorem fork_switch_correct:
  assumes db: "block_database ops db_inv op_ok" and s: "chain_inv ops db_inv s hs" "hs \<noteq> []"
    and len: "length hs + MAX_FORK_ROUTE_PRESET < 2 ^ 32"
    and parents: "parents_stored (prev_of (kv_view ops (bdb s))) hs"
    and origin: "block_origin ops s h = Some (Inr (SideChainBecomingCanonChain sc))"
  shows "\<exists>i f s'. ancestor sc = of_nat i \<and> i < length hs \<and>
    fork ops s sc = Some (Inr f) \<and> switch_to_fork ops s f = (s', Inr ()) \<and>
    chain_inv ops db_inv s' (take (Suc i) hs @ canonized_route sc) \<and>
    length hs \<le> length (take (Suc i) hs @ canonized_route sc) \<and>
    bb_hash (best s') = previous_header_hash (raw h) \<and> blocks_view ops s' = blocks_view ops s"
proof -
  from block_database.block_origin_ok [OF db s(1) len s(2) parents, of h] origin obtain i where
    i: "side_origin (prev_of (kv_view ops (bdb s))) hs (previous_header_hash (raw h)) i sc"
      "length hs \<le> i + length (canonized_route sc) + 1" by auto
  let ?hs = "take (Suc i) hs"
  have lt: "i < length hs" and anc: "ancestor sc = of_nat i" using i(1) by (simp_all add: side_origin_def)
  from block_database.side_fork_ok [OF db s(1) len i(1)] obtain f where
    f: "fork ops s sc = Some (Inr f)" "od_db (bdb f) = bdb s"
      "chain_inv (overlay_ops ops) (overlay_inv db_inv op_ok) f (?hs @ canonized_route sc)"
      "blocks_view (overlay_ops ops) f = blocks_view ops s"
      "last (?hs @ canonized_route sc) = previous_header_hash (raw h)" by blast
  from block_database.switch_to_fork_ok [OF db f(3,2)] obtain s' where
    s': "switch_to_fork ops s f = (s', Inr ())" "chain_inv ops db_inv s' (?hs @ canonized_route sc)"
      "blocks_view ops s' = blocks_view (overlay_ops ops) f" by blast
  have "bb_hash (best s') = previous_header_hash (raw h)"
    using s'(2) f(5) lt by (cases hs) (simp_all add: chain_inv_def best_of_def)
  moreover have "length hs \<le> length (?hs @ canonized_route sc)" using i(2) lt by simp
  ultimately show ?thesis using f s' lt anc by auto
qed

lemma sample_db_origin:
  "block_origin memory_ops sample_db (header (link_block 11 10)) =
     Some (Inr (SideChainBecomingCanonChain
       \<lparr>ancestor = 0, canonized_route = [9, 10], decanonized_route = [8], origin_block_number = 3\<rparr>))"
proof -
  have best: "best sample_db = \<lparr>bb_number = 1, bb_hash = 8\<rparr>" and inv: "memory_inv (bdb sample_db)"
    using sample_db_ok(1) by (simp_all add: chain_inv_def best_of_def)
  note chain = memory_blocks.contains_block_view [OF inv]
    memory_blocks.db_block_hash_chain [OF sample_db_ok(1)]
    memory_blocks.db_block_number_chain [OF sample_db_ok(1)]
    memory_blocks.db_block_header_blocks [OF inv] sample_db_ok(2) sample_db_prev best
  have loop: "origin_loop memory_ops sample_db (Suc (Suc (Suc k))) 0 10 [] =
      Some (Inr (SideChainBecomingCanonChain
       \<lparr>ancestor = 0, canonized_route = [9, 10], decanonized_route = [8], origin_block_number = 3\<rparr>))" for k
    by (simp add: chain u32_range_def upt_rec)
  have max: "MAX_FORK_ROUTE_PRESET = Suc (Suc (Suc 2045))" by (simp add: MAX_FORK_ROUTE_PRESET_def)
  have "origin_loop memory_ops sample_db MAX_FORK_ROUTE_PRESET 0 10 [] =
      Some (Inr (SideChainBecomingCanonChain
       \<lparr>ancestor = 0, canonized_route = [9, 10], decanonized_route = [8], origin_block_number = 3\<rparr>))"
    unfolding max by (rule loop)
  then show ?thesis by (simp add: block_origin_def chain)
qed

theorem fork_switch_correct_witness:
  "\<exists>f s'. fork memory_ops sample_db
      \<lparr>ancestor = 0, canonized_route = [9, 10], decanonized_route = [8], origin_block_number = 3\<rparr> =
        Some (Inr f) \<and>
    switch_to_fork memory_ops sample_db f = (s', Inr ()) \<and> bb_hash (best s') = 10"
  using fork_switch_correct [OF memory_blocks.block_database_axioms sample_db_ok(1) _ _
      sample_db_parents sample_db_origin]
  by (auto simp: MAX_FORK_ROUTE_PRESET_def)

text \<open>C9: after any sequence of operations the best block survives a restart: the database stack is
  dropped, the disk is opened again, and the same canonical chain is found.\<close>

theorem restart_keeps_chain:
  assumes "rocks_ok R" "digits_ok X" "lru_ok L" "ops = disk_ops X format R"
    and s: "chain_inv (production_ops L ops)
      (cache_inv L (autoflush_ops ops) (autoflush_inv (disk_inv X R) (op_encodable X))) s hs"
  shows "\<exists>d s'. autoflush_drop ops (cd_db (bdb s)) = Some d \<and>
    open_with_cache L ops d = Some s' \<and> best s' = best s \<and>
    chain_inv (production_ops L ops)
      (cache_inv L (autoflush_ops ops) (autoflush_inv (disk_inv X R) (op_encodable X))) s' hs"
proof -
  have disk: "block_database ops (disk_inv X R) (op_encodable X)"
    unfolding assms(4) by (rule disk_block_database [OF assms(1,2)])
  then have kv: "kv_database ops (disk_inv X R) (op_encodable X)" by (simp add: block_database_def)
  have inv: "cache_inv L (autoflush_ops ops) (autoflush_inv (disk_inv X R) (op_encodable X)) (bdb s)"
    and v: "chain_view (kv_view (production_ops L ops) (bdb s)) hs" and b: "best s = best_of hs"
    using s by (simp_all add: chain_inv_def)
  then have af: "autoflush_inv (disk_inv X R) (op_encodable X) (cd_db (bdb s))" by (simp add: cache_inv_def)
  have "kv_view (production_ops L ops) (bdb s) = kv_view (autoflush_ops ops) (cd_db (bdb s))"
    unfolding production_ops_def
    by (rule kv_database.cache_view [OF kv_database.autoflush_database [OF kv] inv])
  with kv_database.autoflush_flush_correct [OF kv af] obtain d where
    d: "autoflush_drop ops (cd_db (bdb s)) = Some d" "disk_inv X R d"
      "kv_view ops d = kv_view (production_ops L ops) (bdb s)"
    by (auto simp: autoflush_drop_def)
  note start = production_open_ok [OF kv assms(3) d(2)]
  have "db_open (production_ops L ops) (production_open L d) =
      Some \<lparr>best = best_of hs, bdb = production_open L d\<rparr>"
    using block_database.db_open_ok [OF production_block_database [OF disk assms(3)] start(1)] v
    by (simp add: start(2) d(3))
  then show ?thesis
    using d start v b by (simp add: open_with_cache_def chain_inv_def)
qed

lemma production_sample:
  "\<exists>s. chain_inv (production_ops one_entry_lru (disk_ops reference_externs (\<lambda>_. []) map_rocks))
     (cache_inv one_entry_lru (autoflush_ops (disk_ops reference_externs (\<lambda>_. []) map_rocks))
       (autoflush_inv (disk_inv reference_externs map_rocks) (op_encodable reference_externs))) s [7]"
proof -
  let ?ops = "disk_ops reference_externs (\<lambda>_. []) map_rocks"
  let ?s = "\<lparr>best = best_block_default, bdb = production_open one_entry_lru empty_rocks\<rparr>"
  note disk = disk_block_database [OF map_rocks_ok reference_externs_ok(1), of "\<lambda>_. []"]
  note start = production_open_ok [OF block_database.axioms(1) [OF disk], OF one_entry_lru_ok sample_txs_ok(1)]
  note prod = production_block_database [OF disk one_entry_lru_ok]
  have v: "kv_view ?ops empty_rocks = (\<lambda>_. None)"
    by (simp add: disk_view [OF map_rocks_ok] fun_eq_iff decode_slot_def empty_rocks_def)
  have "chain_inv (production_ops one_entry_lru ?ops)
     (cache_inv one_entry_lru (autoflush_ops ?ops)
       (autoflush_inv (disk_inv reference_externs map_rocks) (op_encodable reference_externs))) ?s []"
    using start
    by (simp add: chain_inv_def chain_view_def v meta_view_def prev_of_def best_of_def best_block_default_def)
  moreover have "op_encodable reference_externs (Insert (BlockData 7 (to_raw_block (link_block 7 0))))"
    using sample_valid(1)
    by (simp add: to_raw_block_def link_block_def valid_block_def valid_header_def)
  ultimately show ?thesis
    using block_database.insert_canonize_ok [OF prod, of ?s "[]" "link_block 7 0"] start(2)
    by (auto simp: v prev_of_def best_block_default_def)
qed

theorem restart_keeps_chain_witness:
  "\<exists>d s'. open_with_cache one_entry_lru (disk_ops reference_externs (\<lambda>_. []) map_rocks) d = Some s' \<and>
     best s' = \<lparr>bb_number = 0, bb_hash = 7\<rparr>"
proof -
  from production_sample obtain s where s:
    "chain_inv (production_ops one_entry_lru (disk_ops reference_externs (\<lambda>_. []) map_rocks))
     (cache_inv one_entry_lru (autoflush_ops (disk_ops reference_externs (\<lambda>_. []) map_rocks))
       (autoflush_inv (disk_inv reference_externs map_rocks) (op_encodable reference_externs))) s [7]" ..
  then have "best s = \<lparr>bb_number = 0, bb_hash = 7\<rparr>" by (simp add: chain_inv_def best_of_def)
  with restart_keeps_chain [OF map_rocks_ok reference_externs_ok(1) one_entry_lru_ok refl s]
  show ?thesis by metis
qed

end
