(* ===== verification/Compact_Bits.thy ===== *)
theory Compact_Bits
  imports Block_Types "HOL-Library.Monad_Syntax"
begin

text \<open>
  The compact representation of targets (\<^verbatim>\<open>primitives/src/compact.rs\<close>) and the parameters of the
  networks (\<^verbatim>\<open>network/src/network.rs\<close>). \<^verbatim>\<open>U256\<close> is a 256-bit word: its shifts, comparisons and the
  conversions to smaller integers are those of words, \<^verbatim>\<open>bits()\<close> is the length of the binary
  representation. A \<^verbatim>\<open>Compact\<close> is its 32-bit word.
\<close>

section \<open>Compact targets\<close>

fun bit_length :: "nat \<Rightarrow> nat" where
  "bit_length n = (if n = 0 then 0 else Suc (bit_length (n div 2)))"

declare bit_length.simps [simp del]

unbundle bit_operations_syntax

definition to_u256 :: "u32 \<Rightarrow> u256 + u256" where
  "to_u256 c =
     (let size = drop_bit 24 c;
          word = c AND 0x007fffff;
          word = (if size \<le> 3 then drop_bit (8 * (3 - unat size)) word else word);
          result = (if size \<le> 3 then ucast word else push_bit (8 * (unat size - 3)) (ucast word));
          is_negative = (word \<noteq> 0 \<and> c AND 0x00800000 \<noteq> 0);
          is_overflow = (word \<noteq> 0 \<and> size > 34 \<or> word > 0xff \<and> size > 33 \<or> word > 0xffff \<and> size > 32)
      in if is_negative \<or> is_overflow then Inl result else Inr result)"

definition from_u256 :: "u256 \<Rightarrow> u32 option" where
  "from_u256 val =
     (let size = (bit_length (unat val) + 7) div 8;
          compact = (if size \<le> 3 then ucast (push_bit (8 * (3 - size)) (ucast val :: u64))
                     else ucast (drop_bit (8 * (size - 3)) val)) :: u32;
          carry = (compact AND 0x00800000 \<noteq> 0);
          compact = (if carry then drop_bit 8 compact else compact);
          size = (if carry then size + 1 else size)
      in if compact AND NOT 0x007fffff \<noteq> 0 then None
         else if \<not> size < 256 then None
         else Some (compact OR ucast (of_nat (size * 2 ^ 24) :: u64)))"

definition compact_into_u256 :: "u32 \<Rightarrow> u256" where
  "compact_into_u256 c = (case to_u256 c of Inl x \<Rightarrow> x | Inr x \<Rightarrow> x)"

definition compact_max_value :: "u32 option" where
  "compact_max_value = from_u256 (- 1)"

section \<open>Networks\<close>

datatype Network = Mainnet | Testnet | Regtest | Unitest | Other u32

fun magic :: "Network \<Rightarrow> u32" where
  "magic Mainnet = 0xD9B4BEF9"
| "magic Testnet = 0x0709110B"
| "magic Regtest = 0xDAB5BFFA"
| "magic Unitest = 0x00000000"
| "magic (Other v) = v"

definition MAX_BITS :: u256 where
  "MAX_BITS = 0x7fffffffffffffffffffffffffffffffffffffffffffffffffffffffffffffff"

fun max_bits :: "Network \<Rightarrow> u256 option" where
  "max_bits Unitest = map_option compact_into_u256 compact_max_value"
| "max_bits _ = Some MAX_BITS"

fun network_port :: "Network \<Rightarrow> u16" where
  "network_port Mainnet = 8333"
| "network_port (Other _) = 8333"
| "network_port Testnet = 18333"
| "network_port Regtest = 18444"
| "network_port Unitest = 18444"

fun rpc_port :: "Network \<Rightarrow> u16" where
  "rpc_port Mainnet = 8332"
| "rpc_port (Other _) = 8332"
| "rpc_port Testnet = 18332"
| "rpc_port Regtest = 18443"
| "rpc_port Unitest = 18443"

text \<open>The three genesis blocks of the source are equal.\<close>

definition genesis_block :: "externs \<Rightarrow> Network \<Rightarrow> IndexedBlock option" where
  "genesis_block X n =
     do { pk \<leftarrow> vrf_from_bytes X (of_le_bytes (replicate 32 6));
          Some (indexed_block_from_raw X
            \<lparr>block_header = \<lparr>version = 1, previous_header_hash = 0, time = 4, bits = 5, pubkey = pk,
                            iterations = 100000, randomness = 8\<rparr>,
             block_proof = []\<rparr>) }"

fun default_verification_edge :: "externs \<Rightarrow> Network \<Rightarrow> h256 option" where
  "default_verification_edge X Mainnet =
     Some 0x0000000000000000030abc968e1bd635736e880b946085c93152969b9a81a6e2"
| "default_verification_edge X Testnet =
     Some 0x000000000871ee6842d3648317ccc8a435eb8cc3c2429aee94faff9ba26b05a0"
| "default_verification_edge X n = map_option block_hash_of (genesis_block X n)"

lemma bit_length_bound: "n < 2 ^ bit_length n"
proof (induction n rule: bit_length.induct)
  case (1 n)
  show ?case
  proof (cases "n = 0")
    case False
    with "1" have "n div 2 < 2 ^ bit_length (n div 2)" by simp
    then have "n < 2 * 2 ^ bit_length (n div 2)" by linarith
    with False show ?thesis by (subst bit_length.simps) simp
  qed simp
qed

lemma bit_length_least: "0 < n \<Longrightarrow> 2 ^ (bit_length n - 1) \<le> n"
proof (induction n rule: bit_length.induct)
  case (1 n)
  show ?case
  proof (cases "n div 2 = 0")
    case True
    with "1.prems" have "n = 1" by linarith
    then show ?thesis by (simp add: bit_length.simps [of "Suc 0"] bit_length.simps [of 0])
  next
    case False
    with "1" have "2 ^ (bit_length (n div 2) - 1) \<le> n div 2" by simp
    moreover have "0 < bit_length (n div 2)" using False by (subst bit_length.simps) simp
    ultimately have "2 ^ bit_length (n div 2) \<le> n"
      by (cases "bit_length (n div 2)") auto
    with "1.prems" show ?thesis by (subst bit_length.simps) simp
  qed
qed

lemma mask_23: "(0x007fffff :: u32) = mask 23" "(0x00800000 :: u32) = push_bit 23 1"
  by (simp_all add: mask_eq_exp_minus_1 push_bit_eq_mult)

lemma take_bit_unat: "unat (c :: 'a::len word) < 2 ^ n \<Longrightarrow> take_bit n c = c"
  by (metis (no_types) take_bit_nat_eq_self_iff unsigned_take_bit_eq word_unat_eq_iff)

lemma compact_pack:
  fixes c k :: u32
  assumes "unat c < 2 ^ 23" "unat k < 256"
  shows "drop_bit 24 (c OR push_bit 24 k) = k" "(c OR push_bit 24 k) AND 0x007fffff = c"
    "(c OR push_bit 24 k) AND 0x00800000 = 0"
proof -
  have c: "take_bit 23 c = c" and k: "take_bit 8 k = k" using assms by (auto intro: take_bit_unat)
  have bc: "bit c n \<Longrightarrow> n < 23" for n by (metis bit_take_bit_iff c)
  have bk: "bit k n \<Longrightarrow> n < 8" for n by (metis bit_take_bit_iff k)
  show "drop_bit 24 (c OR push_bit 24 k) = k"
    by (rule bit_word_eqI) (auto simp: bit_simps dest: bc bk)
  show "(c OR push_bit 24 k) AND 0x007fffff = c"
    unfolding mask_23 by (rule bit_word_eqI) (auto simp: bit_simps dest: bc bk)
  have "\<not> bit (c OR push_bit 24 k) 23" by (auto simp: bit_simps dest: bc)
  then show "(c OR push_bit 24 k) AND 0x00800000 = 0"
    unfolding mask_23 bit_iff_and_push_bit_not_eq_0 by simp
qed

lemma carry_iff:
  fixes c :: u32
  assumes "unat c < 2 ^ 24"
  shows "c AND 0x00800000 \<noteq> 0 \<longleftrightarrow> 2 ^ 23 \<le> unat c"
proof -
  have "c AND 0x00800000 \<noteq> 0 \<longleftrightarrow> bit c 23"
    unfolding mask_23 by (simp add: bit_iff_and_push_bit_not_eq_0)
  also have "\<dots> \<longleftrightarrow> bit (unat c) 23" by (simp add: bit_simps)
  also have "\<dots> \<longleftrightarrow> odd (unat c div 2 ^ 23)" by (simp add: bit_iff_odd)
  also have "\<dots> \<longleftrightarrow> 2 ^ 23 \<le> unat c"
  proof
    assume "2 ^ 23 \<le> unat c"
    with assms have "unat c div 2 ^ 23 = 1" by (simp add: div_nat_eqI)
    then show "odd (unat c div 2 ^ 23)" by simp
  qed (metis div_less even_zero not_le)
  finally show ?thesis .
qed

lemma assert_iff:
  fixes c :: u32
  assumes "unat c < 2 ^ 23"
  shows "c AND NOT 0x007fffff = 0"
proof -
  have "take_bit 23 c = c" using assms by (rule take_bit_unat)
  then have bc: "bit c n \<Longrightarrow> n < 23" for n by (metis bit_take_bit_iff)
  show ?thesis unfolding mask_23 by (rule bit_word_eqI) (auto simp: bit_simps dest: bc)
qed

text \<open>
  The mantissa and the size of a target, on natural numbers: the three leading bytes, or the two
  leading bytes and one more byte of size when the third leading bit would read as the sign.
\<close>

definition byte_size :: "nat \<Rightarrow> nat" where
  "byte_size v = (bit_length v + 7) div 8"

definition leading_bytes :: "nat \<Rightarrow> nat" where
  "leading_bytes v =
     (if byte_size v \<le> 3 then v * 2 ^ (8 * (3 - byte_size v)) else v div 2 ^ (8 * (byte_size v - 3)))"

definition mantissa :: "nat \<Rightarrow> nat" where
  "mantissa v = (if 2 ^ 23 \<le> leading_bytes v then leading_bytes v div 256 else leading_bytes v)"

definition exponent :: "nat \<Rightarrow> nat" where
  "exponent v = (if 2 ^ 23 \<le> leading_bytes v then byte_size v + 1 else byte_size v)"

lemma byte_size_upper: "v < 2 ^ (8 * byte_size v)"
proof -
  have "bit_length v \<le> 8 * byte_size v" unfolding byte_size_def by linarith
  then have "(2::nat) ^ bit_length v \<le> 2 ^ (8 * byte_size v)" by (simp add: power_increasing)
  with bit_length_bound [of v] show ?thesis by linarith
qed

lemma byte_size_lower: "0 < v \<Longrightarrow> 0 < byte_size v \<and> 2 ^ (8 * (byte_size v - 1)) \<le> v"
proof -
  assume v: "0 < v"
  then have pos: "0 < bit_length v" by (subst bit_length.simps) simp
  then have "8 * (byte_size v - 1) \<le> bit_length v - 1" "0 < byte_size v"
    unfolding byte_size_def by linarith+
  then have "(2::nat) ^ (8 * (byte_size v - 1)) \<le> 2 ^ (bit_length v - 1)" by (simp add: power_increasing)
  with bit_length_least [OF v] \<open>0 < byte_size v\<close> show ?thesis by linarith
qed

lemma leading_bytes_less: "leading_bytes v < 2 ^ 24"
proof (cases "byte_size v \<le> 3")
  case True
  have "v * 2 ^ (8 * (3 - byte_size v)) < 2 ^ (8 * byte_size v) * 2 ^ (8 * (3 - byte_size v))"
    using byte_size_upper [of v] by simp
  also have "\<dots> = 2 ^ (8 * byte_size v + 8 * (3 - byte_size v))" by (simp only: power_add)
  also have "8 * byte_size v + 8 * (3 - byte_size v) = 24" using True by simp
  finally show ?thesis using True by (simp add: leading_bytes_def)
next
  case False
  have "v < 2 ^ (8 * byte_size v)" by (rule byte_size_upper)
  also have "8 * byte_size v = 24 + 8 * (byte_size v - 3)" using False by simp
  also have "(2::nat) ^ (24 + 8 * (byte_size v - 3)) = 2 ^ 24 * 2 ^ (8 * (byte_size v - 3))"
    by (simp only: power_add)
  finally have "v div 2 ^ (8 * (byte_size v - 3)) < 2 ^ 24" by (rule less_mult_imp_div_less)
  then show ?thesis using False by (simp add: leading_bytes_def)
qed

lemma mantissa_less: "mantissa v < 2 ^ 23"
  using leading_bytes_less [of v] by (simp add: mantissa_def less_mult_imp_div_less)

lemma byte_size_u256: "v < 2 ^ 256 \<Longrightarrow> byte_size v \<le> 32"
proof (rule ccontr)
  assume v: "v < 2 ^ 256" and "\<not> byte_size v \<le> 32"
  then have "8 * 32 \<le> 8 * (byte_size v - 1)" and "0 < v"
    using byte_size_upper [of v] by (auto simp: byte_size_def bit_length.simps [of 0] intro: Nat.gr0I)
  then have "(2::nat) ^ (8 * 32) \<le> 2 ^ (8 * (byte_size v - 1))" by (intro power_increasing) simp_all
  with byte_size_lower [OF \<open>0 < v\<close>] have "2 ^ (8 * 32) \<le> v" by (meson le_trans)
  with v show False by simp
qed

definition target :: "nat \<Rightarrow> nat" where
  "target v =
     (if exponent v \<le> 3 then mantissa v div 2 ^ (8 * (3 - exponent v))
      else mantissa v * 2 ^ (8 * (exponent v - 3)))"

lemma div_mult_pow: "(v :: nat) * 2 ^ (i + j) div 2 ^ i = v * 2 ^ j"
  by (simp add: power_add mult.commute mult.left_commute)

text \<open>The target keeps the leading bits; what it drops is at most one part in \<open>2 ^ 15\<close>.\<close>

lemma target_form: "\<exists>j. target v = v div 2 ^ j * 2 ^ j \<and> (j = 0 \<or> 2 ^ (j + 15) \<le> v)"
proof (cases "byte_size v \<le> 3")
  case small: True
  then have L: "leading_bytes v = v * 2 ^ (8 * (3 - byte_size v))" by (simp add: leading_bytes_def)
  show ?thesis
  proof (cases "2 ^ 23 \<le> leading_bytes v")
    case False
    then have "target v = v"
      using small by (simp add: target_def exponent_def mantissa_def L)
    then show ?thesis by (intro exI [of _ 0]) simp
  next
    case carry: True
    show ?thesis
    proof (cases "byte_size v = 3")
      case True
      with carry have "target v = v div 2 ^ 8 * 2 ^ 8" "2 ^ 23 \<le> v"
        by (simp_all add: target_def exponent_def mantissa_def L)
      then show ?thesis by (intro exI [of _ 8]) simp
    next
      case False
      with small have "8 * (3 - byte_size v) = 8 + 8 * (2 - byte_size v)" by simp
      then have "mantissa v = v * 2 ^ (8 * (2 - byte_size v))"
        using carry div_mult_pow [of v 8] by (simp add: mantissa_def L)
      moreover have "exponent v = Suc (byte_size v)" using carry by (simp add: exponent_def)
      ultimately have "target v = v" using False small by (simp add: target_def)
      then show ?thesis by (intro exI [of _ 0]) simp
    qed
  qed
next
  case big: False
  define k where "k = 8 * (byte_size v - 3)"
  have L: "leading_bytes v = v div 2 ^ k" using big by (simp add: leading_bytes_def k_def)
  have "0 < v" using big by (auto simp: byte_size_def bit_length.simps [of 0] intro: Nat.gr0I)
  from byte_size_lower [OF this] have "2 ^ (8 * (byte_size v - 1)) \<le> v" by simp
  also have "8 * (byte_size v - 1) = k + 16" using big by (simp add: k_def)
  finally have v: "2 ^ (k + 16) \<le> v" .
  show ?thesis
  proof (cases "2 ^ 23 \<le> leading_bytes v")
    case False
    then have "target v = v div 2 ^ k * 2 ^ k"
      using big by (simp add: target_def exponent_def mantissa_def L k_def)
    moreover have "2 ^ (k + 15) \<le> v"
      using v by (rule le_trans [rotated]) (rule power_increasing, simp_all)
    ultimately show ?thesis by blast
  next
    case True
    have "exponent v = byte_size v + 1" using True by (simp add: exponent_def)
    with big have "8 * (exponent v - 3) = k + 8" "\<not> exponent v \<le> 3" by (simp_all add: k_def)
    moreover have "mantissa v = v div 2 ^ (k + 8)"
      using True by (simp add: mantissa_def L div_mult2_eq power_add)
    ultimately have "target v = v div 2 ^ (k + 8) * 2 ^ (k + 8)" by (simp add: target_def)
    moreover have "2 ^ 23 * 2 ^ k \<le> v"
      using True unfolding L by (metis le_trans mult_le_mono1 div_times_less_eq_dividend)
    then have "2 ^ ((k + 8) + 15) \<le> v" by (simp add: power_add mult.commute)
    ultimately show ?thesis by blast
  qed
qed

lemma target_error: "target v \<le> v \<and> (v - target v) * 2 ^ 15 \<le> v"
proof -
  obtain j where j: "target v = v div 2 ^ j * 2 ^ j" "j = 0 \<or> 2 ^ (j + 15) \<le> v"
    using target_form by blast
  have "v - target v = v mod 2 ^ j" using j(1) by (simp add: minus_div_mult_eq_mod)
  moreover have "v mod 2 ^ j < 2 ^ j" by simp
  ultimately have "j \<noteq> 0 \<Longrightarrow> (v - target v) * 2 ^ 15 \<le> 2 ^ (j + 15)" by (simp add: power_add)
  then show ?thesis using j by (cases "j = 0") auto
qed

section \<open>The conversions compute it\<close>

lemma ucast_of_nat_small:
  assumes "n < 2 ^ LENGTH('a)"
  shows "ucast (of_nat n :: 'a::len word) = (of_nat n :: 'b::len word)"
proof -
  have eq: "unat (of_nat n :: 'a word) = n" using assms by (simp add: unat_of_nat take_bit_nat_eq_self)
  have "of_nat (unat (of_nat n :: 'a word)) = (ucast (of_nat n :: 'a word) :: 'b word)"
    by (rule of_nat_unat)
  then show ?thesis unfolding eq by (rule sym)
qed

lemma unat_drop_bit: "unat (drop_bit n (w :: 'a::len word)) = unat w div 2 ^ n"
proof -
  have "unat (drop_bit n w) = drop_bit n (unat w)"
    using unsigned_less [of w] by (simp add: unsigned_drop_bit_eq take_bit_nat_eq_self)
  then show ?thesis by (simp only: drop_bit_eq_div)
qed

lemma drop_bit_of_nat_u32:
  assumes "n < 2 ^ 32"
  shows "drop_bit k (of_nat n :: u32) = of_nat (n div 2 ^ k)"
proof -
  have "n div 2 ^ k < 2 ^ 32" using div_le_dividend [of n "2 ^ k"] assms by linarith
  then have "unat (drop_bit k (of_nat n :: u32)) = unat (of_nat (n div 2 ^ k) :: u32)"
    using assms by (simp only: unat_drop_bit unat_of_nat_u32)
  then show ?thesis by (simp only: word_unat_eq_iff)
qed

lemma u256_less: "unat (val :: u256) < 2 ^ 256"
proof -
  have "unat val < 2 ^ LENGTH(256)" by (rule unsigned_less)
  then show ?thesis by simp
qed

lemma from_u256_eq:
  "from_u256 val = Some (of_nat (mantissa (unat val)) OR push_bit 24 (of_nat (exponent (unat val))))"
proof -
  let ?v = "unat val" let ?L = "of_nat (leading_bytes ?v) :: u32"
  have size: "(bit_length ?v + 7) div 8 = byte_size ?v" by (simp add: byte_size_def)
  have le: "byte_size ?v \<le> 32" by (rule byte_size_u256 [OF u256_less])
  have lead: "(if byte_size ?v \<le> 3 then ucast (push_bit (8 * (3 - byte_size ?v)) (ucast val :: u64))
      else ucast (drop_bit (8 * (byte_size ?v - 3)) val)) = ?L"
  proof (cases "byte_size ?v \<le> 3")
    case True
    have "?v * 2 ^ (8 * (3 - byte_size ?v)) < 2 ^ 24"
      using leading_bytes_less [of ?v] True by (simp add: leading_bytes_def)
    moreover have "push_bit (8 * (3 - byte_size ?v)) (ucast val :: u64) =
        of_nat (?v * 2 ^ (8 * (3 - byte_size ?v)))"
      by (simp add: push_bit_eq_mult)
    ultimately show ?thesis
      using True by (simp add: leading_bytes_def ucast_of_nat_small del: of_nat_mult)
  next
    case False
    have "ucast (drop_bit (8 * (byte_size ?v - 3)) val) =
        (of_nat (unat (drop_bit (8 * (byte_size ?v - 3)) val)) :: u32)" by simp
    also have "\<dots> = ?L" using False by (simp only: unat_drop_bit leading_bytes_def if_False)
    finally show ?thesis using False by simp
  qed
  have L: "unat ?L = leading_bytes ?v" using leading_bytes_less [of ?v] by simp
  have carry: "?L AND 0x00800000 \<noteq> 0 \<longleftrightarrow> 2 ^ 23 \<le> leading_bytes ?v"
    using carry_iff [of ?L] leading_bytes_less [of ?v] by (simp add: L)
  have mant: "(if 2 ^ 23 \<le> leading_bytes ?v then drop_bit 8 ?L else ?L) = of_nat (mantissa ?v)"
    using leading_bytes_less [of ?v] by (simp add: mantissa_def drop_bit_of_nat_u32)
  have expo: "(if 2 ^ 23 \<le> leading_bytes ?v then byte_size ?v + 1 else byte_size ?v) = exponent ?v"
    by (simp add: exponent_def)
  have e: "exponent ?v < 256" using le by (simp add: exponent_def)
  have assert: "of_nat (mantissa ?v) AND NOT 0x007fffff = (0 :: u32)"
    using mantissa_less [of ?v] by (intro assert_iff) simp
  have "ucast (of_nat (exponent ?v * 2 ^ 24) :: u64) = push_bit 24 (of_nat (exponent ?v) :: u32)"
    using e by (simp add: ucast_of_nat_small push_bit_eq_mult del: of_nat_mult) simp
  then show ?thesis
    unfolding from_u256_def Let_def size lead carry mant expo assert using e by simp
qed

lemma to_u256_pack:
  assumes "m < 2 ^ 23" "e \<le> 33" "e = 33 \<Longrightarrow> m < 2 ^ 16"
  shows "to_u256 (of_nat m OR push_bit 24 (of_nat e)) =
    Inr (of_nat (if e \<le> 3 then m div 2 ^ (8 * (3 - e)) else m * 2 ^ (8 * (e - 3))))"
proof -
  have m: "unat (of_nat m :: u32) = m" and e: "unat (of_nat e :: u32) = e" using assms by simp_all
  have e3: "(of_nat e :: u32) \<le> 3 \<longleftrightarrow> e \<le> 3" by (simp add: word_le_nat_alt e)
  have e33: "\<not> (of_nat e :: u32) > 34" "\<not> (of_nat e :: u32) > 33"
    using assms(2) by (simp_all add: word_less_nat_alt e)
  have e32: "e \<le> 3 \<Longrightarrow> \<not> (of_nat e :: u32) > 32" by (simp add: word_less_nat_alt e)
  have m16: "(of_nat e :: u32) > 32 \<Longrightarrow> \<not> (of_nat m :: u32) > 0xffff"
    using assms by (auto simp: word_less_nat_alt e m)
  have "unat (of_nat m :: u32) < 2 ^ 23" "unat (of_nat e :: u32) < 256" unfolding m e using assms by simp_all
  note pack = compact_pack [OF this]
  show ?thesis
  proof (cases "e \<le> 3")
    case True
    have small: "m div 2 ^ (8 * (3 - e)) < 2 ^ 32"
      using assms(1) by (rule le_less_trans [OF div_le_dividend, OF less_trans]) simp
    have "drop_bit (8 * (3 - e)) (of_nat m :: u32) = of_nat (m div 2 ^ (8 * (3 - e)))"
      using assms(1) by (intro drop_bit_of_nat_u32) simp
    then show ?thesis
      unfolding to_u256_def Let_def pack e using True e3 e32 e33 small
      by (auto simp: ucast_of_nat_small)
  next
    case False
    have "ucast (of_nat m :: u32) = (of_nat m :: u256)" using assms(1) by (intro ucast_of_nat_small) simp
    then show ?thesis
      unfolding to_u256_def Let_def pack e using False e3 e33 m16
      by (auto simp: push_bit_eq_mult)
  qed
qed

lemma to_u256_from_u256:
  fixes val :: u256
  shows "to_u256 (of_nat (mantissa (unat val)) OR push_bit 24 (of_nat (exponent (unat val)))) =
   Inr (of_nat (target (unat val)))"
proof -
  let ?v = "unat val"
  have "byte_size ?v \<le> 32" by (rule byte_size_u256 [OF u256_less])
  then have "exponent ?v \<le> 33" and "exponent ?v = 33 \<Longrightarrow> 2 ^ 23 \<le> leading_bytes ?v"
    by (auto simp: exponent_def split: if_splits)
  moreover have "2 ^ 23 \<le> leading_bytes ?v \<Longrightarrow> mantissa ?v < 2 ^ 16"
    using leading_bytes_less [of ?v] by (simp add: mantissa_def less_mult_imp_div_less)
  ultimately show ?thesis
    using to_u256_pack [OF mantissa_less, of "exponent ?v" ?v] by (simp add: target_def)
qed

lemma u256_target: "of_nat (target (unat val)) \<le> (val :: u256)"
  "unat (of_nat (target (unat val)) :: u256) = target (unat val)"
proof -
  show eq: "unat (of_nat (target (unat val)) :: u256) = target (unat val)"
    using target_error [of "unat val"] u256_less [of val] by (simp add: unat_of_nat take_bit_nat_eq_self)
  show "of_nat (target (unat val)) \<le> val"
    using target_error [of "unat val"] by (simp add: word_le_nat_alt eq)
qed

section \<open>Properties\<close>

text \<open>
  C19: encoding a target never panics, the encoding is valid (neither negative nor overflowing), and
  decodes to a target that is not larger and loses at most one part in \<open>2 ^ 15\<close>.
\<close>

theorem compact_encoding_precise:
  "\<exists>c t. from_u256 val = Some c \<and> to_u256 c = Inr t \<and> t \<le> val \<and>
         (unat val - unat t) * 2 ^ 15 \<le> unat val"
proof -
  have t: "target (unat val) \<le> unat val" "(unat val - target (unat val)) * 2 ^ 15 \<le> unat val"
    using target_error [of "unat val"] by simp_all
  then show ?thesis by (auto simp: from_u256_eq to_u256_from_u256 u256_target)
qed

section \<open>The limits of the networks\<close>

lemma bit_length_ones: "bit_length (2 ^ n - 1) = n"
proof (induction n)
  case (Suc n)
  have "(2 ^ Suc n - 1) div 2 = (2 ^ n - 1 :: nat)" by simp
  moreover have "(1::nat) < 2 ^ Suc n" by (rule one_less_power) simp_all
  ultimately show ?case using Suc by (subst bit_length.simps) simp
qed (simp add: bit_length.simps [of 0])

lemma max_bits_compact: "from_u256 MAX_BITS = Some 0x207fffff"
proof -
  have v: "unat MAX_BITS = 2 ^ 255 - 1" by (simp add: MAX_BITS_def)
  have size: "byte_size (2 ^ 255 - 1) = 32" unfolding byte_size_def bit_length_ones by simp
  have lead: "leading_bytes (2 ^ 255 - 1) = 2 ^ 23 - 1" unfolding leading_bytes_def size by simp
  have "mantissa (2 ^ 255 - 1) = 2 ^ 23 - 1" "exponent (2 ^ 255 - 1) = 32"
    unfolding mantissa_def exponent_def lead size by simp_all
  then show ?thesis unfolding from_u256_eq v by simp
qed

lemma max_bits_target: "to_u256 0x207fffff = Inr (of_nat ((2 ^ 23 - 1) * 2 ^ 232))"
  using to_u256_pack [of "2 ^ 23 - 1" 32] by simp

end
