(* ===== verification/Vdf.thy ===== *)
theory Vdf
  imports Externals "HOL-Library.Monad_Syntax"
begin

text \<open>
  The verifiable delay function (\<^verbatim>\<open>vdf/src\<close>): repeated squaring modulo the RSA-2048 number, the
  halving proof of its result and the check of the proof. Shown: the loops terminate, an honest
  proof is accepted for every even number of iterations and for one iteration and rejected for
  three, and what the check does not establish.
\<close>

section \<open>The modulus and the Fiat-Shamir hash\<close>

definition MODULUS :: int where
  "MODULUS = 25195908475657893494027183240048398571429282126204032027777137836043662020707595556264018525880784406918290641249515082189298559149176184502808489120072844992687392807287776735971418347270261896375014971824691165077613379859095700097330459748808428401797429100642458691817195118746121515172654632282216869987549182422433637259085141865462043576798423387184774447920739934236584823824281198163815010674810451660377306056201619676256133844143603833904414952634432190114657544454178424020924616515723350778707749817125772467962926386356373289912154831438167899885040445364023527381951378636564391212010397122822120720357"

text \<open>Eight SHA-256 blocks of a seed behind a prefix, read as one little-endian number.\<close>

definition expand_2048 :: "externs \<Rightarrow> bytes \<Rightarrow> h256 \<Rightarrow> int" where
  "expand_2048 X prefix seed =
     from_digits_lsf X
       (concat (map (\<lambda>index. ser_h256 (sha256 X (prefix @ [of_nat index] @ ser_h256 seed))) [0..<8]))
     mod MODULUS"

definition hash_fs :: "externs \<Rightarrow> int list \<Rightarrow> int" where
  "hash_fs X inputs =
     (let seed = sha256 X (concat (map (\<lambda>i. to_digits_lsf X i @ [10]) inputs))
      in expand_2048 X (ascii ''fs_part_'') seed)"

section \<open>eval, prove and verify\<close>

primrec vdf_eval_loop :: "nat \<Rightarrow> int \<Rightarrow> int" where
  "vdf_eval_loop 0 y = y"
| "vdf_eval_loop (Suc t) y = vdf_eval_loop t ((y * y) mod MODULUS)"

definition vdf_eval :: "int \<Rightarrow> u32 \<Rightarrow> int" where
  "vdf_eval g t = vdf_eval_loop (unat t) g"

text \<open>
  One round of \<^verbatim>\<open>prove\<close> and of \<^verbatim>\<open>verify\<close>: fold the claim about \<open>x\<close>, \<open>y\<close> with the midpoint \<open>mu\<close>, halve
  the exponent, and make an odd exponent even again by squaring \<open>y\<close>.
\<close>

definition half_rounds :: "nat \<Rightarrow> nat" where
  "half_rounds t = (let t = t div 2 in if t mod 2 \<noteq> 0 \<and> t \<noteq> 1 then t + 1 else t)"

definition vdf_round :: "externs \<Rightarrow> int \<Rightarrow> int \<Rightarrow> nat \<Rightarrow> int \<Rightarrow> (int \<times> int) option" where
  "vdf_round X x y t mu =
     (let r = hash_fs X [x, y, mu]
      in do {
           xr \<leftarrow> pow_mod X x r MODULUS;
           mur \<leftarrow> pow_mod X mu r MODULUS;
           let x' = (xr * mu) mod MODULUS;
           let y' = (mur * y) mod MODULUS;
           if t div 2 mod 2 \<noteq> 0 \<and> t div 2 \<noteq> 1
           then do { y'' \<leftarrow> pow_mod X y' 2 MODULUS; Some (x', y'') }
           else Some (x', y')
         })"

lemma half_rounds_less: "2 \<le> t \<Longrightarrow> half_rounds t < t"
  unfolding half_rounds_def Let_def by (auto split: if_splits)

function vdf_prove_loop :: "externs \<Rightarrow> int \<Rightarrow> int \<Rightarrow> nat \<Rightarrow> int list option" where
  "vdf_prove_loop X x y t =
     (if t < 2 then Some []
      else do {
        mu \<leftarrow> pow_mod X x (2 ^ (t div 2)) MODULUS;
        (x', y') \<leftarrow> vdf_round X x y t mu;
        rest \<leftarrow> vdf_prove_loop X x' y' (half_rounds t);
        Some (mu # rest)
      })"
  by pat_completeness auto
termination
  by (relation "measure (\<lambda>(X, x, y, t). t)") (auto simp: half_rounds_less)

declare vdf_prove_loop.simps [simp del]

definition vdf_prove :: "externs \<Rightarrow> int \<Rightarrow> int \<Rightarrow> u32 \<Rightarrow> int list option" where
  "vdf_prove X g y iterations = vdf_prove_loop X g y (unat iterations)"

fun vdf_verify_loop :: "externs \<Rightarrow> int \<Rightarrow> int \<Rightarrow> nat \<Rightarrow> int list \<Rightarrow> bool option" where
  "vdf_verify_loop X x y t [] = do { x2 \<leftarrow> pow_mod X x 2 MODULUS; Some (y = x2) }"
| "vdf_verify_loop X x y t (mu # proof_rest) =
     do { (x', y') \<leftarrow> vdf_round X x y t mu;
          vdf_verify_loop X x' y' (half_rounds t) proof_rest }"

definition vdf_verify :: "externs \<Rightarrow> int \<Rightarrow> int \<Rightarrow> u32 \<Rightarrow> int list \<Rightarrow> bool option" where
  "vdf_verify X g y iterations proof_list = vdf_verify_loop X g y (unat iterations) proof_list"

section \<open>Arithmetic\<close>

lemma MODULUS_pos [simp]: "0 < MODULUS"
  by (simp add: MODULUS_def)

lemma expand_2048_bounds: "0 \<le> expand_2048 X p s" "expand_2048 X p s < MODULUS"
  by (simp_all add: expand_2048_def)

lemma hash_fs_nonneg [simp]: "0 \<le> hash_fs X is"
  by (simp add: hash_fs_def Let_def expand_2048_bounds)

lemma vdf_eval_loop_power: "vdf_eval_loop t y mod MODULUS = y ^ (2 ^ t) mod MODULUS"
proof (induction t arbitrary: y)
  case (Suc t)
  have "((y * y) mod MODULUS) ^ (2 ^ t) mod MODULUS = (y * y) ^ (2 ^ t) mod MODULUS"
    by (rule power_mod)
  also have "(y * y) ^ (2 ^ t) = y ^ (2 ^ Suc t)"
    by (simp add: power2_eq_square [symmetric] power_mult [symmetric])
  finally show ?case using Suc.IH [of "(y * y) mod MODULUS"] by simp
qed simp

lemma vdf_eval_loop_reduced: "0 < t \<Longrightarrow> vdf_eval_loop t y mod MODULUS = vdf_eval_loop t y"
proof (induction t arbitrary: y)
  case (Suc t)
  then show ?case by (cases t) auto
qed simp

lemma vdf_eval_loop_add: "vdf_eval_loop (s + t) y = vdf_eval_loop t (vdf_eval_loop s y)"
  by (induction s arbitrary: y) auto

section \<open>Completeness\<close>

definition vdf_claim :: "int \<Rightarrow> int \<Rightarrow> nat \<Rightarrow> bool" where
  "vdf_claim x y t \<longleftrightarrow> y mod MODULUS = x ^ (2 ^ t) mod MODULUS"

lemma fold_claim:
  fixes x y mu :: int
  assumes "y mod M = x ^ (2 ^ (2 * k)) mod M" "mu = x ^ (2 ^ k) mod M"
  shows "((mu ^ r mod M) * y) mod M = (((x ^ r mod M) * mu) mod M) ^ (2 ^ k) mod M"
proof -
  have "(((x ^ r mod M) * mu) mod M) ^ (2 ^ k) mod M = (x ^ r * x ^ (2 ^ k)) ^ (2 ^ k) mod M"
    by (simp add: assms(2) power_mod mod_mult_left_eq mod_mult_right_eq)
  also have "(x ^ r * x ^ (2 ^ k)) ^ (2 ^ k) = (x ^ (2 ^ k)) ^ r * x ^ (2 ^ (2 * k))"
  proof -
    have "(2 :: nat) ^ (2 * k) = 2 ^ k * 2 ^ k" by (simp add: mult_2 power_add)
    then show ?thesis by (simp only: power_mult_distrib power_mult [symmetric] mult.commute)
  qed
  also have "\<dots> mod M = ((mu ^ r mod M) * (y mod M)) mod M"
    by (simp add: assms power_mod mod_mult_left_eq mod_mult_right_eq)
  finally show ?thesis by (simp add: mod_mult_right_eq)
qed

lemma vdf_round_keeps_claim:
  assumes "pow_mod_ok X" "even t" "2 \<le> t" "vdf_claim x y t"
    and mu: "mu = x ^ (2 ^ (t div 2)) mod MODULUS"
  shows "\<exists>x' y'. vdf_round X x y t mu = Some (x', y') \<and> vdf_claim x' y' (half_rounds t) \<and>
           y' mod MODULUS = y'"
proof -
  let ?k = "t div 2" and ?r = "nat (hash_fs X [x, y, mu])"
  let ?x = "((x ^ ?r mod MODULUS) * mu) mod MODULUS"
  let ?y = "((mu ^ ?r mod MODULUS) * y) mod MODULUS"
  have pm: "pow_mod X b e MODULUS = Some (b ^ nat e mod MODULUS)" if "0 \<le> e" for b e
    using assms(1) that by (simp add: pow_mod_ok_def)
  have "2 * ?k = t" using assms(2) by simp
  with assms(4) have "y mod MODULUS = x ^ (2 ^ (2 * ?k)) mod MODULUS" by (simp add: vdf_claim_def)
  from fold_claim [OF this mu, of ?r] have c: "?y mod MODULUS = ?x ^ (2 ^ ?k) mod MODULUS" by simp
  show ?thesis
  proof (cases "?k mod 2 \<noteq> 0 \<and> ?k \<noteq> 1")
    case True
    have "(?y ^ 2) mod MODULUS = (?y mod MODULUS) ^ 2 mod MODULUS" by (simp add: power_mod)
    also have "\<dots> = (?x ^ (2 ^ ?k)) ^ 2 mod MODULUS" by (subst c) (rule power_mod)
    also have "(?x ^ (2 ^ ?k)) ^ 2 = ?x ^ (2 ^ Suc ?k)"
      by (simp only: power_mult [symmetric] power_Suc mult.commute)
    finally have "vdf_claim ?x (?y ^ 2 mod MODULUS) (half_rounds t)"
      using True by (simp add: vdf_claim_def half_rounds_def Let_def)
    with True show ?thesis by (auto simp: vdf_round_def Let_def pm)
  next
    case False
    then have "half_rounds t = ?k" by (auto simp: half_rounds_def Let_def)
    with c have "vdf_claim ?x ?y (half_rounds t)" by (simp add: vdf_claim_def)
    with False show ?thesis by (auto simp: vdf_round_def Let_def pm)
  qed
qed

lemma half_rounds_even:
  assumes "even t" "2 \<le> t"
  shows "half_rounds t = 1 \<or> even (half_rounds t) \<and> 2 \<le> half_rounds t"
  using assms unfolding half_rounds_def Let_def by auto

lemma vdf_prove_verify:
  assumes "pow_mod_ok X" "vdf_claim x y t" "t = 1 \<and> y mod MODULUS = y \<or> even t \<and> 2 \<le> t"
  shows "\<exists>p. vdf_prove_loop X x y t = Some p \<and> vdf_verify_loop X x y t p = Some True"
  using assms(2,3)
proof (induction t arbitrary: x y rule: less_induct)
  case (less t)
  show ?case
  proof (cases "t = 1")
    case True
    with less.prems assms(1) show ?thesis
      by (auto simp: vdf_prove_loop.simps vdf_claim_def pow_mod_ok_def)
  next
    case False
    with less.prems have t: "even t" "2 \<le> t" by auto
    let ?mu = "x ^ (2 ^ (t div 2)) mod MODULUS"
    have pm: "pow_mod X x (2 ^ (t div 2)) MODULUS = Some ?mu"
      using assms(1) by (simp add: pow_mod_ok_def nat_power_eq)
    from vdf_round_keeps_claim [OF assms(1) t less.prems(1) refl] obtain x' y' where
      r: "vdf_round X x y t ?mu = Some (x', y')" "vdf_claim x' y' (half_rounds t)"
        "y' mod MODULUS = y'" by blast
    from less.IH [OF half_rounds_less [OF t(2)] r(2)] half_rounds_even [OF t] r(3) obtain p where
      "vdf_prove_loop X x' y' (half_rounds t) = Some p"
      "vdf_verify_loop X x' y' (half_rounds t) p = Some True" by blast
    with r pm t show ?thesis by (auto simp: vdf_prove_loop.simps [of X x y t])
  qed
qed

text \<open>C7: for one iteration, and for every even number of iterations from two to the largest \<^verbatim>\<open>u32\<close>, the proof the prover
  computes for an honest evaluation is accepted; no step of either loop panics.\<close>

theorem vdf_honest_proof_accepted:
  assumes "pow_mod_ok X" "unat t = 1 \<or> even (unat t) \<and> t \<noteq> 0"
  shows "\<exists>p. vdf_prove X g (vdf_eval g t) t = Some p \<and> vdf_verify X g (vdf_eval g t) t p = Some True"
proof -
  from assms(2) have "unat t \<noteq> 0" by (auto simp: unat_eq_0)
  with assms(2) have "unat t = 1 \<and> vdf_eval g t mod MODULUS = vdf_eval g t \<or> even (unat t) \<and> 2 \<le> unat t"
    by (auto simp: vdf_eval_def vdf_eval_loop_reduced)
  moreover have "vdf_claim g (vdf_eval g t) (unat t)"
    by (simp add: vdf_claim_def vdf_eval_def vdf_eval_loop_power)
  ultimately show ?thesis
    unfolding vdf_prove_def vdf_verify_def using vdf_prove_verify [OF assms(1)] by blast
qed

theorem vdf_honest_proof_accepted_witness:
  "\<exists>p. vdf_prove reference_externs 3 (vdf_eval 3 1024) 1024 = Some p \<and>
       vdf_verify reference_externs 3 (vdf_eval 3 1024) 1024 p = Some True"
  using vdf_honest_proof_accepted [OF reference_externs_ok(2), of 1024 3] by simp

section \<open>Size of a proof\<close>

lemma half_rounds_bound:
  assumes "2 \<le> t" "t \<le> 2 ^ Suc n"
  shows "half_rounds t \<le> 2 ^ n"
proof -
  from assms(2) have le: "t div 2 \<le> 2 ^ n" by simp
  show ?thesis
  proof (cases "odd (t div 2) \<and> t div 2 \<noteq> 1")
    case True
    then have "n \<noteq> 0" using le by (cases n) auto
    then have "even ((2 :: nat) ^ n)" by simp
    with True le have "t div 2 \<noteq> 2 ^ n" by auto
    with le True show ?thesis by (simp add: half_rounds_def Let_def odd_iff_mod_2_eq_one)
  next
    case False
    with le show ?thesis by (auto simp: half_rounds_def Let_def odd_iff_mod_2_eq_one)
  qed
qed

lemma vdf_round_total:
  assumes "pow_mod_ok X"
  shows "\<exists>x' y'. vdf_round X x y t mu = Some (x', y')"
  using assms by (simp add: vdf_round_def pow_mod_ok_def Let_def)

lemma vdf_prove_loop_length:
  assumes "pow_mod_ok X"
  shows "t \<le> 2 ^ n \<Longrightarrow> \<exists>p. vdf_prove_loop X x y t = Some p \<and> length p \<le> n"
proof (induction n arbitrary: x y t)
  case 0
  then show ?case by (simp add: vdf_prove_loop.simps)
next
  case (Suc n)
  show ?case
  proof (cases "t < 2")
    case False
    let ?mu = "x ^ (2 ^ (t div 2)) mod MODULUS"
    have pm: "pow_mod X x (2 ^ (t div 2)) MODULUS = Some ?mu"
      using assms by (simp add: pow_mod_ok_def nat_power_eq)
    from vdf_round_total [OF assms] obtain x' y' where "vdf_round X x y t ?mu = Some (x', y')" by blast
    with Suc.IH [of "half_rounds t" x' y'] half_rounds_bound [of t n] Suc.prems False pm show ?thesis
      by (auto simp: vdf_prove_loop.simps [of X x y t])
  qed (simp add: vdf_prove_loop.simps)
qed

text \<open>C40: the prover always returns, without panic, and its proof has at most 32 elements, whatever the input, the claimed
  result and the number of iterations.\<close>

theorem vdf_prove_short:
  assumes "pow_mod_ok X"
  shows "\<exists>p. vdf_prove X g y t = Some p \<and> length p \<le> 32"
proof -
  have "unat t < 2 ^ LENGTH(32)" by (rule unsigned_less)
  then have "unat t \<le> 2 ^ 32" by simp
  from vdf_prove_loop_length [OF assms this] show ?thesis by (simp add: vdf_prove_def)
qed

theorem vdf_prove_short_witness:
  "\<exists>p. vdf_prove reference_externs 3 5 4294967295 = Some p \<and> length p \<le> 32"
  using vdf_prove_short [OF reference_externs_ok(2), of 3 5 4294967295] by simp

section \<open>What the check does not establish\<close>

text \<open>C25: \<^verbatim>\<open>verify\<close> never compares the number of rounds with the claimed iterations: with an empty proof
  the square of the input is accepted as the result of any number of iterations.\<close>

theorem vdf_verify_ignores_iterations:
  assumes "pow_mod_ok X"
  shows "vdf_verify X g (vdf_eval g 1) t [] = Some True"
  using assms by (simp add: vdf_verify_def vdf_eval_def pow_mod_ok_def power2_eq_square)

theorem vdf_verify_ignores_iterations_witness:
  "vdf_verify reference_externs 2 4 1000000 [] = Some True"
  using vdf_verify_ignores_iterations [OF reference_externs_ok(2), of 2 1000000]
  by (simp add: vdf_eval_def MODULUS_def)

text \<open>
  With an odd number \<open>2 * k + 1\<close> of iterations the halves do not fit together: the folded claim compares
  \<open>x ^ (2 ^ (2 * k + 1))\<close> with \<open>x ^ (2 ^ (2 * k))\<close>. For three iterations the folded claim is the one that is checked.
\<close>

lemma three_iterations_folded:
  fixes g :: int
  assumes M: "coprime g M" "1 < M" "g ^ 4 mod M \<noteq> 1" and y: "y mod M = g ^ 8 mod M"
  shows "((((g ^ 2 mod M) ^ r) mod M) * y) mod M \<noteq> (((g ^ r mod M) * (g ^ 2 mod M)) mod M) ^ 2 mod M"
proof
  assume "((((g ^ 2 mod M) ^ r) mod M) * y) mod M = (((g ^ r mod M) * (g ^ 2 mod M)) mod M) ^ 2 mod M"
  moreover have "((((g ^ 2 mod M) ^ r) mod M) * y) mod M = ((g ^ 2) ^ r * g ^ 8) mod M"
    using y by (simp add: power_mod mod_mult_left_eq) (metis mod_mult_right_eq)
  moreover have "(((g ^ r mod M) * (g ^ 2 mod M)) mod M) ^ 2 mod M = (g ^ r * g ^ 2) ^ 2 mod M"
    by (simp add: power_mod mod_mult_eq)
  ultimately have "M dvd (g ^ 2) ^ r * g ^ 8 - (g ^ r * g ^ 2) ^ 2" by (simp add: mod_eq_dvd_iff)
  moreover have "(g ^ 2) ^ r * g ^ 8 = g ^ (2 * r + 8)" "(g ^ r * g ^ 2) ^ 2 = g ^ ((r + 2) * 2)"
    by (simp_all only: power_mult [symmetric] power_add [symmetric])
  moreover have "2 * r + 8 = 2 * r + 4 + 4" "(r + 2) * 2 = 2 * r + 4" by simp_all
  ultimately have "M dvd g ^ (2 * r + 4 + 4) - g ^ (2 * r + 4)" by (simp only:)
  moreover have "g ^ (2 * r + 4 + 4) - g ^ (2 * r + 4) = g ^ (2 * r + 4) * (g ^ 4 - 1)"
    unfolding power_add [of g "2 * r + 4" 4] by (simp add: right_diff_distrib)
  moreover have "coprime M (g ^ (2 * r + 4))" using M(1) by (simp add: coprime_commute)
  ultimately have "M dvd g ^ 4 - 1" by (simp add: coprime_dvd_mult_right_iff)
  then have "g ^ 4 mod M = 1 mod M" by (simp add: mod_eq_dvd_iff)
  with M(2,3) show False by simp
qed

text \<open>C26: three iterations are not supported: for every input that is invertible and whose fourth power is not one, and
  whatever the hash functions return, the prover returns a proof of the honest evaluation and the verifier rejects it.\<close>

theorem vdf_three_iterations_rejected:
  assumes "pow_mod_ok X" "coprime g MODULUS" "g ^ 4 mod MODULUS \<noteq> 1"
  shows "\<exists>p. vdf_prove X g (vdf_eval g 3) 3 = Some p \<and> vdf_verify X g (vdf_eval g 3) 3 p = Some False"
proof -
  let ?y = "vdf_eval g 3" and ?mu = "g ^ 2 mod MODULUS"
  let ?r = "nat (hash_fs X [g, ?y, ?mu])"
  let ?x' = "((g ^ ?r mod MODULUS) * ?mu) mod MODULUS" and ?y' = "((?mu ^ ?r mod MODULUS) * ?y) mod MODULUS"
  have pm: "pow_mod X b e MODULUS = Some (b ^ nat e mod MODULUS)" if "0 \<le> e" for b e
    using assms(1) that by (simp add: pow_mod_ok_def)
  have "?y mod MODULUS = g ^ 8 mod MODULUS" by (simp add: vdf_eval_def vdf_eval_loop_power)
  moreover have "1 < MODULUS" by (simp add: MODULUS_def)
  ultimately have ne: "?y' \<noteq> ?x' ^ 2 mod MODULUS" using three_iterations_folded [OF assms(2) _ assms(3)] by blast
  have r: "vdf_round X g ?y 3 ?mu = Some (?x', ?y')" by (simp add: vdf_round_def Let_def pm)
  have "vdf_prove X g ?y 3 = Some [?mu]" by (simp add: vdf_prove_def vdf_prove_loop.simps half_rounds_def pm r)
  moreover have "vdf_verify X g ?y 3 [?mu] = Some False" using ne by (simp add: vdf_verify_def half_rounds_def r pm)
  ultimately show ?thesis by blast
qed

theorem vdf_three_iterations_rejected_witness:
  "\<exists>p. vdf_prove reference_externs 2 (vdf_eval 2 3) 3 = Some p \<and>
       vdf_verify reference_externs 2 (vdf_eval 2 3) 3 p = Some False"
  by (rule vdf_three_iterations_rejected [OF reference_externs_ok(2)]) (simp_all add: MODULUS_def)

end
