(* ===== verification/Consensus.thy ===== *)
theory Consensus
  imports Block_Db Compact_Bits Vdf
begin

text \<open>
  The consensus rules (\<^verbatim>\<open>verification/src\<close>): proof of work, the work a header has to show, the median
  timestamp, and the pre-verification and full verification of blocks. A check returns the first
  error; \<open>None\<close> is a panic. The header store is the function argument \<open>store\<close>.

  \<^verbatim>\<open>U256\<close> multiplication is a parameter, \<open>u256_mul\<close>: what the bignum crate does when the product does
  not fit 256 bits is not part of the sources.
\<close>

unbundle bit_operations_syntax

section \<open>Constants and errors\<close>

definition BLOCK_MAX_FUTURE :: u32 where "BLOCK_MAX_FUTURE = 2 * 60 * 60"
definition RETARGETING_FACTOR :: u32 where "RETARGETING_FACTOR = 4"
definition TARGET_SPACING_SECONDS :: u32 where "TARGET_SPACING_SECONDS = 10 * 60"
definition DOUBLE_SPACING_SECONDS :: u32 where "DOUBLE_SPACING_SECONDS = 2 * TARGET_SPACING_SECONDS"
definition TARGET_TIMESPAN_SECONDS :: u32 where "TARGET_TIMESPAN_SECONDS = 2 * 7 * 24 * 60 * 60"
definition MIN_TIMESPAN :: u32 where "MIN_TIMESPAN = TARGET_TIMESPAN_SECONDS div RETARGETING_FACTOR"
definition MAX_TIMESPAN :: u32 where "MAX_TIMESPAN = TARGET_TIMESPAN_SECONDS * RETARGETING_FACTOR"
definition RETARGETING_INTERVAL :: u32 where
  "RETARGETING_INTERVAL = TARGET_TIMESPAN_SECONDS div TARGET_SPACING_SECONDS"

datatype VError =
    Duplicate
  | Pow
  | VdfError
  | FuturisticTimestamp
  | Timestamp
  | Difficulty u32 u32
  | NonFinalBlock
  | OldVersionBlock
  | Database Error

datatype VerificationLevel = Full | HeaderLevel | NoVerification

section \<open>Proof of work\<close>

definition is_retarget_height :: "u32 \<Rightarrow> bool" where
  "is_retarget_height height \<longleftrightarrow> height mod RETARGETING_INTERVAL = 0"

definition range_constrain :: "int \<Rightarrow> int \<Rightarrow> int \<Rightarrow> int" where
  "range_constrain val lo hi = min (max val lo) hi"

text \<open>The hash read as a big-endian number after reversal is the hash word itself.\<close>

definition is_valid_proof_of_work_hash :: "u32 \<Rightarrow> h256 \<Rightarrow> bool" where
  "is_valid_proof_of_work_hash b h = (case to_u256 b of Inl _ \<Rightarrow> False | Inr tgt \<Rightarrow> h \<le> tgt)"

definition is_valid_proof_of_work :: "u32 \<Rightarrow> u32 \<Rightarrow> h256 \<Rightarrow> bool" where
  "is_valid_proof_of_work max_work_bits b h =
     (case to_u256 max_work_bits of
        Inl _ \<Rightarrow> False
      | Inr maximum \<Rightarrow>
          (case to_u256 b of Inl _ \<Rightarrow> False | Inr tgt \<Rightarrow> tgt \<le> maximum \<and> h \<le> tgt))"

definition retarget_timespan :: "u32 \<Rightarrow> u32 \<Rightarrow> u32" where
  "retarget_timespan retarget_timestamp last_timestamp =
     (let timespan = uint last_timestamp - uint retarget_timestamp
      in of_int (range_constrain timespan (uint MIN_TIMESPAN) (uint MAX_TIMESPAN)))"

text \<open>\<^verbatim>\<open>network.max_bits().into()\<close>.\<close>

definition network_max_bits :: "Network \<Rightarrow> u32 option" where
  "network_max_bits n = Option.bind (max_bits n) from_u256"

definition work_required_retarget ::
  "(u256 \<Rightarrow> u256 \<Rightarrow> u256 option) \<Rightarrow> IndexedBlockHeader \<Rightarrow> u32 \<Rightarrow> header_provider \<Rightarrow> u32 \<Rightarrow> u32 option" where
  "work_required_retarget u256_mul parent_header height store max_work_bits =
     do { found \<leftarrow> store (RefNumber (height - RETARGETING_INTERVAL));
          retarget_header \<leftarrow> found;
          let retarget_timestamp = time (raw retarget_header);
          let last_timestamp = time (raw parent_header);
          let last_bits = bits (raw parent_header);
          let retarget = compact_into_u256 last_bits;
          let maximum = compact_into_u256 max_work_bits;
          retarget \<leftarrow> u256_mul retarget (ucast (retarget_timespan retarget_timestamp last_timestamp));
          let retarget = retarget div ucast TARGET_TIMESPAN_SECONDS;
          if retarget > maximum then Some max_work_bits else from_u256 retarget }"

text \<open>The two loops of the testnet rule: the bits of the ancestors, and the first usable ones.\<close>

fun testnet_bits :: "nat \<Rightarrow> header_provider \<Rightarrow> BlockRef \<Rightarrow> u32 list option" where
  "testnet_bits 0 store block_ref = Some []"
| "testnet_bits (Suc n) store block_ref =
     do { previous_header \<leftarrow> store block_ref;
          case previous_header of
            None \<Rightarrow> Some []
          | Some h \<Rightarrow>
              do { bs \<leftarrow> testnet_bits n store (RefHash (previous_header_hash (raw h)));
                   Some (bits (raw h) # bs) } }"

fun testnet_select :: "u32 \<Rightarrow> u32 \<Rightarrow> nat \<Rightarrow> u32 list \<Rightarrow> u32" where
  "testnet_select maximum height index [] = maximum"
| "testnet_select maximum height index (b # bs) =
     (if b \<noteq> maximum \<or> is_retarget_height (height - of_nat index - 1) then b
      else testnet_select maximum height (Suc index) bs)"

definition work_required_testnet ::
  "h256 \<Rightarrow> u32 \<Rightarrow> u32 \<Rightarrow> header_provider \<Rightarrow> Network \<Rightarrow> u32 option" where
  "work_required_testnet parent_hash now height store network =
     (if height = 0 then None
      else do {
        let block_ref = RefHash parent_hash;
        found \<leftarrow> store block_ref;
        parent_header \<leftarrow> found;
        let max_time_gap = time (raw parent_header) + DOUBLE_SPACING_SECONDS;
        maximum \<leftarrow> network_max_bits network;
        if now > max_time_gap then Some maximum
        else do {
          bs \<leftarrow> testnet_bits (unat RETARGETING_INTERVAL) store block_ref;
          Some (testnet_select maximum height 0 bs) } })"

definition work_required ::
  "(u256 \<Rightarrow> u256 \<Rightarrow> u256 option) \<Rightarrow> h256 \<Rightarrow> u32 \<Rightarrow> u32 \<Rightarrow> header_provider \<Rightarrow> Network \<Rightarrow> u32 option" where
  "work_required u256_mul parent_hash now height store network =
     do { maximum \<leftarrow> network_max_bits network;
          if height = 0 then Some maximum
          else do {
            found \<leftarrow> store (RefHash parent_hash);
            parent_header \<leftarrow> found;
            if is_retarget_height height
            then work_required_retarget u256_mul parent_header height store maximum
            else if network = Testnet
            then work_required_testnet parent_hash now height store Testnet
            else Some (bits (raw parent_header)) } }"

fun halve_times :: "nat \<Rightarrow> u64 \<Rightarrow> u64" where
  "halve_times 0 res = res"
| "halve_times (Suc n) res = halve_times n (res div 2)"

definition block_reward_satoshi :: "u32 \<Rightarrow> u64" where
  "block_reward_satoshi block_height =
     halve_times (unat (block_height div 210000)) (50 * 100 * 1000 * 1000)"

section \<open>Median timestamp\<close>

definition median_timestamp_inclusive :: "h256 \<Rightarrow> header_provider \<Rightarrow> u32 option" where
  "median_timestamp_inclusive previous store =
     do { headers \<leftarrow> take_ancestors 11 store (Some (RefHash previous));
          let timestamps = map (\<lambda>h. time (raw h)) headers;
          if timestamps = [] then Some 0
          else Some (sort timestamps ! (length timestamps div 2)) }"

definition median_timestamp :: "BlockHeader \<Rightarrow> header_provider \<Rightarrow> u32 option" where
  "median_timestamp h store = median_timestamp_inclusive (previous_header_hash h) store"

section \<open>Pre-verification\<close>

definition check_proof_of_work :: "Network \<Rightarrow> IndexedBlockHeader \<Rightarrow> (VError + unit) option" where
  "check_proof_of_work network h =
     do { max_work_bits \<leftarrow> network_max_bits network;
          Some (if is_valid_proof_of_work max_work_bits (bits (raw h)) (hash h) then Inr () else Inl Pow) }"

definition check_timestamp :: "u32 \<Rightarrow> u32 \<Rightarrow> IndexedBlockHeader \<Rightarrow> VError + unit" where
  "check_timestamp current_time max_future h =
     (if time (raw h) > current_time + max_future then Inl FuturisticTimestamp else Inr ())"

fun and_then :: "(VError + unit) option \<Rightarrow> (VError + unit) option \<Rightarrow> (VError + unit) option" where
  "and_then None k = None"
| "and_then (Some (Inl e)) k = Some (Inl e)"
| "and_then (Some (Inr _)) k = k"

definition header_verifier_check :: "Network \<Rightarrow> u32 \<Rightarrow> IndexedBlockHeader \<Rightarrow> (VError + unit) option" where
  "header_verifier_check network current_time h =
     and_then (check_proof_of_work network h)
       (Some (check_timestamp current_time BLOCK_MAX_FUTURE h))"

definition h_g :: "externs \<Rightarrow> IndexedBlock \<Rightarrow> int" where
  "h_g X block =
     (let h = raw (header block);
          data = ser_u32 (version h) @ ser_h256 (previous_header_hash h) @ ser_u32 (time h) @
                 ser_compact (bits h) @ ser_bytes (ser_h256 (pubkey h))
      in expand_2048 X (ascii ''residue_part_'') (dhash256 X data))"

definition block_vdf_check :: "externs \<Rightarrow> IndexedBlock \<Rightarrow> (VError + unit) option" where
  "block_vdf_check X block =
     do { ok \<leftarrow> vdf_verify X (h_g X block) (randomness (raw (header block)))
                   (iterations (raw (header block))) (vdf_proof block);
          Some (if ok then Inr () else Inl VdfError) }"

definition chain_verifier_check :: "externs \<Rightarrow> Network \<Rightarrow> u32 \<Rightarrow> IndexedBlock \<Rightarrow> (VError + unit) option" where
  "chain_verifier_check X network current_time block =
     and_then (block_vdf_check X block) (header_verifier_check network current_time (header block))"

section \<open>Full verification\<close>

definition header_version_check :: "IndexedBlockHeader \<Rightarrow> u32 \<Rightarrow> Network \<Rightarrow> VError + unit" where
  "header_version_check h height network = Inr ()"

definition header_work_check ::
  "(u256 \<Rightarrow> u256 \<Rightarrow> u256 option) \<Rightarrow> header_provider \<Rightarrow> Network \<Rightarrow> IndexedBlockHeader \<Rightarrow> u32 \<Rightarrow>
   (VError + unit) option" where
  "header_work_check u256_mul store network h height =
     do { work \<leftarrow> work_required u256_mul (previous_header_hash (raw h)) (time (raw h)) height store network;
          Some (if work = bits (raw h) then Inr () else Inl (Difficulty work (bits (raw h)))) }"

definition header_median_timestamp_check ::
  "header_provider \<Rightarrow> IndexedBlockHeader \<Rightarrow> (VError + unit) option" where
  "header_median_timestamp_check store h =
     do { median \<leftarrow> median_timestamp (raw h) store;
          Some (if time (raw h) \<le> median then Inl Timestamp else Inr ()) }"

definition header_acceptor_check ::
  "(u256 \<Rightarrow> u256 \<Rightarrow> u256 option) \<Rightarrow> header_provider \<Rightarrow> Network \<Rightarrow> IndexedBlockHeader \<Rightarrow> u32 \<Rightarrow>
   (VError + unit) option" where
  "header_acceptor_check u256_mul store network h height =
     and_then (Some (header_version_check h height network))
       (and_then (header_work_check u256_mul store network h height)
         (header_median_timestamp_check store h))"

definition block_finality_check :: "IndexedBlock \<Rightarrow> u32 \<Rightarrow> header_provider \<Rightarrow> VError + unit" where
  "block_finality_check block height store = Inr ()"

definition chain_acceptor_check ::
  "(u256 \<Rightarrow> u256 \<Rightarrow> u256 option) \<Rightarrow> header_provider \<Rightarrow> Network \<Rightarrow> IndexedBlock \<Rightarrow> u32 \<Rightarrow>
   (VError + unit) option" where
  "chain_acceptor_check u256_mul store network block height =
     and_then (Some (block_finality_check block height store))
       (header_acceptor_check u256_mul store network (header block) height)"

definition best_block_consistent :: "'d kv_ops \<Rightarrow> 'd BlockChainDatabase \<Rightarrow> bool" where
  "best_block_consistent ops s \<longleftrightarrow>
     db_block_hash ops s (bb_number (best s)) = Some (Some (bb_hash (best s)))"

definition accept_on_fork ::
  "(u256 \<Rightarrow> u256 \<Rightarrow> u256 option) \<Rightarrow> 'd kv_ops \<Rightarrow> 'd BlockChainDatabase \<Rightarrow> Network \<Rightarrow> IndexedBlock \<Rightarrow>
   SideChainOrigin \<Rightarrow> (VError + unit) option" where
  "accept_on_fork u256_mul ops s network block origin =
     do { f \<leftarrow> fork ops s origin;
          case f of
            Inl e \<Rightarrow> Some (Inl (Database e))
          | Inr f \<Rightarrow>
              chain_acceptor_check u256_mul (db_block_header (overlay_ops ops) f) network block
                (origin_block_number origin) }"

definition verify_block ::
  "externs \<Rightarrow> (u256 \<Rightarrow> u256 \<Rightarrow> u256 option) \<Rightarrow> 'd kv_ops \<Rightarrow> 'd BlockChainDatabase \<Rightarrow> Network \<Rightarrow> u32 \<Rightarrow>
   VerificationLevel \<Rightarrow> IndexedBlock \<Rightarrow> (VError + unit) option" where
  "verify_block X u256_mul ops s network current_time level block =
     (if level = NoVerification then Some (Inr ())
      else and_then (chain_verifier_check X network current_time block)
        (if \<not> best_block_consistent ops s then None
         else do {
           origin \<leftarrow> block_origin ops s (header block);
           and_then
             (case origin of
                Inl e \<Rightarrow> Some (Inl (Database e))
              | Inr KnownBlock \<Rightarrow> None
              | Inr (CanonChain block_number) \<Rightarrow>
                  chain_acceptor_check u256_mul (db_block_header ops s) network block block_number
              | Inr (SideChain origin) \<Rightarrow> accept_on_fork u256_mul ops s network block origin
              | Inr (SideChainBecomingCanonChain origin) \<Rightarrow>
                  accept_on_fork u256_mul ops s network block origin)
             (if \<not> best_block_consistent ops s then None else Some (Inr ())) }))"

definition verify_block_header ::
  "Network \<Rightarrow> u32 \<Rightarrow> h256 \<Rightarrow> BlockHeader \<Rightarrow> (VError + unit) option" where
  "verify_block_header network current_time h head =
     header_verifier_check network current_time \<lparr>hash = h, raw = head\<rparr>"

section \<open>The header store of a chain\<close>

text \<open>
  What the header providers of the database and of its forks answer: any stored block by its hash,
  the blocks of the canonical chain by their number.
\<close>

definition stored_header :: "(h256 \<Rightarrow> Value option) \<Rightarrow> h256 \<Rightarrow> IndexedBlockHeader option" where
  "stored_header blocks h =
     map_option (\<lambda>b. \<lparr>hash = h, raw = block_header b\<rparr>) (Option.bind (blocks h) as_block)"

fun chain_store :: "(h256 \<Rightarrow> Value option) \<Rightarrow> h256 list \<Rightarrow> header_provider" where
  "chain_store blocks hs (RefHash h) = Some (stored_header blocks h)"
| "chain_store blocks hs (RefNumber n) =
     Some (if unat n < length hs then stored_header blocks (hs ! unat n) else None)"

context block_database
begin

lemma db_block_header_chain:
  assumes "chain_inv ops db_inv s hs"
  shows "db_block_header ops s = chain_store (blocks_view ops s) hs"
proof
  fix r
  have inv: "db_inv (bdb s)" using assms by (simp add: chain_inv_def)
  show "db_block_header ops s r = chain_store (blocks_view ops s) hs r"
  proof (cases r)
    case (RefNumber n)
    then show ?thesis
      using db_block_hash_chain [OF assms, of n] db_block_header_blocks [OF inv, of "hs ! unat n"]
      by (simp add: db_block_header_def stored_header_def)
  next
    case (RefHash h)
    then show ?thesis using db_block_header_blocks [OF inv, of h] by (simp add: stored_header_def)
  qed
qed

lemma best_block_consistent_chain:
  assumes "chain_inv ops db_inv s hs" "hs \<noteq> []"
  shows "best_block_consistent ops s"
proof -
  have "best s = best_of hs" "length hs < 2 ^ 32" using assms(1) by (simp_all add: chain_inv_def chain_view_def)
  then show ?thesis
    using assms(2) db_block_hash_chain [OF assms(1)]
    by (simp add: best_block_consistent_def best_of_def last_conv_nth)
qed

end

text \<open>A stored block of a chain, as an indexed header.\<close>

definition header_at :: "(h256 \<Rightarrow> Value option) \<Rightarrow> h256 \<Rightarrow> IndexedBlockHeader" where
  "header_at blocks h = \<lparr>hash = h, raw = block_header (the (Option.bind (blocks h) as_block))\<rparr>"

definition blocks_prev :: "(h256 \<Rightarrow> Value option) \<Rightarrow> h256 \<Rightarrow> h256 option" where
  "blocks_prev blocks h =
     map_option (\<lambda>b. previous_header_hash (block_header b)) (Option.bind (blocks h) as_block)"

lemma chain_store_hash:
  "blocks_prev blocks h = Some p \<Longrightarrow>
   chain_store blocks hs (RefHash h) = Some (Some (header_at blocks h)) \<and>
   previous_header_hash (raw (header_at blocks h)) = p"
  by (auto simp: blocks_prev_def header_at_def stored_header_def)

lemma take_ancestors_chain:
  assumes "blocks_prev blocks 0 = None"
  shows "linked (blocks_prev blocks) 0 hs \<Longrightarrow>
    take_ancestors n (chain_store blocks cs) (Some (RefHash (last (0 # hs)))) =
    Some (map (header_at blocks) (take n (rev hs)))"
proof (induction hs arbitrary: n rule: rev_induct)
  case Nil
  have "chain_store blocks cs (RefHash 0) = Some None"
    using assms by (auto simp: blocks_prev_def stored_header_def)
  then show ?case by (cases n) (simp_all add: block_ancestors_next_def)
next
  case (snoc h hs)
  then have "blocks_prev blocks h = Some (last (0 # hs))" by (simp add: linked_append)
  from chain_store_hash [OF this, of cs] show ?case
    using snoc by (cases n) (simp_all add: block_ancestors_next_def linked_append)
qed

lemma and_then_ok: "and_then a b = Some (Inr ()) \<longleftrightarrow> a = Some (Inr ()) \<and> b = Some (Inr ())"
  by (cases "(a, b)" rule: and_then.cases) auto

section \<open>What acceptance means\<close>

text \<open>The rules a block has to satisfy on top of a chain, whatever store presents the chain.\<close>

definition header_rules ::
  "(u256 \<Rightarrow> u256 \<Rightarrow> u256 option) \<Rightarrow> Network \<Rightarrow> header_provider \<Rightarrow> u32 \<Rightarrow> BlockHeader \<Rightarrow> bool" where
  "header_rules u256_mul network store height h \<longleftrightarrow>
     work_required u256_mul (previous_header_hash h) (time h) height store network = Some (bits h) \<and>
     (\<exists>m. median_timestamp h store = Some m \<and> m < time h)"

definition block_rules :: "externs \<Rightarrow> Network \<Rightarrow> u32 \<Rightarrow> IndexedBlock \<Rightarrow> bool" where
  "block_rules X network now b \<longleftrightarrow>
     vdf_verify X (h_g X b) (randomness (raw (header b))) (iterations (raw (header b))) (vdf_proof b) =
       Some True \<and>
     (\<exists>mb. network_max_bits network = Some mb \<and>
           is_valid_proof_of_work mb (bits (raw (header b))) (block_hash_of b)) \<and>
     time (raw (header b)) \<le> now + BLOCK_MAX_FUTURE"

lemma chain_acceptor_ok:
  "chain_acceptor_check u256_mul store network b height = Some (Inr ()) \<longleftrightarrow>
   header_rules u256_mul network store height (raw (header b))"
  by (auto simp: chain_acceptor_check_def header_acceptor_check_def block_finality_check_def
      header_version_check_def header_work_check_def header_median_timestamp_check_def header_rules_def
      and_then_ok split: Option.bind_splits if_splits)

lemma chain_verifier_ok:
  "chain_verifier_check X network now b = Some (Inr ()) \<longleftrightarrow> block_rules X network now b"
  by (auto simp: chain_verifier_check_def header_verifier_check_def block_vdf_check_def
      check_proof_of_work_def check_timestamp_def block_rules_def and_then_ok
      split: Option.bind_splits if_splits)

context block_database
begin

lemma accept_on_fork_ok:
  assumes "chain_inv ops db_inv s hs" "length hs + MAX_FORK_ROUTE_PRESET < 2 ^ 32"
    and i: "side_origin (prev_of (kv_view ops (bdb s))) hs (previous_header_hash (raw (header b))) i sc"
  shows "\<exists>hs'. linked (prev_of (kv_view ops (bdb s))) 0 hs' \<and>
    last hs' = previous_header_hash (raw (header b)) \<and> hs' \<noteq> [] \<and>
    (accept_on_fork u256_mul ops s network b sc = Some (Inr ()) \<longleftrightarrow>
     header_rules u256_mul network (chain_store (blocks_view ops s) hs') (of_nat (length hs'))
       (raw (header b)))"
proof -
  let ?hs = "take (Suc i) hs @ canonized_route sc"
  have lt: "i < length hs" and n: "origin_block_number sc = of_nat (length ?hs)"
    using i by (simp_all add: side_origin_def ac_simps)
  from side_fork_ok [OF assms] obtain f where
    f: "fork ops s sc = Some (Inr f)"
      "chain_inv (overlay_ops ops) (overlay_inv db_inv op_ok) f ?hs"
      "blocks_view (overlay_ops ops) f = blocks_view ops s"
      "last ?hs = previous_header_hash (raw (header b))" by blast
  have "db_block_header (overlay_ops ops) f = chain_store (blocks_view ops s) ?hs"
    using block_database.db_block_header_chain [OF overlay_block_database f(2)] f(3) by simp
  moreover have "linked (prev_of (kv_view ops (bdb s))) 0 ?hs"
    using f(2) prev_of_blocks_view [OF f(3)] by (simp add: chain_inv_def chain_view_def)
  moreover have "?hs \<noteq> []" using lt by (cases hs) simp_all
  ultimately show ?thesis using f(1,4) n by (intro exI [of _ ?hs]) (simp add: accept_on_fork_def chain_acceptor_ok)
qed

lemma verify_block_sound:
  assumes s: "chain_inv ops db_inv s hs" "hs \<noteq> []" and len: "length hs + MAX_FORK_ROUTE_PRESET < 2 ^ 32"
    and parents: "parents_stored (prev_of (kv_view ops (bdb s))) hs"
    and level: "level \<noteq> NoVerification"
    and ok: "verify_block X u256_mul ops s network now level b = Some (Inr ())"
  shows "block_rules X network now b \<and> prev_of (kv_view ops (bdb s)) (block_hash_of b) = None \<and>
    (\<exists>hs'. linked (prev_of (kv_view ops (bdb s))) 0 hs' \<and> hs' \<noteq> [] \<and>
           last hs' = previous_header_hash (raw (header b)) \<and>
           header_rules u256_mul network (chain_store (blocks_view ops s) hs') (of_nat (length hs'))
             (raw (header b)))"
proof -
  from block_origin_ok [OF s(1) len s(2) parents, of "header b"] obtain res where
    res: "block_origin ops s (header b) = Some res"
      "origin_spec (prev_of (kv_view ops (bdb s))) hs (block_hash_of b)
         (previous_header_hash (raw (header b))) res" by blast
  have rules: "block_rules X network now b"
    using ok level by (simp add: verify_block_def and_then_ok chain_verifier_ok split: if_splits)
  show ?thesis
  proof (cases res)
    case (Inl e)
    then show ?thesis using ok level res(1) by (simp add: verify_block_def and_then_ok split: if_splits)
  next
    case (Inr og)
    show ?thesis
    proof (cases og)
      case KnownBlock
      then show ?thesis using ok level res(1) Inr by (simp add: verify_block_def and_then_ok split: if_splits)
    next
      case (CanonChain n)
      have "header_rules u256_mul network (chain_store (blocks_view ops s) hs) n (raw (header b))"
        using ok level res(1) Inr CanonChain db_block_header_chain [OF s(1)]
        by (simp add: verify_block_def and_then_ok chain_acceptor_ok split: if_splits)
      moreover have "linked (prev_of (kv_view ops (bdb s))) 0 hs"
        using s(1) by (simp add: chain_inv_def chain_view_def)
      ultimately show ?thesis using res(2) rules Inr CanonChain s(2) by auto
    next
      case (SideChain sc)
      then obtain i where "side_origin (prev_of (kv_view ops (bdb s))) hs
          (previous_header_hash (raw (header b))) i sc" using res(2) Inr by auto
      from accept_on_fork_ok [OF s(1) len this, of u256_mul network]
      have "accept_on_fork u256_mul ops s network b sc = Some (Inr ()) \<Longrightarrow> ?thesis"
        using res(2) rules Inr SideChain by auto
      then show ?thesis
        using ok level res(1) Inr SideChain by (simp add: verify_block_def and_then_ok split: if_splits)
    next
      case (SideChainBecomingCanonChain sc)
      then obtain i where "side_origin (prev_of (kv_view ops (bdb s))) hs
          (previous_header_hash (raw (header b))) i sc" using res(2) Inr by auto
      from accept_on_fork_ok [OF s(1) len this, of u256_mul network]
      have "accept_on_fork u256_mul ops s network b sc = Some (Inr ()) \<Longrightarrow> ?thesis"
        using res(2) rules Inr SideChainBecomingCanonChain by auto
      then show ?thesis
        using ok level res(1) Inr SideChainBecomingCanonChain by (simp add: verify_block_def and_then_ok split: if_splits)
    qed
  qed
qed

text \<open>Conversely, a block that extends the best block and satisfies the rules is accepted.\<close>

lemma verify_block_complete:
  assumes s: "chain_inv ops db_inv s hs" "hs \<noteq> []" and len: "length hs + MAX_FORK_ROUTE_PRESET < 2 ^ 32"
    and parents: "parents_stored (prev_of (kv_view ops (bdb s))) hs"
    and new: "prev_of (kv_view ops (bdb s)) (block_hash_of b) = None"
    and parent: "previous_header_hash (raw (header b)) = last hs"
    and rules: "block_rules X network now b"
      "header_rules u256_mul network (chain_store (blocks_view ops s) hs) (of_nat (length hs))
         (raw (header b))"
  shows "verify_block X u256_mul ops s network now level b = Some (Inr ())"
proof -
  have inv: "db_inv (bdb s)" and b: "best s = best_of hs" using s(1) by (simp_all add: chain_inv_def)
  have cons: "best_block_consistent ops s" by (rule best_block_consistent_chain [OF s])
  have eqs: "bb_hash (best s) = last hs" "bb_number (best s) + 1 = of_nat (length hs)"
    using s(2) by (simp_all add: b best_of_def of_nat_diff Suc_leI)
  have "block_origin ops s (header b) = Some (Inr (CanonChain (of_nat (length hs))))"
    using cons new parent
    by (simp add: block_origin_def best_block_consistent_def contains_block_view [OF inv] eqs)
  then show ?thesis
    using rules cons db_block_header_chain [OF s(1)] chain_verifier_ok [of X network now b]
      chain_acceptor_ok [of u256_mul "chain_store (blocks_view ops s) hs" network b "of_nat (length hs)"]
    by (simp add: verify_block_def)
qed

end

section \<open>Retargeting\<close>

lemma network_max_bits_main: "network_max_bits Mainnet = Some 0x207fffff"
  by (simp add: network_max_bits_def max_bits_compact)

lemma timespan_constants: "uint MIN_TIMESPAN = 302400" "uint MAX_TIMESPAN = 4838400"
    "TARGET_TIMESPAN_SECONDS = 1209600"
  by (simp_all add: MIN_TIMESPAN_def MAX_TIMESPAN_def TARGET_TIMESPAN_SECONDS_def RETARGETING_FACTOR_def)

lemma retarget_timespan_bounds:
  "302400 \<le> unat (retarget_timespan a b)" "unat (retarget_timespan a b) \<le> 4838400"
proof -
  let ?t = "range_constrain (uint b - uint a) 302400 4838400"
  have t: "302400 \<le> ?t" "?t \<le> 4838400" by (simp_all add: range_constrain_def)
  then have "uint (of_int ?t :: u32) = ?t" by (simp add: uint_word_of_int take_bit_int_eq_self)
  then have "unat (retarget_timespan a b) = nat ?t"
    by (simp add: retarget_timespan_def timespan_constants flip: nat_uint_eq)
  with t show "302400 \<le> unat (retarget_timespan a b)" "unat (retarget_timespan a b) \<le> 4838400" by simp_all
qed

lemma from_u256_rounds: "\<exists>c t. from_u256 n = Some c \<and> to_u256 c = Inr t \<and> t \<le> n"
  using target_error [of "unat n"] u256_target [of n] by (auto simp: from_u256_eq to_u256_from_u256)

text \<open>Bits whose target does not exceed the limit of the network.\<close>

definition within_limit :: "Network \<Rightarrow> u32 \<Rightarrow> bool" where
  "within_limit network b \<longleftrightarrow>
     (\<exists>mb limit t. network_max_bits network = Some mb \<and> to_u256 mb = Inr limit \<and> to_u256 b = Inr t \<and> t \<le> limit)"

lemma valid_work_within_limit:
  "network_max_bits network = Some mb \<Longrightarrow> is_valid_proof_of_work mb b h \<Longrightarrow> within_limit network b"
  by (auto simp: is_valid_proof_of_work_def within_limit_def split: sum.splits)

lemma max_bits_within_limit:
  assumes "network_max_bits network = Some mb"
  shows "within_limit network mb"
proof -
  from assms obtain n where "from_u256 n = Some mb" by (auto simp: network_max_bits_def bind_eq_Some_conv)
  with from_u256_rounds [of n] assms show ?thesis by (auto simp: within_limit_def)
qed

lemma retarget_within_limit:
  assumes mb: "network_max_bits network = Some mb"
    and r: "work_required_retarget u256_mul parent height store mb = Some c"
  shows "within_limit network c"
proof -
  from max_bits_within_limit [OF mb] mb obtain limit where limit: "to_u256 mb = Inr limit"
    by (auto simp: within_limit_def)
  from r obtain n where n: "(if n > limit then Some mb else from_u256 n) = Some c"
    by (auto simp: work_required_retarget_def compact_into_u256_def limit Let_def bind_eq_Some_conv)
  show ?thesis
  proof (cases "n > limit")
    case True
    with n max_bits_within_limit [OF mb] show ?thesis by simp
  next
    case False
    from False n have c: "from_u256 n = Some c" by simp
    from from_u256_rounds [of n] c obtain t where "to_u256 c = Inr t" "t \<le> n" by auto
    with False mb limit show ?thesis by (force simp: within_limit_def)
  qed
qed

lemma testnet_bits_stored:
  "testnet_bits n store r = Some bs \<Longrightarrow> b \<in> set bs \<Longrightarrow> \<exists>r h. store r = Some (Some h) \<and> bits (raw h) = b"
  by (induction n store r arbitrary: bs rule: testnet_bits.induct)
    (fastforce simp: bind_eq_Some_conv split: option.splits)+

lemma testnet_select_cases: "testnet_select maximum height i bs \<in> insert maximum (set bs)"
  by (induction maximum height i bs rule: testnet_select.induct) auto

lemma work_required_cases:
  assumes "network_max_bits network = Some mb"
    and "work_required u256_mul parent now height store network = Some c"
  shows "c = mb \<or> (\<exists>h. work_required_retarget u256_mul h height store mb = Some c) \<or>
    (\<exists>h. store (RefHash parent) = Some (Some h) \<and> c = bits (raw h)) \<or>
    network = Testnet \<and> work_required_testnet parent now height store Testnet = Some c"
  using assms unfolding work_required_def by (auto simp: bind_eq_Some_conv split: if_split_asm)

lemma work_required_testnet_cases:
  assumes "network_max_bits network = Some mb"
    and "work_required_testnet parent now height store network = Some c"
  shows "c = mb \<or> (\<exists>r h. store r = Some (Some h) \<and> bits (raw h) = c)"
proof -
  from assms consider "c = mb" | n bs where "testnet_bits n store (RefHash parent) = Some bs"
      "c = testnet_select mb height 0 bs"
    unfolding work_required_testnet_def by (auto simp: bind_eq_Some_conv Let_def split: if_split_asm)
  then show ?thesis
  proof cases
    case 2
    then show ?thesis using testnet_select_cases [of mb height 0 bs] testnet_bits_stored [OF 2(1)] by blast
  qed simp
qed

text \<open>The required work of a chain within the limit is within the limit.\<close>

lemma work_required_within_limit:
  assumes stored: "\<And>r h. store r = Some (Some h) \<Longrightarrow> within_limit network (bits (raw h))"
    and w: "work_required u256_mul parent now height store network = Some c"
  shows "within_limit network c"
proof -
  from w obtain mb where mb: "network_max_bits network = Some mb"
    unfolding work_required_def by (cases "network_max_bits network") simp_all
  note limit = max_bits_within_limit [OF mb]
  from work_required_cases [OF mb w] show ?thesis
    using limit retarget_within_limit [OF mb] stored work_required_testnet_cases mb by metis
qed

text \<open>The product of the bignum crate, when it fits.\<close>

definition u256_mul_ok :: "(u256 \<Rightarrow> u256 \<Rightarrow> u256 option) \<Rightarrow> bool" where
  "u256_mul_ok u256_mul \<longleftrightarrow> (\<forall>a b. unat a * unat b < 2 ^ 256 \<longrightarrow> u256_mul a b = Some (a * b))"

lemma unat_lt_u32: "unat (t :: u32) < 2 ^ 256"
proof -
  have "unat t < 2 ^ LENGTH(32)" by (rule unsigned_less)
  then show ?thesis by simp
qed

lemma retarget_value:
  assumes "u256_mul_ok u256_mul" "unat prior * 4838400 < 2 ^ 256"
  shows "\<exists>r. u256_mul prior (ucast (retarget_timespan a b)) = Some r \<and>
    unat (r div ucast TARGET_TIMESPAN_SECONDS) \<le> 4 * unat prior"
proof -
  let ?t = "retarget_timespan a b" let ?w = "ucast ?t :: u256"
  have w: "unat ?w = unat ?t" 
    using take_bit_nat_eq_self [OF unat_lt_u32 [of ?t]] by (simp add: unsigned_ucast_eq)
  have le: "unat prior * unat ?t \<le> unat prior * 4838400"
    using retarget_timespan_bounds(2) by (intro mult_le_mono) simp_all
  have small: "unat prior * unat ?w < 2 ^ 256" unfolding w by (rule le_less_trans [OF le assms(2)])
  then have "u256_mul prior ?w = Some (prior * ?w)" using assms(1) by (simp add: u256_mul_ok_def)
  moreover have "unat (prior * ?w) = unat prior * unat ?t"
    using small by (simp add: unat_word_ariths w)
  moreover have "unat (ucast TARGET_TIMESPAN_SECONDS :: u256) = 1209600"
    by (simp add: timespan_constants)
  moreover have "unat prior * unat ?t div 1209600 \<le> 4 * unat prior" using le by linarith
  ultimately show ?thesis by (simp add: unat_div)
qed

definition wrapping_mul :: "u256 \<Rightarrow> u256 \<Rightarrow> u256 option" where
  "wrapping_mul a b = Some (a * b)"

lemma wrapping_mul_ok: "u256_mul_ok wrapping_mul"
  by (simp add: u256_mul_ok_def wrapping_mul_def)

section \<open>A sample chain with work\<close>

definition pow_header :: "h256 \<Rightarrow> u32 \<Rightarrow> BlockHeader" where
  "pow_header p t = sample_header\<lparr>previous_header_hash := p, time := t, bits := 0x207fffff\<rparr>"

definition pow_block :: "h256 \<Rightarrow> h256 \<Rightarrow> u32 \<Rightarrow> IndexedBlock" where
  "pow_block h p t = \<lparr>header = \<lparr>hash = h, raw = pow_header p t\<rparr>, vdf_proof = []\<rparr>"

lemma pow_block_simps [simp]:
  "block_hash_of (pow_block h p t) = h" "raw (header (pow_block h p t)) = pow_header p t"
  "block_header (to_raw_block (pow_block h p t)) = pow_header p t"
  "previous_header_hash (pow_header p t) = p" "time (pow_header p t) = t" "bits (pow_header p t) = 0x207fffff"
  by (simp_all add: pow_block_def pow_header_def to_raw_block_def)

definition pow_db :: "MemoryDatabase BlockChainDatabase" where
  "pow_db = the (init_test_chain [pow_block 7 0 4, pow_block 8 7 5])"

lemma pow_db_ok:
  "chain_inv memory_ops memory_inv pow_db [7, 8]"
  "blocks_view memory_ops pow_db =
     [7 \<mapsto> VBlock (to_raw_block (pow_block 7 0 4)), 8 \<mapsto> VBlock (to_raw_block (pow_block 8 7 5))]"
  using init_test_chain_ok [of "[pow_block 7 0 4, pow_block 8 7 5]"]
  by (auto simp: pow_db_def fun_eq_iff)

lemma pow_db_prev: "prev_of (kv_view memory_ops (bdb pow_db)) = [7 \<mapsto> 0, 8 \<mapsto> 7]"
  by (simp add: fun_eq_iff memory_blocks.prev_of_blocks pow_db_ok(2))

lemma pow_db_parents: "parents_stored (prev_of (kv_view memory_ops (bdb pow_db))) [7, 8]"
  unfolding pow_db_prev by (auto simp: parents_stored_def split: if_splits)

lemma pow_db_header_rules:
  assumes "previous_header_hash h = 8" "bits h = 0x207fffff" "5 < time h"
  shows "header_rules u256_mul Mainnet (chain_store (blocks_view memory_ops pow_db) [7, 8]) 2 h"
proof -
  let ?store = "chain_store (blocks_view memory_ops pow_db) [7, 8]"
  have "take_ancestors 11 ?store (Some (RefHash 8)) =
      Some [header_at (blocks_view memory_ops pow_db) 8, header_at (blocks_view memory_ops pow_db) 7]"
    using take_ancestors_chain [of "blocks_view memory_ops pow_db" "[7, 8]" 11]
    by (simp add: blocks_prev_def pow_db_ok(2))
  then have "median_timestamp h ?store = Some 5"
    by (simp add: median_timestamp_def median_timestamp_inclusive_def assms(1) header_at_def pow_db_ok(2))
  moreover have "\<not> is_retarget_height 2"
    by (simp add: is_retarget_height_def RETARGETING_INTERVAL_def TARGET_TIMESPAN_SECONDS_def
        TARGET_SPACING_SECONDS_def)
  then have "work_required u256_mul 8 (time h) 2 ?store Mainnet = Some 0x207fffff"
    by (simp add: work_required_def network_max_bits_main stored_header_def pow_db_ok(2))
  ultimately show ?thesis using assms by (simp add: header_rules_def)
qed

section \<open>Properties\<close>

text \<open>C2: a block the verifier accepts, at any level but the one that checks nothing, is not yet
  stored, has a valid delay proof, a hash below its target, a target below the limit of the
  network and a time at most two hours ahead, and extends a chain of stored blocks (the
  canonical one or a fork of it) for which its bits are the required work and its time is later
  than the median of the last eleven blocks.\<close>

theorem accepted_block_valid:
  assumes "block_database ops db_inv op_ok" "chain_inv ops db_inv s hs" "hs \<noteq> []"
    and "length hs + MAX_FORK_ROUTE_PRESET < 2 ^ 32"
    and "parents_stored (prev_of (kv_view ops (bdb s))) hs" "level \<noteq> NoVerification"
    and "verify_block X u256_mul ops s network now level b = Some (Inr ())"
  shows "block_rules X network now b \<and> prev_of (kv_view ops (bdb s)) (block_hash_of b) = None \<and>
    (\<exists>hs'. linked (prev_of (kv_view ops (bdb s))) 0 hs' \<and> hs' \<noteq> [] \<and>
           last hs' = previous_header_hash (raw (header b)) \<and>
           header_rules u256_mul network (chain_store (blocks_view ops s) hs') (of_nat (length hs'))
             (raw (header b)))"
  by (rule block_database.verify_block_sound [OF assms])

text \<open>A block whose delay proof is empty and whose output is one squaring.\<close>

definition squared_block :: IndexedBlock where
  "squared_block = \<lparr>header = \<lparr>hash = 9, raw = (pow_header 8 6)\<lparr>randomness :=
     (h_g reference_externs (pow_block 9 8 6))\<^sup>2 mod MODULUS\<rparr>\<rparr>, vdf_proof = []\<rparr>"

lemma squared_block_rules: "block_rules reference_externs Mainnet 100 squared_block"
proof -
  have g: "h_g reference_externs squared_block = h_g reference_externs (pow_block 9 8 6)"
    by (simp add: h_g_def squared_block_def pow_block_def Let_def)
  have "is_valid_proof_of_work 0x207fffff 0x207fffff 9"
    unfolding is_valid_proof_of_work_def max_bits_target by simp
  moreover have "vdf_verify reference_externs g ((g\<^sup>2) mod MODULUS) t [] = Some True" for g t
    using reference_externs_ok(2) by (simp add: vdf_verify_def pow_mod_ok_def)
  ultimately show ?thesis
    unfolding block_rules_def g
    by (simp add: squared_block_def network_max_bits_main BLOCK_MAX_FUTURE_def)
qed

theorem accepted_block_valid_witness:
  "block_rules reference_externs Mainnet 100 squared_block \<and>
   prev_of (kv_view memory_ops (bdb pow_db)) 9 = None"
proof -
  have "header_rules wrapping_mul Mainnet (chain_store (blocks_view memory_ops pow_db) [7, 8]) 2
      (raw (header squared_block))"
    by (rule pow_db_header_rules) (simp_all add: squared_block_def)
  then have "verify_block reference_externs wrapping_mul memory_ops pow_db Mainnet 100 Full squared_block =
      Some (Inr ())"
    using memory_blocks.verify_block_complete [OF pow_db_ok(1) _ _ pow_db_parents _ _ squared_block_rules]
    by (simp add: squared_block_def pow_db_prev MAX_FORK_ROUTE_PRESET_def)
  from accepted_block_valid [OF memory_blocks.block_database_axioms pow_db_ok(1) _ _ pow_db_parents _ this]
  show ?thesis by (simp add: MAX_FORK_ROUTE_PRESET_def squared_block_def)
qed

text \<open>C23: as long as the old target times the longest timespan fits 256 bits, a retarget returns and never makes the target more
  than four times larger nor larger than the limit, whatever the timestamps.\<close>

theorem retarget_bounded:
  assumes "u256_mul_ok u256_mul" "unat (compact_into_u256 (bits (raw parent))) * 4838400 < 2 ^ 256"
    and "store (RefNumber (height - RETARGETING_INTERVAL)) = Some (Some old)"
    and "to_u256 max_work_bits = Inr limit"
  shows "\<exists>c t. work_required_retarget u256_mul parent height store max_work_bits = Some c \<and>
    to_u256 c = Inr t \<and> t \<le> limit \<and> unat t \<le> 4 * unat (compact_into_u256 (bits (raw parent)))"
proof -
  let ?last = "compact_into_u256 (bits (raw parent))"
  from retarget_value [OF assms(1,2), of "time (raw old)" "time (raw parent)"] obtain r where
    r: "u256_mul ?last (ucast (retarget_timespan (time (raw old)) (time (raw parent)))) = Some r"
      "unat (r div ucast TARGET_TIMESPAN_SECONDS) \<le> 4 * unat ?last" by blast
  let ?n = "r div ucast TARGET_TIMESPAN_SECONDS"
  have limit: "compact_into_u256 max_work_bits = limit" using assms(4) by (simp add: compact_into_u256_def)
  have step: "work_required_retarget u256_mul parent height store max_work_bits =
      (if ?n > limit then Some max_work_bits else from_u256 ?n)"
    by (simp add: work_required_retarget_def assms(3) r(1) limit Let_def)
  show ?thesis
  proof (cases "?n > limit")
    case True
    then have "unat limit \<le> 4 * unat ?last" using r(2) by (simp add: word_less_nat_alt)
    with True show ?thesis using step assms(4) by simp
  next
    case False
    obtain t where t: "to_u256 (the (from_u256 ?n)) = Inr t" "from_u256 ?n \<noteq> None" "t \<le> ?n"
      using from_u256_rounds [of ?n] by auto
    have "work_required_retarget u256_mul parent height store max_work_bits = from_u256 ?n"
      using False step by simp
    moreover have "t \<le> limit" using False t(3) by simp
    moreover have "unat t \<le> 4 * unat ?last" using t(3) r(2) by (simp add: word_le_nat_alt)
    ultimately show ?thesis using t(1,2) by auto
  qed
qed

theorem retarget_bounded_witness:
  "\<exists>c t. work_required_retarget wrapping_mul \<lparr>hash = 9, raw = sample_header\<lparr>bits := 0x01120000\<rparr>\<rparr> 2016
     (\<lambda>_. Some (Some \<lparr>hash = 7, raw = sample_header\<rparr>)) 0x207fffff = Some c \<and>
     to_u256 c = Inr t \<and> unat t \<le> 72"
proof -
  have "compact_into_u256 0x01120000 = 18"
    by (simp add: compact_into_u256_def to_u256_def Let_def)
  then show ?thesis
    using retarget_bounded [OF wrapping_mul_ok _ _ max_bits_target,
        of "\<lparr>hash = 9, raw = sample_header\<lparr>bits := 0x01120000\<rparr>\<rparr>"
           "\<lambda>_. Some (Some \<lparr>hash = 7, raw = sample_header\<rparr>)" 2016 "\<lparr>hash = 7, raw = sample_header\<rparr>"]
    by auto
qed









end
