(* ===== verification/Sync_Chain.thy ===== *)
theory Sync_Chain
  imports Best_Headers Consensus
begin

text \<open>
  The block chain as synchronization sees it (\<^verbatim>\<open>sync/src/synchronization_chain.rs\<close>): the stored chain, the queues of
  the hashes that are being verified, are requested from peers, or are scheduled for requesting, the chain of known
  headers and the set of dead ends. Shown: inserting a verified block extends or reorganizes the stored chain,
  requesting keeps the order of the queue, the block locator returns and is a descending selection of the whole
  chain that ends with the genesis block, and the invariant that ties the parts together.
\<close>

definition VERIFYING_QUEUE :: nat where "VERIFYING_QUEUE = 0"
definition REQUESTED_QUEUE :: nat where "REQUESTED_QUEUE = 1"
definition SCHEDULED_QUEUE :: nat where "SCHEDULED_QUEUE = 2"
definition NUMBER_OF_QUEUES :: nat where "NUMBER_OF_QUEUES = 3"

lemmas queue_indices = VERIFYING_QUEUE_def REQUESTED_QUEUE_def SCHEDULED_QUEUE_def NUMBER_OF_QUEUES_def

datatype BlockState = UnknownState | Scheduled | Requested | Verifying | Stored | DeadEnd

record SyncInformation =
  si_scheduled :: u32
  si_requested :: u32
  si_verifying :: u32
  si_stored :: u32
  si_headers :: BestHeadersInformation

record 'd Chain =
  genesis_block_hash :: h256
  best_storage_block :: BestBlock
  chain_storage :: "'d BlockChainDatabase"
  hash_chain :: HashQueueChain
  headers_chain :: BestHeadersChain
  dead_end_blocks :: "h256 set"

definition from_queue_index :: "nat \<Rightarrow> BlockState option" where
  "from_queue_index i =
     (if i = SCHEDULED_QUEUE then Some Scheduled
      else if i = REQUESTED_QUEUE then Some Requested
      else if i = VERIFYING_QUEUE then Some Verifying else None)"

fun to_queue_index :: "BlockState \<Rightarrow> nat option" where
  "to_queue_index Scheduled = Some SCHEDULED_QUEUE"
| "to_queue_index Requested = Some REQUESTED_QUEUE"
| "to_queue_index Verifying = Some VERIFYING_QUEUE"
| "to_queue_index _ = None"

definition chain_new :: "'d kv_ops \<Rightarrow> 'd BlockChainDatabase \<Rightarrow> 'd Chain option" where
  "chain_new ops s =
     do { found \<leftarrow> db_block_hash ops s 0;
          genesis \<leftarrow> found;
          hc \<leftarrow> hqc_with_number_of_queues NUMBER_OF_QUEUES;
          Some \<lparr>genesis_block_hash = genesis, best_storage_block = best s, chain_storage = s, hash_chain = hc,
                headers_chain = bhc_new (bb_hash (best s)), dead_end_blocks = {}\<rparr> }"

section \<open>Queries\<close>

definition chain_information :: "'d Chain \<Rightarrow> SyncInformation option" where
  "chain_information c =
     do { scheduled \<leftarrow> hqc_len_of (hash_chain c) SCHEDULED_QUEUE;
          requested \<leftarrow> hqc_len_of (hash_chain c) REQUESTED_QUEUE;
          verifying \<leftarrow> hqc_len_of (hash_chain c) VERIFYING_QUEUE;
          Some \<lparr>si_scheduled = scheduled, si_requested = requested, si_verifying = verifying,
                si_stored = bb_number (best_storage_block c) + 1,
                si_headers = bhc_information (headers_chain c)\<rparr> }"

definition length_of_blocks_state :: "'d Chain \<Rightarrow> BlockState \<Rightarrow> u32 option" where
  "length_of_blocks_state c st =
     (if st = Stored then Some (bb_number (best_storage_block c) + 1)
      else do { i \<leftarrow> to_queue_index st; hqc_len_of (hash_chain c) i })"

definition best_n_of_blocks_state :: "'d Chain \<Rightarrow> BlockState \<Rightarrow> u32 \<Rightarrow> h256 list option" where
  "best_n_of_blocks_state c st n = do { i \<leftarrow> to_queue_index st; hqc_front_n_at (hash_chain c) i n }"

definition chain_best_block :: "'d Chain \<Rightarrow> BestBlock option" where
  "chain_best_block c =
     do { b \<leftarrow> hqc_back (hash_chain c);
          Some (case b of
                  Some h \<Rightarrow> \<lparr>bb_number = bb_number (best_storage_block c) + hqc_len (hash_chain c), bb_hash = h\<rparr>
                | None \<Rightarrow> best_storage_block c) }"

definition best_block_header :: "'d Chain \<Rightarrow> BestBlock option" where
  "best_block_header c =
     (let info = bhc_information (headers_chain c)
      in if bi_best info = 0 then Some (best_storage_block c)
         else do { h \<leftarrow> bhc_at (headers_chain c) (bi_best info - 1);
                   Some \<lparr>bb_number = bb_number (best_storage_block c) + bi_best info, bb_hash = hash h\<rparr> })"

definition chain_block_hash :: "'d kv_ops \<Rightarrow> 'd Chain \<Rightarrow> u32 \<Rightarrow> h256 option option" where
  "chain_block_hash ops c n =
     (if n \<le> bb_number (best_storage_block c) then db_block_hash ops (chain_storage c) n
      else Some (hqc_at (hash_chain c) (n - bb_number (best_storage_block c))))"

definition chain_block_number :: "'d kv_ops \<Rightarrow> 'd Chain \<Rightarrow> h256 \<Rightarrow> u32 option option" where
  "chain_block_number ops c h =
     do { stored \<leftarrow> db_block_number ops (chain_storage c) h;
          case stored of
            Some n \<Rightarrow> Some (Some n)
          | None \<Rightarrow> Some (map_option (\<lambda>p. bb_number (best_storage_block c) + p + 1)
                           (bhc_height (headers_chain c) h)) }"

definition block_header_by_number :: "'d kv_ops \<Rightarrow> 'd Chain \<Rightarrow> u32 \<Rightarrow> IndexedBlockHeader option option" where
  "block_header_by_number ops c n =
     (if n \<le> bb_number (best_storage_block c) then db_block_header ops (chain_storage c) (RefNumber n)
      else Some (bhc_at (headers_chain c) (n - bb_number (best_storage_block c))))"

definition block_header_by_hash :: "'d kv_ops \<Rightarrow> 'd Chain \<Rightarrow> h256 \<Rightarrow> IndexedBlockHeader option option" where
  "block_header_by_hash ops c h =
     do { stored \<leftarrow> db_block_header ops (chain_storage c) (RefHash h);
          case stored of
            Some x \<Rightarrow> Some (Some x)
          | None \<Rightarrow> Some (bhc_by_hash (headers_chain c) h) }"

fun chain_block_header :: "'d kv_ops \<Rightarrow> 'd Chain \<Rightarrow> header_provider" where
  "chain_block_header ops c (RefHash h) = block_header_by_hash ops c h"
| "chain_block_header ops c (RefNumber n) = block_header_by_number ops c n"

definition block_state :: "'d kv_ops \<Rightarrow> 'd Chain \<Rightarrow> h256 \<Rightarrow> BlockState option" where
  "block_state ops c h =
     (case hqc_contains_in (hash_chain c) h of
        Some i \<Rightarrow> from_queue_index i
      | None \<Rightarrow>
          do { stored \<leftarrow> contains_block ops (chain_storage c) (RefHash h);
               Some (if stored then Stored
                     else if h \<in> dead_end_blocks c then DeadEnd else UnknownState) })"

section \<open>Block locator\<close>

partial_function (option) locator_queue_loop ::
  "HashQueueChain \<Rightarrow> u32 \<Rightarrow> u32 \<Rightarrow> h256 list \<Rightarrow> (u32 \<times> u32 \<times> h256 list) option" where
  "locator_queue_loop hc index step hashes =
     do { h \<leftarrow> hqc_index hc index;
          let hashes = hashes @ [h];
          let step = (if length hashes \<ge> 10 then push_bit 1 step else step);
          if index < step then Some (step - index - 1, step, hashes)
          else locator_queue_loop hc (index - step) step hashes }"

definition block_locator_hashes_for_queue :: "'d Chain \<Rightarrow> (u32 \<times> u32 \<times> h256 list) option" where
  "block_locator_hashes_for_queue c =
     (let queue_len = hqc_len (hash_chain c)
      in if queue_len = 0 then Some (0, 1, [])
         else locator_queue_loop (hash_chain c) (queue_len - 1) 1 [])"

partial_function (option) locator_storage_loop ::
  "'d kv_ops \<Rightarrow> 'd Chain \<Rightarrow> u32 \<Rightarrow> u32 \<Rightarrow> h256 list \<Rightarrow> h256 list option" where
  "locator_storage_loop ops c index step hashes =
     do { found \<leftarrow> db_block_hash ops (chain_storage c) index;
          h \<leftarrow> found;
          let hashes = hashes @ [h];
          let step = (if length hashes \<ge> 10 then push_bit 1 step else step);
          if index < step
          then Some (if index \<noteq> 0 then hashes @ [genesis_block_hash c] else hashes)
          else locator_storage_loop ops c (index - step) step hashes }"

definition block_locator_hashes :: "'d kv_ops \<Rightarrow> 'd Chain \<Rightarrow> h256 list option" where
  "block_locator_hashes ops c =
     do { (local_index, step, hashes) \<leftarrow> block_locator_hashes_for_queue c;
          let storage_index = (if bb_number (best_storage_block c) < local_index then 0
                               else bb_number (best_storage_block c) - local_index);
          locator_storage_loop ops c storage_index step hashes }"

section \<open>Moving blocks through the queues\<close>

definition schedule_blocks_headers :: "'d Chain \<Rightarrow> IndexedBlockHeader list \<Rightarrow> 'd Chain option" where
  "schedule_blocks_headers c headers =
     do { hc \<leftarrow> hqc_push_back_n_at (hash_chain c) SCHEDULED_QUEUE (map hash headers);
          bh \<leftarrow> bhc_insert_n (headers_chain c) headers;
          Some (c\<lparr>hash_chain := hc, headers_chain := bh\<rparr>) }"

definition request_blocks_hashes :: "'d Chain \<Rightarrow> u32 \<Rightarrow> (h256 list \<times> 'd Chain) option" where
  "request_blocks_hashes c n =
     do { (scheduled, hc) \<leftarrow> hqc_pop_front_n_at (hash_chain c) SCHEDULED_QUEUE n;
          hc \<leftarrow> hqc_push_back_n_at hc REQUESTED_QUEUE scheduled;
          Some (scheduled, c\<lparr>hash_chain := hc\<rparr>) }"

definition chain_verify_block :: "'d Chain \<Rightarrow> IndexedBlockHeader \<Rightarrow> 'd Chain option" where
  "chain_verify_block c h =
     do { hc \<leftarrow> hqc_push_back_at (hash_chain c) VERIFYING_QUEUE (hash h);
          bh \<leftarrow> bhc_insert (headers_chain c) h;
          Some (c\<lparr>hash_chain := hc, headers_chain := bh\<rparr>) }"

fun chain_verify_blocks :: "'d Chain \<Rightarrow> IndexedBlockHeader list \<Rightarrow> 'd Chain option" where
  "chain_verify_blocks c [] = Some c"
| "chain_verify_blocks c (h # hs) = do { c \<leftarrow> chain_verify_block c h; chain_verify_blocks c hs }"

definition mark_dead_end_block :: "'d Chain \<Rightarrow> h256 \<Rightarrow> 'd Chain" where
  "mark_dead_end_block c h = c\<lparr>dead_end_blocks := insert h (dead_end_blocks c)\<rparr>"

section \<open>Inserting a block\<close>

text \<open>The bookkeeping after the storage has changed.\<close>

definition block_stored :: "'d Chain \<Rightarrow> 'd BlockChainDatabase \<Rightarrow> h256 \<Rightarrow> 'd Chain" where
  "block_stored c s h =
     c\<lparr>chain_storage := s, best_storage_block := best s,
       headers_chain := bhc_block_inserted_to_storage (headers_chain c) h (bb_hash (best s))\<rparr>"

definition insert_best_block ::
  "'d kv_ops \<Rightarrow> 'd Chain \<Rightarrow> IndexedBlock \<Rightarrow> ('d Chain \<times> (Error + h256 list)) option" where
  "insert_best_block ops c block =
     (let s = chain_storage c; h = block_hash_of block
      in if \<not> best_block_consistent ops s then None
      else do {
        origin \<leftarrow> block_origin ops s (header block);
        case origin of
          Inl e \<Rightarrow> Some (c, Inl e)
        | Inr KnownBlock \<Rightarrow> None
        | Inr (CanonChain _) \<Rightarrow> do {
            (s1, r1) \<leftarrow> db_insert ops s block;
            case r1 of
              Inl e \<Rightarrow> Some (c\<lparr>chain_storage := s1\<rparr>, Inl e)
            | Inr _ \<Rightarrow> do {
                (s2, r2) \<leftarrow> canonize ops s1 h;
                case r2 of
                  Inl e \<Rightarrow> Some (c\<lparr>chain_storage := s2\<rparr>, Inl e)
                | Inr _ \<Rightarrow> if bb_hash (best s2) \<noteq> h then None else Some (block_stored c s2 h, Inr [h]) } }
        | Inr (SideChainBecomingCanonChain sc) \<Rightarrow> do {
            f \<leftarrow> fork ops s sc;
            case f of
              Inl e \<Rightarrow> Some (c, Inl e)
            | Inr f \<Rightarrow> do {
                (f1, r1) \<leftarrow> db_insert (overlay_ops ops) f block;
                case r1 of
                  Inl e \<Rightarrow> Some (c, Inl e)
                | Inr _ \<Rightarrow> do {
                    (f2, r2) \<leftarrow> canonize (overlay_ops ops) f1 h;
                    case r2 of
                      Inl e \<Rightarrow> Some (c, Inl e)
                    | Inr _ \<Rightarrow>
                        (case switch_to_fork ops s f2 of
                           (s', Inl e) \<Rightarrow> Some (c\<lparr>chain_storage := s'\<rparr>, Inl e)
                         | (s', Inr _) \<Rightarrow> Some (block_stored c s' h, Inr (canonized_route sc @ [h]))) } } }
        | Inr (SideChain _) \<Rightarrow> do {
            (s1, r1) \<leftarrow> db_insert ops s block;
            case r1 of
              Inl e \<Rightarrow> Some (c\<lparr>chain_storage := s1\<rparr>, Inl e)
            | Inr _ \<Rightarrow>
                Some (c\<lparr>chain_storage := s1,
                        headers_chain := bhc_block_inserted_to_storage (headers_chain c) h
                                           (bb_hash (best_storage_block c))\<rparr>, Inr []) } })"

section \<open>Forgetting blocks\<close>

definition forget_block_leave_header :: "'d Chain \<Rightarrow> h256 \<Rightarrow> (HashPosition \<times> 'd Chain) option" where
  "forget_block_leave_header c h =
     do { (pos, hc) \<leftarrow> hqc_remove_at (hash_chain c) VERIFYING_QUEUE h;
          if pos \<noteq> Missing then Some (pos, c\<lparr>hash_chain := hc\<rparr>)
          else do {
            (pos, hc) \<leftarrow> hqc_remove_at hc REQUESTED_QUEUE h;
            if pos \<noteq> Missing then Some (pos, c\<lparr>hash_chain := hc\<rparr>)
            else do {
              (pos, hc) \<leftarrow> hqc_remove_at hc SCHEDULED_QUEUE h;
              Some (pos, c\<lparr>hash_chain := hc\<rparr>) } } }"

definition forget_block :: "'d Chain \<Rightarrow> h256 \<Rightarrow> (HashPosition \<times> 'd Chain) option" where
  "forget_block c h =
     do { bh \<leftarrow> bhc_remove (headers_chain c) h;
          forget_block_leave_header (c\<lparr>headers_chain := bh\<rparr>) h }"

fun forget_blocks :: "'d Chain \<Rightarrow> h256 list \<Rightarrow> 'd Chain option" where
  "forget_blocks c [] = Some c"
| "forget_blocks c (h # hs) = do { (_, c) \<leftarrow> forget_block c h; forget_blocks c hs }"

fun forget_blocks_leave_header :: "'d Chain \<Rightarrow> h256 list \<Rightarrow> 'd Chain option" where
  "forget_blocks_leave_header c [] = Some c"
| "forget_blocks_leave_header c (h # hs) =
     do { (_, c) \<leftarrow> forget_block_leave_header c h; forget_blocks_leave_header c hs }"

definition forget_block_with_state_leave_header ::
  "'d Chain \<Rightarrow> h256 \<Rightarrow> BlockState \<Rightarrow> (HashPosition \<times> 'd Chain) option" where
  "forget_block_with_state_leave_header c h st =
     do { i \<leftarrow> to_queue_index st;
          (pos, hc) \<leftarrow> hqc_remove_at (hash_chain c) i h;
          Some (pos, c\<lparr>hash_chain := hc\<rparr>) }"

text \<open>The first loop of \<^verbatim>\<open>forget_block_with_children\<close>; it may not end on a cyclic headers chain, so not returning is
  \<open>None\<close>.\<close>

partial_function (option) collect_children :: "BestHeadersChain \<Rightarrow> h256 list \<Rightarrow> h256 list \<Rightarrow> h256 list option" where
  "collect_children bh removal_queue removal_stack =
     (case removal_queue of
        [] \<Rightarrow> Some removal_stack
      | h # q \<Rightarrow> collect_children bh (q @ bhc_children bh h) (removal_stack @ [h]))"

definition forget_block_with_children :: "'d Chain \<Rightarrow> h256 \<Rightarrow> 'd Chain option" where
  "forget_block_with_children c h =
     do { removal_stack \<leftarrow> collect_children (headers_chain c) [h] [];
          forget_blocks c (rev removal_stack) }"

definition forget_all_blocks_with_state :: "'d Chain \<Rightarrow> BlockState \<Rightarrow> 'd Chain option" where
  "forget_all_blocks_with_state c st =
     do { i \<leftarrow> to_queue_index st;
          (hashes, hc) \<leftarrow> hqc_remove_all_at (hash_chain c) i;
          bh \<leftarrow> bhc_remove_n (headers_chain c) hashes;
          Some (c\<lparr>hash_chain := hc, headers_chain := bh\<rparr>) }"

section \<open>Insertion into the stored chain\<close>

definition stored_chain :: "'d kv_ops \<Rightarrow> ('d \<Rightarrow> bool) \<Rightarrow> 'd BlockChainDatabase \<Rightarrow> h256 list \<Rightarrow> bool" where
  "stored_chain ops db_inv s hs \<longleftrightarrow>
     chain_inv ops db_inv s hs \<and> hs \<noteq> [] \<and> parents_stored (prev_of (kv_view ops (bdb s))) hs"

lemma overlay_db_insert:
  "db_insert (overlay_ops ops) s b = Some (s', r) \<Longrightarrow> od_db (bdb s') = od_db (bdb s)"
  by (auto simp: db_insert_def Let_def overlay_db_write split: Option.bind_splits if_splits)

lemma best_of_hash: "hs \<noteq> [] \<Longrightarrow> bb_hash (best_of hs) = last hs"
  by (simp add: best_of_def)

text \<open>A new block with a stored parent keeps the stored blocks closed under parents, on any chain that starts with
  the same block.\<close>

lemma parents_stored_insert:
  assumes closed: "parents_stored prev hs" and l: "linked prev 0 hs" "prev 0 = None" "hs \<noteq> []"
    and parent: "prev p \<noteq> None" and hs': "hd hs \<in> set hs'"
  shows "parents_stored (prev(h \<mapsto> p)) hs'"
proof -
  note d = linked_distinct [OF l(2,1)]
  have genesis: "k = hd hs" if "prev k = Some 0" for k
  proof -
    have "k \<in> set hs" using closed that by (force simp: parents_stored_def)
    then obtain i where i: "i < length hs" "hs ! i = k" by (auto simp: in_set_conv_nth)
    then have "(0 # hs) ! i = (0 # hs) ! 0" using linked_nth [OF l(1) i(1)] that by simp
    then have "i = 0" using nth_eq_iff_index_eq [OF d, of i 0] i(1) by simp
    with i l(3) show ?thesis by (simp add: hd_conv_nth)
  qed
  have "p \<noteq> 0" using parent l(2) by auto
  with genesis hs' closed parent show ?thesis by (auto simp: parents_stored_def split: if_splits)
qed

context block_database
begin

lemma stored_chainD:
  assumes "stored_chain ops db_inv s hs"
  shows "chain_inv ops db_inv s hs" "hs \<noteq> []" "parents_stored (prev_of (kv_view ops (bdb s))) hs"
    "linked (prev_of (kv_view ops (bdb s))) 0 hs" "prev_of (kv_view ops (bdb s)) 0 = None"
    "best s = best_of hs"
  using assms by (simp_all add: stored_chain_def chain_inv_def chain_view_def)

lemma stored_chain_insert:
  assumes s: "stored_chain ops db_inv s hs"
    and s': "chain_inv ops db_inv s' hs'" "hs' \<noteq> []" "hd hs \<in> set hs'"
    and v: "blocks_view ops s' = (blocks_view ops s)(block_hash_of b := Some (VBlock (to_raw_block b)))"
    and parent: "prev_of (kv_view ops (bdb s)) (previous_header_hash (raw (header b))) \<noteq> None"
  shows "stored_chain ops db_inv s' hs'"
proof -
  have "prev_of (kv_view ops (bdb s')) =
      (prev_of (kv_view ops (bdb s)))(block_hash_of b \<mapsto> previous_header_hash (raw (header b)))"
    by (auto simp: fun_eq_iff prev_of_blocks v to_raw_block_def)
  then show ?thesis
    using parents_stored_insert [OF stored_chainD(3,4,5,2) [OF s] parent s'(3)] s'(1,2)
    by (simp add: stored_chain_def)
qed

text \<open>A block that extends the canonical chain.\<close>

lemma extend_canonical:
  assumes s: "stored_chain ops db_inv s hs" and len: "length hs + 1 < 2 ^ 32"
    and ok: "op_ok (Insert (BlockData (block_hash_of b) (to_raw_block b)))"
    and new: "prev_of (kv_view ops (bdb s)) (block_hash_of b) = None" "block_hash_of b \<noteq> 0"
    and parent: "previous_header_hash (raw (header b)) = last hs"
  shows "\<exists>s1 s2. db_insert ops s b = Some (s1, Inr ()) \<and> canonize ops s1 (block_hash_of b) = Some (s2, Inr ()) \<and>
    stored_chain ops db_inv s2 (hs @ [block_hash_of b]) \<and> bb_hash (best s2) = block_hash_of b \<and>
    blocks_view ops s2 = (blocks_view ops s)(block_hash_of b := Some (VBlock (to_raw_block b)))"
proof -
  note d = stored_chainD [OF s]
  have "previous_header_hash (raw (header b)) = bb_hash (best s)" using parent d(2,6) by (simp add: best_of_def)
  from insert_canonize_ok [OF d(1) len ok new this] obtain s1 s2 where
    s12: "db_insert ops s b = Some (s1, Inr ())" "canonize ops s1 (block_hash_of b) = Some (s2, Inr ())"
      "chain_inv ops db_inv s2 (hs @ [block_hash_of b])"
      "blocks_view ops s2 = (blocks_view ops s)(block_hash_of b := Some (VBlock (to_raw_block b)))" by blast
  have "prev_of (kv_view ops (bdb s)) (last hs) \<noteq> None" using linked_prev [OF d(4)] d(2) by simp
  then have "stored_chain ops db_inv s2 (hs @ [block_hash_of b])"
    using stored_chain_insert [OF s s12(3) _ _ s12(4)] d(2) parent by simp
  moreover have "bb_hash (best s2) = block_hash_of b" using s12(3) by (simp add: chain_inv_def best_of_def)
  ultimately show ?thesis using s12 by blast
qed

text \<open>A block that makes a side chain the longest one.\<close>

lemma reorganize:
  assumes s: "stored_chain ops db_inv s hs" and len: "length hs + MAX_FORK_ROUTE_PRESET + 1 < 2 ^ 32"
    and ok: "op_ok (Insert (BlockData (block_hash_of b) (to_raw_block b)))"
    and new: "prev_of (kv_view ops (bdb s)) (block_hash_of b) = None" "block_hash_of b \<noteq> 0"
    and i: "side_origin (prev_of (kv_view ops (bdb s))) hs (previous_header_hash (raw (header b))) i sc"
  shows "\<exists>f f1 f2 s'. fork ops s sc = Some (Inr f) \<and> db_insert (overlay_ops ops) f b = Some (f1, Inr ()) \<and>
    canonize (overlay_ops ops) f1 (block_hash_of b) = Some (f2, Inr ()) \<and> switch_to_fork ops s f2 = (s', Inr ()) \<and>
    stored_chain ops db_inv s' (take (Suc i) hs @ canonized_route sc @ [block_hash_of b]) \<and>
    blocks_view ops s' = (blocks_view ops s)(block_hash_of b := Some (VBlock (to_raw_block b)))"
proof -
  note d = stored_chainD [OF s]
  let ?hs = "take (Suc i) hs @ canonized_route sc" and ?h = "block_hash_of b"
  have lt: "i < length hs" "length (canonized_route sc) < MAX_FORK_ROUTE_PRESET"
    using i by (simp_all add: side_origin_def)
  from side_fork_ok [OF d(1) _ i] len obtain f where
    f: "fork ops s sc = Some (Inr f)" "od_db (bdb f) = bdb s"
      "chain_inv (overlay_ops ops) (overlay_inv db_inv op_ok) f ?hs"
      "blocks_view (overlay_ops ops) f = blocks_view ops s" "last ?hs = previous_header_hash (raw (header b))" by auto
  note prev = prev_of_blocks_view [OF f(4)]
  have ne: "?hs \<noteq> []" using lt(1) by (cases hs) simp_all
  have "best f = best_of ?hs" using f(3) by (simp add: chain_inv_def)
  then have "bb_hash (best f) = last ?hs" using best_of_hash [OF ne] by metis
  moreover have "length ?hs + 1 < 2 ^ 32" using len lt by simp
  ultimately obtain f1 f2 where
    f12: "db_insert (overlay_ops ops) f b = Some (f1, Inr ())" "canonize (overlay_ops ops) f1 ?h = Some (f2, Inr ())"
      "chain_inv (overlay_ops ops) (overlay_inv db_inv op_ok) f2 (?hs @ [?h])"
      "blocks_view (overlay_ops ops) f2 = (blocks_view ops s)(?h := Some (VBlock (to_raw_block b)))"
    using block_database.insert_canonize_ok [OF overlay_block_database f(3) _ ok] f(4,5) new prev by auto
  have "od_db (bdb f2) = bdb s" using overlay_canonize [OF f12(2)] overlay_db_insert [OF f12(1)] f(2) by simp
  from switch_to_fork_ok [OF f12(3) this] obtain s' where
    s': "switch_to_fork ops s f2 = (s', Inr ())" "chain_inv ops db_inv s' (?hs @ [?h])"
      "blocks_view ops s' = blocks_view (overlay_ops ops) f2" by blast
  have "linked (prev_of (kv_view ops (bdb s))) 0 ?hs"
    using f(3) prev by (simp add: chain_inv_def chain_view_def)
  then have "prev_of (kv_view ops (bdb s)) (previous_header_hash (raw (header b))) \<noteq> None"
    using linked_prev last_in_set [OF ne] f(5) by metis
  moreover have "hd hs \<in> set (?hs @ [?h])" using lt(1) by (cases hs) simp_all
  ultimately have "stored_chain ops db_inv s' (?hs @ [?h])"
    using s'(3) f12(4) by (intro stored_chain_insert [OF s s'(2)]) simp_all
  with f f12 s' show ?thesis by auto
qed

text \<open>The outcome of an insertion: an error leaves everything as it was; otherwise the block is stored, and the
  canonical chain is unchanged or is cut after a common block and continued by the reported hashes, the new block
  last, to a greater length.\<close>

lemma insert_best_block_ok:
  assumes s: "stored_chain ops db_inv (chain_storage c) hs"
    and len: "length hs + MAX_FORK_ROUTE_PRESET + 1 < 2 ^ 32" and best: "best_storage_block c = best (chain_storage c)"
    and ok: "op_ok (Insert (BlockData (block_hash_of b) (to_raw_block b)))"
    and new: "prev_of (kv_view ops (bdb (chain_storage c))) (block_hash_of b) = None" "block_hash_of b \<noteq> 0"
  shows "\<exists>c' res. insert_best_block ops c b = Some (c', res) \<and>
    (case res of
       Inl e \<Rightarrow> c' = c \<and> block_origin ops (chain_storage c) (header b) = Some (Inl e)
     | Inr added \<Rightarrow> \<exists>hs'.
         c' = c\<lparr>chain_storage := chain_storage c', best_storage_block := best (chain_storage c'),
                headers_chain := bhc_block_inserted_to_storage (headers_chain c) (block_hash_of b)
                                   (bb_hash (best (chain_storage c')))\<rparr> \<and>
         stored_chain ops db_inv (chain_storage c') hs' \<and>
         blocks_view ops (chain_storage c') =
           (blocks_view ops (chain_storage c))(block_hash_of b := Some (VBlock (to_raw_block b))) \<and>
         (added = [] \<and> hs' = hs \<and> (\<exists>sc. block_origin ops (chain_storage c) (header b) = Some (Inr (SideChain sc))) \<or>
          (\<exists>i < length hs. hs' = take (Suc i) hs @ added \<and> added \<noteq> [] \<and> last added = block_hash_of b \<and>
             length hs < length hs' \<and> length added \<le> MAX_FORK_ROUTE_PRESET)))"
proof -
  let ?s = "chain_storage c" and ?h = "block_hash_of b"
  note d = stored_chainD [OF s]
  have cons: "best_block_consistent ops ?s" by (rule best_block_consistent_chain [OF d(1,2)])
  from block_origin_ok [OF d(1) _ d(2,3), of "header b"] len obtain res where
    res: "block_origin ops ?s (header b) = Some res"
      "origin_spec (prev_of (kv_view ops (bdb ?s))) hs ?h (previous_header_hash (raw (header b))) res" by auto
  note unfolds = insert_best_block_def Let_def cons res(1)
  show ?thesis
  proof (cases res)
    case (Inl e)
    then show ?thesis using res(1) by (auto simp: unfolds)
  next
    case (Inr og)
    show ?thesis
    proof (cases og)
      case KnownBlock
      with res(2) Inr new show ?thesis by simp
    next
      case (CanonChain n)
      with res(2) Inr have p: "previous_header_hash (raw (header b)) = last hs" by simp
      from extend_canonical [OF s _ ok new p] len obtain s1 s2 where
        x: "db_insert ops ?s b = Some (s1, Inr ())" "canonize ops s1 ?h = Some (s2, Inr ())"
          "stored_chain ops db_inv s2 (hs @ [?h])" "bb_hash (best s2) = ?h"
          "blocks_view ops s2 = (blocks_view ops ?s)(?h := Some (VBlock (to_raw_block b)))" by auto
      then have "insert_best_block ops c b = Some (block_stored c s2 ?h, Inr [?h])"
        using Inr CanonChain by (simp add: unfolds)
      then show ?thesis using x d(2)
        by (auto simp: block_stored_def MAX_FORK_ROUTE_PRESET_def intro!: exI [of _ "hs @ [?h]"] exI [of _ "length hs - 1"])
    next
      case (SideChain sc)
      then obtain i where i: "side_origin (prev_of (kv_view ops (bdb ?s))) hs
          (previous_header_hash (raw (header b))) i sc" using res(2) Inr by auto
      from reorganize [OF s len ok new i] have p: "prev_of (kv_view ops (bdb ?s)) (previous_header_hash (raw (header b))) \<noteq> None"
        by (metis d(4) i last_ConsL last_ConsR last_in_set linked_prev nth_mem side_origin_def)
      from insert_ok [OF d(1) ok new] p obtain s1 where
        x: "db_insert ops ?s b = Some (s1, Inr ())" "chain_inv ops db_inv s1 hs"
          "blocks_view ops s1 = (blocks_view ops ?s)(?h := Some (VBlock (to_raw_block b)))" by auto
      have "stored_chain ops db_inv s1 hs"
        using stored_chain_insert [OF s x(2) d(2) _ x(3) p] d(2) by simp
      moreover have "best s1 = best ?s" using x(2) d(6) by (simp add: chain_inv_def)
      ultimately show ?thesis using x Inr SideChain best by (auto simp: unfolds)
    next
      case (SideChainBecomingCanonChain sc)
      then obtain i where i: "side_origin (prev_of (kv_view ops (bdb ?s))) hs
          (previous_header_hash (raw (header b))) i sc" "length hs \<le> i + length (canonized_route sc) + 1"
        using res(2) Inr by auto
      from reorganize [OF s len ok new i(1)] obtain f f1 f2 s' where
        x: "fork ops ?s sc = Some (Inr f)" "db_insert (overlay_ops ops) f b = Some (f1, Inr ())"
          "canonize (overlay_ops ops) f1 ?h = Some (f2, Inr ())" "switch_to_fork ops ?s f2 = (s', Inr ())"
          "stored_chain ops db_inv s' (take (Suc i) hs @ canonized_route sc @ [?h])"
          "blocks_view ops s' = (blocks_view ops ?s)(?h := Some (VBlock (to_raw_block b)))" by blast
      have "i < length hs" "length (canonized_route sc) < MAX_FORK_ROUTE_PRESET" using i(1) by (simp_all add: side_origin_def)
      moreover have "insert_best_block ops c b = Some (block_stored c s' ?h, Inr (canonized_route sc @ [?h]))"
        using x Inr SideChainBecomingCanonChain by (simp add: unfolds)
      ultimately show ?thesis using x i(2)
        by (auto simp: block_stored_def intro!: exI [of _ "take (Suc i) hs @ canonized_route sc @ [?h]"] exI [of _ i])
    qed
  qed
qed

end

section \<open>The block locator\<close>

text \<open>The step of the locator after a hash has been added, as a number.\<close>

definition next_step :: "nat \<Rightarrow> h256 list \<Rightarrow> nat" where
  "next_step k hashes = (if length hashes \<ge> 10 then 2 * k else k)"

lemma unat_next_step:
  fixes step :: u32
  assumes "2 * unat step < 2 ^ 32"
  shows "unat (if length hashes \<ge> 10 then push_bit 1 step else step) = next_step (unat step) hashes"
  using assms by (simp add: next_step_def push_bit_eq_mult unat_word_ariths mult.commute)

lemma next_step_bounds: "k \<le> next_step k hashes" "next_step k hashes \<le> 2 * k"
  by (simp_all add: next_step_def)

lemma locator_queue_loop_ok:
  assumes len: "length (flat hc) < 2 ^ 31"
  shows "unat index < length (flat hc) \<Longrightarrow> 0 < unat step \<Longrightarrow> unat index + 2 * unat step \<le> length (flat hc) + 1 \<Longrightarrow>
    \<exists>l st is. locator_queue_loop hc index step hashes = Some (l, st, hashes @ map ((!) (flat hc)) is) \<and>
      is \<noteq> [] \<and> hd is = unat index \<and> sorted_wrt (>) is \<and> last is < unat st \<and>
      unat l = unat st - last is - 1 \<and> last is + unat st \<le> length (flat hc) + 1"
proof (induction "unat index" arbitrary: index step hashes rule: less_induct)
  case less
  let ?i = "unat index" and ?h = "flat hc ! unat index"
  let ?step = "if length (hashes @ [?h]) \<ge> 10 then push_bit 1 step else step"
  have at: "hqc_index hc index = Some ?h" using hqc_at_flat [of hc index] len less.prems(1) by (simp add: hqc_index_at)
  have st: "unat ?step = next_step (unat step) (hashes @ [?h])"
    by (rule unat_next_step) (use less.prems(3) len in simp)
  note nb = next_step_bounds [of "unat step" "hashes @ [?h]"]
  have unfold: "locator_queue_loop hc index step hashes =
      (if index < ?step then Some (?step - index - 1, ?step, hashes @ [?h])
       else locator_queue_loop hc (index - ?step) ?step (hashes @ [?h]))"
    by (subst locator_queue_loop.simps) (simp add: at Let_def)
  show ?case
  proof (cases "index < ?step")
    case True
    then have lt: "?i < unat ?step" by (simp only: word_less_nat_alt)
    then have d: "unat (?step - index) = unat ?step - ?i" by (simp only: unat_sub word_le_nat_alt less_imp_le)
    then have "0 < ?step - index" using lt by (simp only: word_less_nat_alt unat_0)
    then have "unat (?step - index - 1) = unat ?step - ?i - 1" using unat_dec_u32 d by simp
    moreover have "?i + unat ?step \<le> length (flat hc) + 1" using less.prems(3) nb(2) unfolding st by linarith
    ultimately show ?thesis
      using True lt unfold by (intro exI [of _ "?step - index - 1"] exI [of _ ?step] exI [of _ "[?i]"]) simp
  next
    case False
    then have ge: "unat ?step \<le> ?i" by (simp only: word_less_nat_alt not_less)
    then have i': "unat (index - ?step) = ?i - unat ?step" by (simp only: unat_sub word_le_nat_alt)
    have pos: "0 < unat ?step" using nb(1) less.prems(2) unfolding st by linarith
    have "unat (index - ?step) < ?i" using i' ge pos by linarith
    moreover have "unat (index - ?step) + 2 * unat ?step \<le> length (flat hc) + 1"
      using i' ge less.prems(3) nb(2) unfolding st by linarith
    moreover have "unat (index - ?step) < length (flat hc)" using calculation(1) less.prems(1) by linarith
    ultimately obtain l st "is" where
      r: "locator_queue_loop hc (index - ?step) ?step (hashes @ [?h]) =
          Some (l, st, (hashes @ [?h]) @ map ((!) (flat hc)) is)"
        "is \<noteq> []" "hd is = unat (index - ?step)" "sorted_wrt (>) is" "last is < unat st"
        "unat l = unat st - last is - 1" "last is + unat st \<le> length (flat hc) + 1"
      using less.hyps [of "index - ?step" ?step "hashes @ [?h]"] pos by blast
    have "sorted_wrt (>) (?i # is)"
      using r(2-4) \<open>unat (index - ?step) < ?i\<close> by (cases "is") auto
    with r False unfold show ?thesis
      by (intro exI [of _ l] exI [of _ st] exI [of _ "?i # is"]) simp
  qed
qed

lemma sorted_gt_bounded:
  assumes "sorted_wrt (>) is" "i \<in> set is"
  shows "last is \<le> i" "i \<le> (hd is :: nat)"
proof -
  show "i \<le> hd is" using assms by (cases "is") auto
  from assms show "last is \<le> i" by (cases "is" rule: rev_cases) (auto simp: sorted_wrt_append)
qed

lemma map_nth_append_left:
  assumes "sorted_wrt (>) is" "is \<noteq> [] \<Longrightarrow> hd is < length xs"
  shows "map ((!) (xs @ ys)) is = map ((!) xs) is"
proof (rule map_cong [OF refl])
  fix i assume i: "i \<in> set is"
  then have "i < length xs" using sorted_gt_bounded(2) [OF assms(1) i] assms(2) by (cases "is") auto
  then show "(xs @ ys) ! i = xs ! i" by (simp add: nth_append)
qed

lemma sorted_gt_join:
  assumes "sorted_wrt (>) js" "sorted_wrt (>) is" "\<And>i. i \<in> set is \<Longrightarrow> i < (n :: nat)"
  shows "sorted_wrt (>) (map ((+) n) js @ is)"
  using assms by (force simp: sorted_wrt_append sorted_wrt_map)

context block_database
begin

lemma locator_storage_loop_ok:
  assumes s: "chain_inv ops db_inv (chain_storage c) hs" and g: "genesis_block_hash c = hs ! 0"
  shows "unat index < length hs \<Longrightarrow> 0 < unat step \<Longrightarrow> 2 * unat step < 2 ^ 32 \<Longrightarrow>
    unat index = 0 \<or> unat index + 2 * unat step \<le> 2 ^ 31 \<Longrightarrow>
    \<exists>is. locator_storage_loop ops c index step hashes = Some (hashes @ map ((!) hs) is) \<and>
      is \<noteq> [] \<and> hd is = unat index \<and> sorted_wrt (>) is \<and> last is = 0"
proof (induction "unat index" arbitrary: index step hashes rule: less_induct)
  case less
  let ?i = "unat index" and ?h = "hs ! unat index"
  let ?step = "if length (hashes @ [?h]) \<ge> 10 then push_bit 1 step else step"
  have at: "db_block_hash ops (chain_storage c) index = Some (Some ?h)"
    using db_block_hash_chain [OF s, of index] less.prems(1) by simp
  have st: "unat ?step = next_step (unat step) (hashes @ [?h])" by (rule unat_next_step [OF less.prems(3)])
  note nb = next_step_bounds [of "unat step" "hashes @ [?h]"]
  have unfold: "locator_storage_loop ops c index step hashes =
      (if index < ?step then Some (if index \<noteq> 0 then (hashes @ [?h]) @ [hs ! 0] else hashes @ [?h])
       else locator_storage_loop ops c (index - ?step) ?step (hashes @ [?h]))"
    by (subst locator_storage_loop.simps) (simp add: at g Let_def)
  show ?case
  proof (cases "index < ?step")
    case True
    show ?thesis
    proof (cases "index = 0")
      case True
      then show ?thesis using \<open>index < ?step\<close> unfold by (intro exI [of _ "[0]"]) simp
    next
      case False
      then have "0 < ?i" by (simp add: word_neq_0_conv unat_gt_0)
      then show ?thesis using \<open>index < ?step\<close> False unfold by (intro exI [of _ "[?i, 0]"]) simp
    qed
  next
    case False
    then have ge: "unat ?step \<le> ?i" by (simp only: word_less_nat_alt not_less)
    then have i': "unat (index - ?step) = ?i - unat ?step" by (simp only: unat_sub word_le_nat_alt)
    have pos: "0 < unat ?step" using nb(1) less.prems(2) unfolding st by linarith
    then have bound: "?i + 2 * unat step \<le> 2 ^ 31" using less.prems(4) ge by linarith
    have lt: "unat (index - ?step) < ?i" using i' ge pos by linarith
    moreover have "2 * unat ?step < 2 ^ 32" using ge bound less.prems(2) by simp
    moreover have "unat (index - ?step) + 2 * unat ?step \<le> 2 ^ 31" using i' ge bound nb(2) unfolding st by linarith
    moreover have "unat (index - ?step) < length hs" using lt less.prems(1) by linarith
    ultimately obtain "is" where
      r: "locator_storage_loop ops c (index - ?step) ?step (hashes @ [?h]) = Some ((hashes @ [?h]) @ map ((!) hs) is)"
        "is \<noteq> []" "hd is = unat (index - ?step)" "sorted_wrt (>) is" "last is = 0"
      using less.hyps [of "index - ?step" ?step "hashes @ [?h]"] pos by blast
    have "sorted_wrt (>) (?i # is)" using r(2-4) lt by (cases "is") auto
    with r False unfold show ?thesis by (intro exI [of _ "?i # is"]) simp
  qed
qed

text \<open>The positions of both parts together.\<close>

lemma block_locator_ok:
  assumes s: "stored_chain ops db_inv (chain_storage c) hs"
    and best: "best_storage_block c = best (chain_storage c)" and g: "genesis_block_hash c = hs ! 0"
    and len: "length (hs @ flat (hash_chain c)) < 2 ^ 31"
  shows "\<exists>is. block_locator_hashes ops c = Some (map ((!) (hs @ flat (hash_chain c))) is) \<and>
    is \<noteq> [] \<and> hd is = length (hs @ flat (hash_chain c)) - 1 \<and> sorted_wrt (>) is \<and> last is = 0"
proof -
  let ?q = "flat (hash_chain c)" and ?n = "bb_number (best_storage_block c)"
  note d = stored_chainD [OF s]
  have pos: "0 < length hs" using d(2) by simp
  have n: "unat ?n = length hs - 1" using best d(6) len by (simp add: best_of_def)
  show ?thesis
  proof (cases "?q = []")
    case True
    have "hqc_len (hash_chain c) = 0" by (simp add: hqc_len_flat True)
    moreover obtain "is" where i: "locator_storage_loop ops c ?n 1 [] = Some ([] @ map ((!) hs) is)"
        "is \<noteq> []" "hd is = length hs - 1" "sorted_wrt (>) is" "last is = 0"
    proof -
      have "unat ?n < length hs" "unat ?n + 2 * unat (1 :: u32) \<le> 2 ^ 31" using n len pos by simp_all
      with locator_storage_loop_ok [OF d(1) g, of ?n 1 "[]"] n that show thesis by auto
    qed
    ultimately show ?thesis
      using map_nth_append_left [OF i(4), of hs ?q] pos True
      by (intro exI [of _ "is"]) (simp add: block_locator_hashes_def block_locator_hashes_for_queue_def)
  next
    case False
    have ul: "unat (hqc_len (hash_chain c)) = length ?q" using len by (simp add: hqc_len_flat)
    then have ne: "hqc_len (hash_chain c) \<noteq> 0" using False by (metis length_0_conv unat_0)
    then have ul1: "unat (hqc_len (hash_chain c) - 1) = length ?q - 1"
      using ul unat_dec_u32 by (simp add: word_neq_0_conv)
    have q0: "0 < length ?q" using False by simp
    then have "unat (hqc_len (hash_chain c) - 1) < length ?q" "length ?q < 2 ^ 31" using ul1 len by simp_all
    with locator_queue_loop_ok [of "hash_chain c" "hqc_len (hash_chain c) - 1" 1 "[]"] ul1 q0 obtain l st js where
      q: "locator_queue_loop (hash_chain c) (hqc_len (hash_chain c) - 1) 1 [] = Some (l, st, map ((!) ?q) js)"
        "js \<noteq> []" "hd js = length ?q - 1" "sorted_wrt (>) js" "last js < unat st" "unat l = unat st - last js - 1"
        "last js + unat st \<le> length ?q + 1" by auto
    define j where "j = (if ?n < l then 0 else ?n - l)"
    have j: "unat j = (length hs - 1) - unat l"
      using n by (cases "?n < l") (simp_all add: j_def word_less_nat_alt unat_sub word_le_nat_alt)
    have jl: "unat j < length hs" using j pos by linarith
    obtain m where m: "length hs = Suc m" using d(2) by (cases hs) auto
    have st: "0 < unat st" "2 * unat st < 2 ^ 32" using q(5,7) len by (simp_all add: m)
    have "unat j = 0 \<or> unat j + 2 * unat st \<le> 2 ^ 31" using j q(5-7) len by (simp add: m) linarith
    with locator_storage_loop_ok [OF d(1) g jl st] obtain "is" where
      i: "locator_storage_loop ops c j st (map ((!) ?q) js) = Some (map ((!) ?q) js @ map ((!) hs) is)"
        "is \<noteq> []" "hd is = unat j" "sorted_wrt (>) is" "last is = 0" by blast
    have run: "block_locator_hashes ops c = Some (map ((!) ?q) js @ map ((!) hs) is)"
      using i(1) q(1) ne by (simp add: block_locator_hashes_def block_locator_hashes_for_queue_def Let_def j_def)
    have "\<And>x. x \<in> set is \<Longrightarrow> x < length hs" using sorted_gt_bounded(2) [OF i(4)] i(3) jl by fastforce
    note sorted = sorted_gt_join [OF q(4) i(4) this]
    have "map ((!) ?q) js @ map ((!) hs) is = map ((!) (hs @ ?q)) (map ((+) (length hs)) js @ is)"
      using map_nth_append_left [OF i(4), of hs ?q] i(3) jl by simp
    moreover have "hd (map ((+) (length hs)) js @ is) = length (hs @ ?q) - 1"
      using q(2,3) q0 by (cases ?q) (simp_all add: hd_map hd_append)
    ultimately show ?thesis
      using run sorted i(2,5) by (intro exI [of _ "map ((+) (length hs)) js @ is"]) simp
  qed
qed

end

section \<open>The queues\<close>

definition three_queues :: "HashQueueChain \<Rightarrow> HashQueue \<Rightarrow> HashQueue \<Rightarrow> HashQueue \<Rightarrow> bool" where
  "three_queues hc v r t \<longleftrightarrow>
     hc = \<lparr>queues = [v, r, t]\<rparr> \<and> hq_inv v \<and> hq_inv r \<and> hq_inv t \<and> distinct (queue v @ queue r @ queue t)"

lemma three_queues_flat: "three_queues hc v r t \<Longrightarrow> flat hc = queue v @ queue r @ queue t"
  by (simp add: three_queues_def flat_def)

lemma three_queues_get:
  assumes "three_queues hc v r t"
  shows "hqc_get hc VERIFYING_QUEUE = Some v" "hqc_get hc REQUESTED_QUEUE = Some r"
    "hqc_get hc SCHEDULED_QUEUE = Some t" "hqc_set hc VERIFYING_QUEUE q = \<lparr>queues = [q, r, t]\<rparr>"
    "hqc_set hc REQUESTED_QUEUE q = \<lparr>queues = [v, q, t]\<rparr>" "hqc_set hc SCHEDULED_QUEUE q = \<lparr>queues = [v, r, q]\<rparr>"
  using assms by (simp_all add: three_queues_def queue_indices hqc_get_def hqc_set_def numeral_2_eq_2)

lemma three_queues_contains:
  assumes "three_queues hc v r t"
  shows "hqc_contains_in hc h =
    (if h \<in> set (queue v) then Some VERIFYING_QUEUE else if h \<in> set (queue r) then Some REQUESTED_QUEUE
     else if h \<in> set (queue t) then Some SCHEDULED_QUEUE else None)"
  using assms by (simp add: three_queues_def hqc_contains_in_def queue_indices hq.contains_iff numeral_2_eq_2)

text \<open>Requesting moves the first scheduled hashes behind the requested ones; the order of the whole stays.\<close>

lemma request_blocks_hashes_ok:
  assumes q: "three_queues (hash_chain c) v r t"
  shows "\<exists>r' t'. request_blocks_hashes c n = Some (take (unat n) (queue t), c\<lparr>hash_chain := \<lparr>queues = [v, r', t']\<rparr>\<rparr>) \<and>
    three_queues \<lparr>queues = [v, r', t']\<rparr> v r' t' \<and> queue r' = queue r @ take (unat n) (queue t) \<and>
    queue r' @ queue t' = queue r @ queue t"
proof -
  have inv: "hq_inv r" "hq_inv t" "set (queue t) \<inter> set (queue r) = {}" using q by (auto simp: three_queues_def)
  from hq.requeue [OF inv(2,1,3), of "unat n"] obtain t' r' where
    x: "pop_n hq_pop_front (unat n) t = (take (unat n) (queue t), t')"
      "push_all hq_push_back r (take (unat n) (queue t)) = Some r'" "hq_inv t'" "hq_inv r'"
      "queue r' @ queue t' = queue r @ queue t" "queue r' = queue r @ take (unat n) (queue t)" by blast
  have "request_blocks_hashes c n = Some (take (unat n) (queue t), c\<lparr>hash_chain := \<lparr>queues = [v, r', t']\<rparr>\<rparr>)"
  proof -
    have "hqc_pop_front_n_at (hash_chain c) SCHEDULED_QUEUE n = Some (take (unat n) (queue t), \<lparr>queues = [v, r, t']\<rparr>)"
      by (simp add: hqc_pop_front_n_at_def three_queues_get [OF q] hq_pop_front_n_def x(1))
    moreover have "hqc_push_back_n_at \<lparr>queues = [v, r, t']\<rparr> REQUESTED_QUEUE (take (unat n) (queue t)) =
        Some \<lparr>queues = [v, r', t']\<rparr>"
      by (simp add: hqc_push_back_n_at_def hqc_get_def hqc_set_def queue_indices hq_push_back_n_def x(2))
    ultimately show ?thesis by (simp add: request_blocks_hashes_def)
  qed
  moreover have "distinct (queue v @ queue r' @ queue t')"
    unfolding x(5) using q by (simp only: three_queues_def)
  then have "three_queues \<lparr>queues = [v, r', t']\<rparr> v r' t'" using q x(3,4) by (simp only: three_queues_def)
  ultimately show ?thesis using x(5,6) by blast
qed

lemma schedule_queue_ok:
  assumes q: "three_queues hc v r t" and new: "distinct ks" "set ks \<inter> set (flat hc) = {}"
  shows "\<exists>t'. hqc_push_back_n_at hc SCHEDULED_QUEUE ks = Some \<lparr>queues = [v, r, t']\<rparr> \<and>
    three_queues \<lparr>queues = [v, r, t']\<rparr> v r t' \<and> queue t' = queue t @ ks"
proof -
  have inv: "hq_inv t" "set ks \<inter> set (queue t) = {}" using q new(2) by (auto simp: three_queues_def flat_def)
  from hq.push_all_new [OF inv(1) new(1) inv(2)] obtain t' where
    t': "push_all hq_push_back t ks = Some t'" "hq_inv t'" "queue t' = queue t @ ks" by blast
  have "hqc_push_back_n_at hc SCHEDULED_QUEUE ks = Some \<lparr>queues = [v, r, t']\<rparr>"
    by (simp add: hqc_push_back_n_at_def three_queues_get [OF q] hq_push_back_n_def t'(1))
  moreover have "three_queues \<lparr>queues = [v, r, t']\<rparr> v r t'"
    using q new t'(2,3) by (auto simp: three_queues_def flat_def)
  ultimately show ?thesis using t'(3) by blast
qed

lemma verifying_queue_ok:
  assumes q: "three_queues hc v r t" and new: "k \<notin> set (flat hc)"
  shows "\<exists>v'. hqc_push_back_at hc VERIFYING_QUEUE k = Some \<lparr>queues = [v', r, t]\<rparr> \<and>
    three_queues \<lparr>queues = [v', r, t]\<rparr> v' r t \<and> queue v' = queue v @ [k]"
proof -
  have inv: "hq_inv v" "k \<notin> set (queue v)" using q new by (auto simp: three_queues_def flat_def)
  from hq.push_new [OF inv] obtain v' where
    v': "hq_push_back v k = Some v'" "hq_inv v'" "queue v' = queue v @ [k]" by blast
  have "hqc_push_back_at hc VERIFYING_QUEUE k = Some \<lparr>queues = [v', r, t]\<rparr>"
    by (simp add: hqc_push_back_at_def three_queues_get [OF q] v'(1))
  moreover have "three_queues \<lparr>queues = [v', r, t]\<rparr> v' r t"
    using q new v'(2,3) by (auto simp: three_queues_def flat_def)
  ultimately show ?thesis using v'(3) by blast
qed

text \<open>Removal from one of the queues.\<close>

lemma three_queues_shrink:
  assumes "three_queues hc v r t" "hq_inv v'" "hq_inv r'" "hq_inv t'"
    and "set (queue v') \<subseteq> set (queue v)" "set (queue r') \<subseteq> set (queue r)" "set (queue t') \<subseteq> set (queue t)"
  shows "three_queues \<lparr>queues = [v', r', t']\<rparr> v' r' t'"
  using assms hq.inv_distinct [OF assms(2)] hq.inv_distinct [OF assms(3)] hq.inv_distinct [OF assms(4)]
  by (auto simp: three_queues_def)

lemma remove_at_ok:
  assumes q: "three_queues hc v r t"
  shows "\<exists>v'. hqc_remove_at hc VERIFYING_QUEUE k = Some (position_in k (queue v), \<lparr>queues = [v', r, t]\<rparr>) \<and>
      three_queues \<lparr>queues = [v', r, t]\<rparr> v' r t \<and> queue v' = remove1 k (queue v)"
    "\<exists>r'. hqc_remove_at hc REQUESTED_QUEUE k = Some (position_in k (queue r), \<lparr>queues = [v, r', t]\<rparr>) \<and>
      three_queues \<lparr>queues = [v, r', t]\<rparr> v r' t \<and> queue r' = remove1 k (queue r)"
    "\<exists>t'. hqc_remove_at hc SCHEDULED_QUEUE k = Some (position_in k (queue t), \<lparr>queues = [v, r, t']\<rparr>) \<and>
      three_queues \<lparr>queues = [v, r, t']\<rparr> v r t' \<and> queue t' = remove1 k (queue t)"
proof -
  have inv: "hq_inv v" "hq_inv r" "hq_inv t" using q by (simp_all add: three_queues_def)
  have sub: "set (remove1 k xs) \<subseteq> set xs" for xs by (rule set_remove1_subset)
  from hq_remove_spec [OF inv(1), of k] sub three_queues_shrink [OF q _ inv(2,3)]
  show "\<exists>v'. hqc_remove_at hc VERIFYING_QUEUE k = Some (position_in k (queue v), \<lparr>queues = [v', r, t]\<rparr>) \<and>
      three_queues \<lparr>queues = [v', r, t]\<rparr> v' r t \<and> queue v' = remove1 k (queue v)"
    by (auto simp: hqc_remove_at_def three_queues_get [OF q])
  from hq_remove_spec [OF inv(2), of k] sub three_queues_shrink [OF q inv(1) _ inv(3)]
  show "\<exists>r'. hqc_remove_at hc REQUESTED_QUEUE k = Some (position_in k (queue r), \<lparr>queues = [v, r', t]\<rparr>) \<and>
      three_queues \<lparr>queues = [v, r', t]\<rparr> v r' t \<and> queue r' = remove1 k (queue r)"
    by (auto simp: hqc_remove_at_def three_queues_get [OF q])
  from hq_remove_spec [OF inv(3), of k] sub three_queues_shrink [OF q inv(1,2)]
  show "\<exists>t'. hqc_remove_at hc SCHEDULED_QUEUE k = Some (position_in k (queue t), \<lparr>queues = [v, r, t']\<rparr>) \<and>
      three_queues \<lparr>queues = [v, r, t']\<rparr> v r t' \<and> queue t' = remove1 k (queue t)"
    by (auto simp: hqc_remove_at_def three_queues_get [OF q])
qed

lemma position_in_Missing [simp]: "position_in k xs = Missing \<longleftrightarrow> k \<notin> set xs"
  by (cases "find_pos k xs") (auto simp: position_in_def dest: find_pos_Some)

lemma forget_block_leave_header_ok:
  assumes q: "three_queues (hash_chain c) v r t"
  shows "\<exists>pos hc v' r' t'. forget_block_leave_header c k = Some (pos, c\<lparr>hash_chain := hc\<rparr>) \<and>
    three_queues hc v' r' t' \<and> set (flat hc) = set (flat (hash_chain c)) - {k} \<and> set (queue v') = set (queue v) - {k} \<and>
    (pos = Missing \<longleftrightarrow> k \<notin> set (flat (hash_chain c))) \<and>
    queue v' = removeAll k (queue v) \<and> queue r' = removeAll k (queue r) \<and> queue t' = removeAll k (queue t)"
proof -
  let ?hc = "hash_chain c"
  from remove_at_ok(1) [OF q, of k] obtain v1 where
    1: "hqc_remove_at ?hc VERIFYING_QUEUE k = Some (position_in k (queue v), \<lparr>queues = [v1, r, t]\<rparr>)"
      "three_queues \<lparr>queues = [v1, r, t]\<rparr> v1 r t" "queue v1 = remove1 k (queue v)" by blast
  from remove_at_ok(2) [OF 1(2), of k] obtain r1 where
    2: "hqc_remove_at \<lparr>queues = [v1, r, t]\<rparr> REQUESTED_QUEUE k = Some (position_in k (queue r), \<lparr>queues = [v1, r1, t]\<rparr>)"
      "three_queues \<lparr>queues = [v1, r1, t]\<rparr> v1 r1 t" "queue r1 = remove1 k (queue r)" by blast
  from remove_at_ok(3) [OF 2(2), of k] obtain t1 where
    3: "hqc_remove_at \<lparr>queues = [v1, r1, t]\<rparr> SCHEDULED_QUEUE k = Some (position_in k (queue t), \<lparr>queues = [v1, r1, t1]\<rparr>)"
      "three_queues \<lparr>queues = [v1, r1, t1]\<rparr> v1 r1 t1" "queue t1 = remove1 k (queue t)" by blast
  note fl = three_queues_flat [OF q] three_queues_flat [OF 1(2)] three_queues_flat [OF 2(2)] three_queues_flat [OF 3(2)]
  have d: "distinct (queue v)" "distinct (queue r)" "distinct (queue t)"
    "set (queue v) \<inter> (set (queue r) \<union> set (queue t)) = {}" "set (queue r) \<inter> set (queue t) = {}"
    using q by (simp_all add: three_queues_def)
  note defs = forget_block_leave_header_def 1(1) 2(1) 3(1)
  consider "k \<in> set (queue v)" | "k \<notin> set (queue v)" "k \<in> set (queue r)"
    | "k \<notin> set (queue v)" "k \<notin> set (queue r)" by blast
  then show ?thesis
  proof cases
    case a: 1
    then have "queue v1 = removeAll k (queue v)" "k \<notin> set (queue r)" "k \<notin> set (queue t)"
      using d 1(3) by (auto simp: distinct_remove1_removeAll)
    then show ?thesis using a fl(1,2) 1(2)
      by (intro exI [of _ "position_in k (queue v)"] exI [of _ "\<lparr>queues = [v1, r, t]\<rparr>"] exI [of _ v1] exI [of _ r] exI [of _ t])
        (auto simp: defs)
  next
    case a: 2
    then have "queue v1 = queue v" "queue r1 = removeAll k (queue r)" "k \<notin> set (queue t)"
      using d 1(3) 2(3) by (auto simp: remove1_idem distinct_remove1_removeAll)
    then show ?thesis using a fl(1,3) 2(2)
      by (intro exI [of _ "position_in k (queue r)"] exI [of _ "\<lparr>queues = [v1, r1, t]\<rparr>"] exI [of _ v1] exI [of _ r1] exI [of _ t])
        (auto simp: defs)
  next
    case a: 3
    then have "queue v1 = queue v" "queue r1 = queue r" "queue t1 = removeAll k (queue t)"
      using d 1(3) 2(3) 3(3) by (simp_all add: remove1_idem distinct_remove1_removeAll)
    then show ?thesis using a fl(1,4) 3(2)
      by (intro exI [of _ "position_in k (queue t)"] exI [of _ "\<lparr>queues = [v1, r1, t1]\<rparr>"] exI [of _ v1] exI [of _ r1] exI [of _ t1])
        (auto simp: defs)
  qed
qed

text \<open>Forgetting cuts the headers chain before the first forgotten header and drops the hashes from the queues.\<close>

definition verifying_in :: "'d Chain \<Rightarrow> h256 set" where
  "verifying_in c = set (queue (queues (hash_chain c) ! VERIFYING_QUEUE))"

lemma three_queues_verifying: "three_queues (hash_chain c) v r t \<Longrightarrow> verifying_in c = set (queue v)"
  by (simp add: verifying_in_def three_queues_def VERIFYING_QUEUE_def)

definition forgets :: "'d Chain \<Rightarrow> IndexedBlockHeader list \<Rightarrow> h256 set \<Rightarrow> 'd Chain \<Rightarrow> bool" where
  "forgets c ns K c' \<longleftrightarrow>
     (\<exists>v r t. three_queues (hash_chain c') v r t) \<and> set (flat (hash_chain c')) = set (flat (hash_chain c)) - K \<and>
     verifying_in c' = verifying_in c - K \<and> bhc_rel (headers_chain c') (takeWhile (\<lambda>h. hash h \<notin> K) ns) \<and>
     storage_best_hash (headers_chain c') = storage_best_hash (headers_chain c) \<and>
     chain_storage c' = chain_storage c \<and> best_storage_block c' = best_storage_block c \<and>
     genesis_block_hash c' = genesis_block_hash c \<and> dead_end_blocks c' = dead_end_blocks c"

lemma forget_block_ok:
  assumes q: "three_queues (hash_chain c) v r t" and n: "bhc_rel (headers_chain c) ns"
  shows "\<exists>pos c'. forget_block c k = Some (pos, c') \<and> forgets c ns {k} c'"
proof -
  from bhc_remove_ok [OF n, of k] obtain bh where
    bh: "bhc_remove (headers_chain c) k = Some bh" "storage_best_hash bh = storage_best_hash (headers_chain c)"
      "bhc_rel bh (takeWhile (\<lambda>h. hash h \<noteq> k) ns)" by blast
  have "three_queues (hash_chain (c\<lparr>headers_chain := bh\<rparr>)) v r t" using q by simp
  from forget_block_leave_header_ok [OF this, of k] obtain pos hc v' r' t' where
    x: "forget_block_leave_header (c\<lparr>headers_chain := bh\<rparr>) k =
        Some (pos, c\<lparr>headers_chain := bh, hash_chain := hc\<rparr>)" "three_queues hc v' r' t'"
      "set (flat hc) = set (flat (hash_chain (c\<lparr>headers_chain := bh\<rparr>))) - {k}" "set (queue v') = set (queue v) - {k}" by (elim exE conjE) (rule that)
  have "verifying_in (c\<lparr>headers_chain := bh, hash_chain := hc\<rparr>) = verifying_in c - {k}"
    using three_queues_verifying [OF q] three_queues_verifying [of "c\<lparr>headers_chain := bh, hash_chain := hc\<rparr>" v' r' t'] x(2,4) by simp
  then have "forgets c ns {k} (c\<lparr>headers_chain := bh, hash_chain := hc\<rparr>)"
    unfolding forgets_def using bh x by auto
  with bh(1) x(1) show ?thesis by (auto simp: forget_block_def)
qed

lemma takeWhile_True: "takeWhile (\<lambda>_. True) xs = xs"
  by (induction xs) simp_all

lemma takeWhile_takeWhile_notin:
  "takeWhile (\<lambda>x. f x \<notin> B) (takeWhile (\<lambda>x. f x \<notin> A) xs) = takeWhile (\<lambda>x. f x \<notin> A \<union> B) xs"
  by (induction xs) auto

lemma forgets_trans:
  assumes "forgets c ns K c1" "forgets c1 (takeWhile (\<lambda>h. hash h \<notin> K) ns) L c2"
  shows "forgets c ns (K \<union> L) c2"
  using assms unfolding forgets_def takeWhile_takeWhile_notin by (auto simp: Diff_Un)

lemma forget_blocks_ok:
  "three_queues (hash_chain c) v r t \<Longrightarrow> bhc_rel (headers_chain c) ns \<Longrightarrow>
   \<exists>c'. forget_blocks c ks = Some c' \<and> forgets c ns (set ks) c'"
proof (induction ks arbitrary: c v r t ns)
  case Nil
  then show ?case unfolding forgets_def by (auto simp: takeWhile_True)
next
  case (Cons k ks)
  from forget_block_ok [OF Cons.prems] obtain pos c1 where
    c1: "forget_block c k = Some (pos, c1)" "forgets c ns {k} c1" by blast
  then obtain v1 r1 t1 where "three_queues (hash_chain c1) v1 r1 t1"
    "bhc_rel (headers_chain c1) (takeWhile (\<lambda>h. hash h \<notin> {k}) ns)" by (auto simp: forgets_def)
  from Cons.IH [OF this] obtain c2 where
    "forget_blocks c1 ks = Some c2" "forgets c1 (takeWhile (\<lambda>h. hash h \<notin> {k}) ns) (set ks) c2" by blast
  with c1 forgets_trans [OF c1(2)] show ?case by auto
qed

lemma collect_children_ok:
  assumes n: "bhc_rel bh ns"
  shows "i < length ns \<Longrightarrow> collect_children bh [hash (ns ! i)] acc = Some (acc @ map hash (drop i ns))"
proof (induction "length ns - i" arbitrary: i acc rule: less_induct)
  case less
  let ?k = "hash (ns ! i)"
  have f: "find_pos ?k (map hash ns) = Some i"
    using find_pos_nth [OF bhc_rel_distinct [OF n], of i] less.prems by simp
  have step: "collect_children bh [?k] acc = collect_children bh (bhc_children bh ?k) (acc @ [?k])"
    by (subst collect_children.simps) simp
  have split: "drop i ns = ns ! i # drop (Suc i) ns" using less.prems by (rule Cons_nth_drop_Suc [symmetric])
  show ?case
  proof (cases "Suc i < length ns")
    case True
    then have "bhc_children bh ?k = [hash (ns ! Suc i)]" using bhc_children_ok [OF n, of ?k] f by simp
    then show ?thesis using less.hyps [of "Suc i" "acc @ [?k]"] True step split by simp
  next
    case False
    then have "bhc_children bh ?k = []" using bhc_children_ok [OF n, of ?k] f by simp
    moreover have "drop (Suc i) ns = []" using False by simp
    ultimately show ?thesis using step split by (simp add: collect_children.simps [of bh "[]"])
  qed
qed

lemma collect_children_found:
  assumes n: "bhc_rel bh ns"
  shows "\<exists>ks. collect_children bh [k] [] = Some ks \<and> set ks = insert k (hash ` set (dropWhile (\<lambda>h. hash h \<noteq> k) ns))"
proof (cases "find_pos k (map hash ns)")
  case None
  then have c: "bhc_children bh k = []" and d: "dropWhile (\<lambda>h. hash h \<noteq> k) ns = []"
    using bhc_children_ok [OF n, of k] by auto
  show ?thesis unfolding d by (simp add: c collect_children.simps [of bh "[k]"] collect_children.simps [of bh "[]"])
next
  case (Some i)
  then have i: "i < length ns" "hash (ns ! i) = k" using find_pos_Some [OF Some] by auto
  have "dropWhile (\<lambda>h. hash h \<noteq> k) ns = drop i ns"
    using takeWhile_find_pos [OF Some] i(1) by (simp add: dropWhile_eq_drop)
  moreover have "k \<in> hash ` set (drop i ns)" using i by (metis Cons_nth_drop_Suc image_eqI list.set_intros(1))
  ultimately show ?thesis using collect_children_ok [OF n i(1), of "[]"] i(2) by (auto simp: insert_absorb)
qed

lemma takeWhile_cut:
  assumes "distinct (map f xs)"
  shows "takeWhile (\<lambda>x. f x \<notin> insert k (f ` set (dropWhile (\<lambda>x. f x \<noteq> k) xs))) xs = takeWhile (\<lambda>x. f x \<noteq> k) xs"
  using assms
proof (induction xs)
  case (Cons x xs)
  show ?case
  proof (cases "f x = k")
    case False
    have "f x \<notin> f ` set (dropWhile (\<lambda>x. f x \<noteq> k) xs)" using Cons.prems by (auto dest: set_dropWhileD)
    with False Cons show ?thesis by simp
  qed simp
qed simp

lemma forget_block_with_children_ok:
  assumes q: "three_queues (hash_chain c) v r t" and n: "bhc_rel (headers_chain c) ns"
  shows "\<exists>c'. forget_block_with_children c k = Some c' \<and>
    forgets c ns (insert k (hash ` set (dropWhile (\<lambda>h. hash h \<noteq> k) ns))) c'"
proof -
  from collect_children_found [OF n, of k] obtain ks where
    ks: "collect_children (headers_chain c) [k] [] = Some ks"
      "set ks = insert k (hash ` set (dropWhile (\<lambda>h. hash h \<noteq> k) ns))" by blast
  from forget_blocks_ok [OF q n, of "rev ks"] show ?thesis by (simp add: forget_block_with_children_def ks)
qed

section \<open>The invariant of the synchronized chain\<close>

definition sync_inv ::
  "'d kv_ops \<Rightarrow> ('d \<Rightarrow> bool) \<Rightarrow> 'd Chain \<Rightarrow> h256 list \<Rightarrow> IndexedBlockHeader list \<Rightarrow> bool" where
  "sync_inv ops db_inv c hs ns \<longleftrightarrow>
     stored_chain ops db_inv (chain_storage c) hs \<and> best_storage_block c = best (chain_storage c) \<and>
     genesis_block_hash c = hs ! 0 \<and> (\<exists>v r t. three_queues (hash_chain c) v r t) \<and>
     bhc_rel (headers_chain c) ns \<and> storage_best_hash (headers_chain c) = last hs"

lemma sync_inv_forgets:
  "sync_inv ops db_inv c hs ns \<Longrightarrow> forgets c ns K c' \<Longrightarrow> sync_inv ops db_inv c' hs (takeWhile (\<lambda>h. hash h \<notin> K) ns)"
  by (auto simp: sync_inv_def forgets_def)

lemma bhc_insert_any:
  assumes "bhc_rel c ns" "bhc_insert c h = Some c'" "Suc (length ns) < 2 ^ 32"
  shows "\<exists>ns'. bhc_rel c' ns' \<and> storage_best_hash c' = storage_best_hash c \<and> length ns' \<le> Suc (length ns)"
proof (cases "hash h \<in> hash ` set ns")
  case True
  with assms(2) bhc_insert_panics [OF assms(1), of h] have "c' = c" by (auto simp: bhc_insert_def split: if_splits)
  with assms(1) show ?thesis by auto
next
  case False
  from bhc_insert_ok [OF assms(1) False assms(3)] assms(2) show ?thesis by (auto split: if_splits)
qed

lemma bhc_insert_n_any:
  "bhc_rel c ns \<Longrightarrow> bhc_insert_n c hs = Some c' \<Longrightarrow> length ns + length hs < 2 ^ 32 \<Longrightarrow>
   \<exists>ns'. bhc_rel c' ns' \<and> storage_best_hash c' = storage_best_hash c"
proof (induction hs arbitrary: c ns)
  case (Cons h hs)
  from Cons.prems(2) obtain c1 where c1: "bhc_insert c h = Some c1" "bhc_insert_n c1 hs = Some c'"
    by (auto simp: bind_eq_Some_conv)
  from bhc_insert_any [OF Cons.prems(1) c1(1)] Cons.prems(3) obtain ns1 where
    "bhc_rel c1 ns1" "storage_best_hash c1 = storage_best_hash c" "length ns1 \<le> Suc (length ns)" by auto
  with Cons.IH [OF _ c1(2), of ns1] Cons.prems(3) show ?case by auto
qed auto

lemma bhc_remove_n_any:
  "bhc_rel c ns \<Longrightarrow> \<exists>c' ns'. bhc_remove_n c ks = Some c' \<and> bhc_rel c' ns' \<and> storage_best_hash c' = storage_best_hash c"
proof (induction ks arbitrary: c ns)
  case (Cons k ks)
  from bhc_remove_ok [OF Cons.prems, of k] obtain c1 ns1 where
    "bhc_remove c k = Some c1" "bhc_rel c1 ns1" "storage_best_hash c1 = storage_best_hash c" by blast
  with Cons.IH [of c1 ns1] show ?case by auto
qed auto

lemma forget_all_queue:
  assumes q: "three_queues hc v r t" and i: "to_queue_index st = Some i"
  shows "\<exists>ks hc' v' r' t'. hqc_remove_all_at hc i = Some (ks, hc') \<and> three_queues hc' v' r' t'"
proof -
  let ?e = "\<lambda>q. q\<lparr>hset := {}, queue := []\<rparr> :: HashQueue"
  have e: "hq_inv (?e x)" "queue (?e x) = []" for x by (simp_all add: hq_inv_def)
  have inv: "hq_inv v" "hq_inv r" "hq_inv t" using q by (simp_all add: three_queues_def)
  show ?thesis
    using i three_queues_shrink [OF q e(1) inv(2,3)] three_queues_shrink [OF q inv(1) e(1) inv(3)]
      three_queues_shrink [OF q inv(1,2) e(1)]
    by (cases st; simp add: hqc_remove_all_at_def hq_remove_all_def three_queues_get [OF q]; blast)
qed

end
