(* ===== verification/Client_Core.thy ===== *)
theory Client_Core
  imports Peers Orphan_Pool Sync_Chain
begin

text \<open>
  The synchronization client (\<^verbatim>\<open>sync/src/synchronization_client_core.rs\<close>): the handlers of peer messages and of
  verification results, over the synchronized chain, the orphan pool and the bookkeeping of peers.

  The lock around the core makes each handler one step. Effects on the outside are logs of the state: the tasks given
  to the executor, the closed connections, the events of the listener, and the futures that were run (a future is
  its number). A panic is \<open>None\<close>. A handler reads one instant of the clock; logging is left out.
\<close>

section \<open>Shared state\<close>

record SynchronizationState =
  is_synchronizing :: bool
  best_storage_block_height :: nat

definition state_with_storage :: "'d BlockChainDatabase \<Rightarrow> SynchronizationState" where
  "state_with_storage s = \<lparr>is_synchronizing = False, best_storage_block_height = unat (bb_number (best s))\<rparr>"

definition update_synchronizing :: "bool \<Rightarrow> SynchronizationState \<Rightarrow> SynchronizationState" where
  "update_synchronizing b s = s\<lparr>is_synchronizing := b\<rparr>"

definition update_best_storage_block_height :: "u32 \<Rightarrow> SynchronizationState \<Rightarrow> SynchronizationState" where
  "update_best_storage_block_height h s = s\<lparr>best_storage_block_height := unat h\<rparr>"

section \<open>Headers of a message\<close>

record MessageBlockHeadersProvider =
  chain_provider :: header_provider
  first_header_number :: u32
  mp_headers :: "h256 \<rightharpoonup> IndexedBlockHeader"
  headers_order :: "h256 list"

definition provider_new :: "header_provider \<Rightarrow> u32 \<Rightarrow> MessageBlockHeadersProvider" where
  "provider_new p height =
     \<lparr>chain_provider = p, first_header_number = height + 1, mp_headers = Map.empty, headers_order = []\<rparr>"

definition append_header :: "MessageBlockHeadersProvider \<Rightarrow> h256 \<Rightarrow> IndexedBlockHeader \<Rightarrow> MessageBlockHeadersProvider" where
  "append_header p h x = p\<lparr>mp_headers := (mp_headers p)(h \<mapsto> x), headers_order := headers_order p @ [h]\<rparr>"

definition provider_block_header :: "MessageBlockHeadersProvider \<Rightarrow> header_provider" where
  "provider_block_header p r =
     do { found \<leftarrow> chain_provider p r;
          case found of
            Some x \<Rightarrow> Some (Some x)
          | None \<Rightarrow>
              (case r of
                 RefHash h \<Rightarrow> Some (mp_headers p h)
               | RefNumber n \<Rightarrow>
                   if n \<ge> first_header_number p \<and> n - first_header_number p < of_nat (length (headers_order p))
                   then do { x \<leftarrow> mp_headers p (headers_order p ! unat (n - first_header_number p)); Some (Some x) }
                   else Some None) }"

section \<open>SynchronizationClientCore\<close>

definition MAX_SCHEDULED_HASHES :: u32 where "MAX_SCHEDULED_HASHES = 4 * 1024"
definition MAX_REQUESTED_BLOCKS :: u32 where "MAX_REQUESTED_BLOCKS = 256"
definition MAX_VERIFYING_BLOCKS :: u32 where "MAX_VERIFYING_BLOCKS = 256"
definition MIN_BLOCKS_IN_REQUEST :: u32 where "MIN_BLOCKS_IN_REQUEST = 32"
definition MAX_BLOCKS_IN_REQUEST :: u32 where "MAX_BLOCKS_IN_REQUEST = 128"
definition NEAR_EMPTY_VERIFICATION_QUEUE_THRESHOLD_BLOCKS :: nat where
  "NEAR_EMPTY_VERIFICATION_QUEUE_THRESHOLD_BLOCKS = 20"
definition NEAR_EMPTY_VERIFICATION_QUEUE_THRESHOLD_S :: real where
  "NEAR_EMPTY_VERIFICATION_QUEUE_THRESHOLD_S = 20"
definition SYNC_SPEED_BLOCKS_TO_INSPECT :: nat where "SYNC_SPEED_BLOCKS_TO_INSPECT = 512"
definition BLOCKS_SPEED_BLOCKS_TO_INSPECT :: nat where "BLOCKS_SPEED_BLOCKS_TO_INSPECT = 512"
definition MIN_BLOCK_DUPLICATION_INTERVAL_S :: real where "MIN_BLOCK_DUPLICATION_INTERVAL_S = 10"
definition MAX_BLOCKS_IN_DUPLICATE_REQUEST :: u32 where "MAX_BLOCKS_IN_DUPLICATE_REQUEST = 4"
definition MIN_BLOCKS_IN_DUPLICATE_REQUEST :: u32 where "MIN_BLOCKS_IN_DUPLICATE_REQUEST = 8"

datatype State = Synchronizing real u32 | NearlySaturated | Saturated

fun is_saturated :: "State \<Rightarrow> bool" where
  "is_saturated Saturated = True"
| "is_saturated _ = False"

fun is_synchronizing_state :: "State \<Rightarrow> bool" where
  "is_synchronizing_state (Synchronizing _ _) = True"
| "is_synchronizing_state _ = False"

fun is_nearly_saturated :: "State \<Rightarrow> bool" where
  "is_nearly_saturated NearlySaturated = True"
| "is_nearly_saturated _ = False"

record BlocksRequestLimits =
  max_scheduled_hashes :: u32
  max_requested_blocks :: u32
  max_verifying_blocks :: u32
  min_blocks_in_request :: u32
  max_blocks_in_request :: u32

definition limits_default :: BlocksRequestLimits where
  "limits_default =
     \<lparr>max_scheduled_hashes = MAX_SCHEDULED_HASHES, max_requested_blocks = MAX_REQUESTED_BLOCKS,
      max_verifying_blocks = MAX_VERIFYING_BLOCKS, min_blocks_in_request = MIN_BLOCKS_IN_REQUEST,
      max_blocks_in_request = MAX_BLOCKS_IN_REQUEST\<rparr>"

datatype BlocksHeadersVerificationResult = Skip | HeaderError nat | Success

datatype ListenerEvent = StateSwitched bool | BestBlockInserted h256

text \<open>What the client did to its surroundings, in order.\<close>

record CoreLog =
  executed :: "Task list"
  closed :: wire
  events :: "ListenerEvent list"
  woken :: "nat list"

record 'd Core =
  shared_state :: SynchronizationState
  core_state :: State
  core_peers :: PeersImpl
  peers_tasks :: PeersTasks
  core_chain :: "'d Chain"
  orphaned_blocks_pool :: OrphanBlocksPool
  verify_headers_flag :: bool
  verifying_blocks_by_peer :: "h256 \<rightharpoonup> PeerIndex"
  verifying_blocks_futures :: "PeerIndex \<rightharpoonup> h256 list \<times> nat list"
  do_not_relay :: "h256 set"
  block_speed_meter :: AverageSpeedMeter
  sync_speed_meter :: AverageSpeedMeter
  close_connection_on_bad_block :: bool
  listener :: bool
  last_dup_time :: real
  log :: CoreLog

text \<open>The surroundings of a handler: the storage operations, the network, and the two clocks.\<close>

record 'd env =
  e_ops :: "'d kv_ops"
  e_network :: Network
  e_now :: real
  e_time :: u32

definition core_new :: "bool \<Rightarrow> PeersImpl \<Rightarrow> 'd Chain \<Rightarrow> 'd Core option" where
  "core_new close_on_bad ps chain =
     do { block_meter \<leftarrow> with_inspect_items SYNC_SPEED_BLOCKS_TO_INSPECT;
          sync_meter \<leftarrow> with_inspect_items BLOCKS_SPEED_BLOCKS_TO_INSPECT;
          Some \<lparr>shared_state = state_with_storage (chain_storage chain), core_state = Saturated, core_peers = ps,
                peers_tasks = peers_tasks_default, core_chain = chain, orphaned_blocks_pool = pool_new,
                verify_headers_flag = True, verifying_blocks_by_peer = Map.empty,
                verifying_blocks_futures = Map.empty, do_not_relay = {}, block_speed_meter = block_meter,
                sync_speed_meter = sync_meter, close_connection_on_bad_block = close_on_bad, listener = False,
                last_dup_time = 0, log = \<lparr>executed = [], closed = [], events = [], woken = []\<rparr>\<rparr> }"

definition execute :: "Task \<Rightarrow> 'd Core \<Rightarrow> 'd Core" where
  "execute t c = c\<lparr>log := (log c)\<lparr>executed := executed (log c) @ [t]\<rparr>\<rparr>"

definition misbehaving :: "PeerIndex \<Rightarrow> 'd Core \<Rightarrow> 'd Core" where
  "misbehaving i c =
     (let (ps, w) = peers_misbehaving (core_peers c) i in c\<lparr>core_peers := ps, log := (log c)\<lparr>closed := closed (log c) @ w\<rparr>\<rparr>)"

definition dos :: "PeerIndex \<Rightarrow> 'd Core \<Rightarrow> 'd Core" where
  "dos i c = (let (ps, w) = peers_dos (core_peers c) i in c\<lparr>core_peers := ps, log := (log c)\<lparr>closed := closed (log c) @ w\<rparr>\<rparr>)"

definition notify :: "ListenerEvent \<Rightarrow> 'd Core \<Rightarrow> 'd Core" where
  "notify e c = (if listener c then c\<lparr>log := (log c)\<lparr>events := events (log c) @ [e]\<rparr>\<rparr> else c)"

definition wake :: "nat list \<Rightarrow> 'd Core \<Rightarrow> 'd Core" where
  "wake fs c = c\<lparr>log := (log c)\<lparr>woken := woken (log c) @ fs\<rparr>\<rparr>"

definition install_sync_listener :: "'d Core \<Rightarrow> 'd Core option" where
  "install_sync_listener c = (if listener c then None else Some (c\<lparr>listener := True\<rparr>))"

section \<open>Switching between states\<close>

definition print_synchronization_information :: "'d env \<Rightarrow> 'd Core \<Rightarrow> 'd Core" where
  "print_synchronization_information E c =
     (case core_state c of
        Synchronizing timestamp num_of_blocks \<Rightarrow>
          (let timestamp_diff = e_now E - timestamp;
               new_num_of_blocks = bb_number (best_storage_block (core_chain c));
               blocks_diff = (if new_num_of_blocks > num_of_blocks then new_num_of_blocks - num_of_blocks else 0)
           in if timestamp_diff \<ge> 60 \<or> blocks_diff \<ge> 1000
              then c\<lparr>core_state := Synchronizing (e_now E) new_num_of_blocks\<rparr> else c)
      | _ \<Rightarrow> c)"

definition switch_to_synchronization_state :: "'d env \<Rightarrow> 'd Core \<Rightarrow> 'd Core" where
  "switch_to_synchronization_state E c =
     (if is_synchronizing_state (core_state c) then c
      else (notify (StateSwitched True) c)\<lparr>
        shared_state := update_synchronizing True (shared_state c),
        core_state := Synchronizing (e_now E) (bb_number (best_storage_block (core_chain c)))\<rparr>)"

definition switch_to_nearly_saturated_state :: "'d Core \<Rightarrow> 'd Core" where
  "switch_to_nearly_saturated_state c =
     (if is_nearly_saturated (core_state c) then c
      else (notify (StateSwitched False) c)\<lparr>
        shared_state := update_synchronizing False (shared_state c), core_state := NearlySaturated\<rparr>)"

definition switch_to_saturated_state :: "'d env \<Rightarrow> 'd Core \<Rightarrow> 'd Core option" where
  "switch_to_saturated_state E c =
     (if is_saturated (core_state c) then Some c
      else do {
        let c = (notify (StateSwitched False) c)\<lparr>
          shared_state := update_synchronizing False (shared_state c), core_state := Saturated,
          peers_tasks := peers_reset (peers_tasks c)\<rparr>;
        let (removed_orphans, pool) = remove_known_blocks (orphaned_blocks_pool c);
        chain \<leftarrow> forget_blocks (core_chain c) removed_orphans;
        chain \<leftarrow> forget_all_blocks_with_state chain Requested;
        chain \<leftarrow> forget_all_blocks_with_state chain Scheduled;
        let c = c\<lparr>orphaned_blocks_pool := pool, core_chain := chain\<rparr>;
        locator \<leftarrow> block_locator_hashes (e_ops E) chain;
        Some (fold (\<lambda>i. execute (GetHeadersTask i (with_block_locator_hashes locator)))
                (all_peers (peers_tasks c)) c) })"

definition try_switch_to_saturated_state :: "'d env \<Rightarrow> 'd Core \<Rightarrow> (bool \<times> 'd Core) option" where
  "try_switch_to_saturated_state E c =
     do { scheduled \<leftarrow> length_of_blocks_state (core_chain c) Scheduled;
          requested \<leftarrow> length_of_blocks_state (core_chain c) Requested;
          if scheduled = 0 \<and> requested = 0
          then do { c \<leftarrow> switch_to_saturated_state E c; Some (True, c) }
          else Some (False, c) }"

section \<open>Requesting blocks and headers\<close>

fun prepare_loop :: "real \<Rightarrow> nat \<Rightarrow> PeerIndex list \<Rightarrow> h256 list \<Rightarrow> PeersTasks \<Rightarrow> (h256 list \<times> Task list \<times> PeersTasks) option" where
  "prepare_loop now chunk_size [] hashes pt = Some (hashes, [], pt)"
| "prepare_loop now chunk_size (peer # ps) hashes pt =
     (let peer_chunk_size = (if ps = [] then length hashes else min (length hashes) chunk_size)
      in if peer_chunk_size = 0 then Some (hashes, [], pt)
         else do {
           let chunk_hashes = take peer_chunk_size hashes;
           pt \<leftarrow> on_blocks_requested now pt peer chunk_hashes;
           (hashes, tasks, pt) \<leftarrow> prepare_loop now chunk_size ps (drop peer_chunk_size hashes) pt;
           Some (hashes, GetDataTask peer \<lparr>gd_inventory = map inventory_block chunk_hashes\<rparr> # tasks, pt) })"

definition prepare_blocks_requests_tasks ::
  "'d env \<Rightarrow> BlocksRequestLimits \<Rightarrow> PeerIndex list \<Rightarrow> h256 list \<Rightarrow> 'd Core \<Rightarrow> (Task list \<times> 'd Core) option" where
  "prepare_blocks_requests_tasks E limits ps hashes c =
     do { let ps = sort_peers_for_blocks (peers_tasks c) ps;
          let chunk_size = min (max_blocks_in_request limits)
                             (max (of_nat (length hashes)) (min_blocks_in_request limits));
          (hashes, tasks, pt) \<leftarrow> prepare_loop (e_now E) (unat chunk_size) ps hashes (peers_tasks c);
          if hashes \<noteq> [] then None else Some (tasks, c\<lparr>peers_tasks := pt\<rparr>) }"

definition request_limits :: "'d Core \<Rightarrow> BlocksRequestLimits option" where
  "request_limits c =
     do { stored \<leftarrow> length_of_blocks_state (core_chain c) Stored;
          Some (if stored > 150000 then limits_default\<lparr>min_blocks_in_request := 8, max_blocks_in_request := 16\<rparr>
                else limits_default) }"

fun headers_requested_all :: "real \<Rightarrow> PeerIndex list \<Rightarrow> PeersTasks \<Rightarrow> PeersTasks option" where
  "headers_requested_all now [] pt = Some pt"
| "headers_requested_all now (i # is) pt = do { pt \<leftarrow> on_headers_requested now pt i; headers_requested_all now is pt }"

definition request_headers :: "'d env \<Rightarrow> 'd Core \<Rightarrow> (Task list \<times> 'd Core) option" where
  "request_headers E c =
     (let idle = idle_for_headers (peers_tasks c)
      in if idle = [] then Some ([], c)
         else do {
           scheduled \<leftarrow> length_of_blocks_state (core_chain c) Scheduled;
           if scheduled < MAX_SCHEDULED_HASHES
           then do {
             pt \<leftarrow> headers_requested_all (e_now E) idle (peers_tasks c);
             locator \<leftarrow> block_locator_hashes (e_ops E) (core_chain c);
             Some (map (\<lambda>i. GetHeadersTask i (with_block_locator_hashes locator)) idle, c\<lparr>peers_tasks := pt\<rparr>) }
           else Some ([], c) })"

text \<open>The cast of a float to \<^verbatim>\<open>u32\<close> truncates and saturates.\<close>

definition float_to_u32 :: "real \<Rightarrow> u32" where
  "float_to_u32 x = (if x \<le> 0 then 0 else if x \<ge> 2 ^ 32 - 1 then - 1 else of_nat (nat \<lfloor>x\<rfloor>))"

definition verification_queue_empty_in :: "'d Core \<Rightarrow> u32 \<Rightarrow> real" where
  "verification_queue_empty_in c verifying =
     (let verification_speed = meter_speed (block_speed_meter c)
      in if verifying = 0
         then if inspected_items_len (block_speed_meter c) < NEAR_EMPTY_VERIFICATION_QUEUE_THRESHOLD_BLOCKS then 60 else 0
         else if verification_speed < 1 / 100 then 60 else real (unat verifying) / verification_speed)"

definition synchronization_queue_full_in :: "'d Core \<Rightarrow> u32 \<Rightarrow> real" where
  "synchronization_queue_full_in c requested =
     (let synchronization_speed = meter_speed (sync_speed_meter c)
      in if synchronization_speed < 1 / 100 then 60 else real (unat requested) / synchronization_speed)"

definition duplicate_requests :: "'d env \<Rightarrow> u32 \<Rightarrow> u32 \<Rightarrow> 'd Core \<Rightarrow> (h256 list option \<times> 'd Core) option" where
  "duplicate_requests E verifying requested c =
     (let empty_in = verification_queue_empty_in c verifying;
          full_in = synchronization_queue_full_in c requested
      in if requested \<noteq> 0 \<and> full_in > empty_in \<and> empty_in < NEAR_EMPTY_VERIFICATION_QUEUE_THRESHOLD_S \<and>
            e_now E - last_dup_time c > MIN_BLOCK_DUPLICATION_INTERVAL_S
         then do {
           let n = float_to_u32 (meter_speed (sync_speed_meter c) * (full_in - empty_in));
           let n = min MAX_BLOCKS_IN_DUPLICATE_REQUEST n;
           let n = max MIN_BLOCKS_IN_DUPLICATE_REQUEST (min requested n);
           hashes \<leftarrow> best_n_of_blocks_state (core_chain c) Requested n;
           Some (Some hashes, c\<lparr>last_dup_time := e_now E\<rparr>) }
         else Some (None, c))"

definition request_scheduled ::
  "BlocksRequestLimits \<Rightarrow> u32 \<Rightarrow> u32 \<Rightarrow> u32 \<Rightarrow> 'd Core \<Rightarrow> (h256 list option \<times> 'd Core) option" where
  "request_scheduled limits idle_len verifying requested c =
     do { scheduled \<leftarrow> length_of_blocks_state (core_chain c) Scheduled;
          if requested + verifying < MAX_REQUESTED_BLOCKS + MAX_VERIFYING_BLOCKS \<and> scheduled \<noteq> 0
          then do {
            let chunk_size = min (max_blocks_in_request limits) (max (scheduled div idle_len) (min_blocks_in_request limits));
            (hashes, chain) \<leftarrow> request_blocks_hashes (core_chain c) (chunk_size * idle_len);
            Some (Some hashes, c\<lparr>core_chain := chain\<rparr>) }
          else Some (None, c) }"

fun join_requests :: "h256 list option \<Rightarrow> h256 list option \<Rightarrow> h256 list option" where
  "join_requests (Some a) (Some b) = Some (a @ b)"
| "join_requests None b = b"
| "join_requests a None = a"

definition request_blocks ::
  "'d env \<Rightarrow> BlocksRequestLimits \<Rightarrow> u32 \<Rightarrow> PeerIndex list \<Rightarrow> 'd Core \<Rightarrow> (Task list \<times> 'd Core) option" where
  "request_blocks E limits verifying idle c =
     (let idle_len = of_nat (length idle)
      in if idle_len = 0 then Some ([], c)
         else do {
           requested \<leftarrow> length_of_blocks_state (core_chain c) Requested;
           (duplicated, c) \<leftarrow> duplicate_requests E verifying requested c;
           (scheduled, c) \<leftarrow> request_scheduled limits idle_len verifying requested c;
           case join_requests duplicated scheduled of
             None \<Rightarrow> Some ([], c)
           | Some hashes \<Rightarrow> prepare_blocks_requests_tasks E limits idle hashes c })"

definition request_final :: "'d env \<Rightarrow> BlocksRequestLimits \<Rightarrow> h256 list option \<Rightarrow> 'd Core \<Rightarrow> (Task list \<times> 'd Core) option" where
  "request_final E limits final_blocks c =
     (case final_blocks of
        None \<Rightarrow> Some ([], c)
      | Some hashes \<Rightarrow>
          (let useful = useful_peers (peers_tasks c)
           in if useful = [] then Some ([], c) else prepare_blocks_requests_tasks E limits useful hashes c))"

text \<open>The rest of \<^verbatim>\<open>execute_synchronization_tasks\<close>, after the forced requests have been prepared.\<close>

definition execute_remaining_tasks ::
  "'d env \<Rightarrow> BlocksRequestLimits \<Rightarrow> u32 \<Rightarrow> h256 list option \<Rightarrow> Task list \<Rightarrow> 'd Core \<Rightarrow> 'd Core option" where
  "execute_remaining_tasks E limits verifying final_blocks forced_tasks c =
     do { (final_tasks, c) \<leftarrow> request_final E limits final_blocks c;
          let blocks_idle_peers = idle_for_blocks (peers_tasks c);
          (headers_tasks, c) \<leftarrow> request_headers E c;
          (blocks_tasks, c) \<leftarrow> request_blocks E limits verifying blocks_idle_peers c;
          Some (fold execute (forced_tasks @ final_tasks @ headers_tasks @ blocks_tasks) c) }"

definition execute_synchronization_tasks ::
  "'d env \<Rightarrow> h256 list option \<Rightarrow> h256 list option \<Rightarrow> 'd Core \<Rightarrow> 'd Core option" where
  "execute_synchronization_tasks E forced_blocks final_blocks c =
     do { let c = print_synchronization_information E c;
          limits \<leftarrow> request_limits c;
          verifying \<leftarrow> length_of_blocks_state (core_chain c) Verifying;
          case forced_blocks of
            None \<Rightarrow> execute_remaining_tasks E limits verifying final_blocks [] c
          | Some hashes \<Rightarrow>
              (let useful = useful_peers (peers_tasks c)
               in if useful = [] then switch_to_saturated_state E c
                  else do {
                    (forced_tasks, c) \<leftarrow> prepare_blocks_requests_tasks E limits useful hashes c;
                    execute_remaining_tasks E limits verifying final_blocks forced_tasks c }) }"

section \<open>Connections\<close>

definition on_connect :: "'d env \<Rightarrow> PeerIndex \<Rightarrow> 'd Core \<Rightarrow> 'd Core option" where
  "on_connect E i c =
     do { locator \<leftarrow> block_locator_hashes (e_ops E) (core_chain c);
          let c = execute (GetHeadersTask i (with_block_locator_hashes locator)) c;
          pt \<leftarrow> unuseful_peer (peers_tasks c) i;
          pt \<leftarrow> on_headers_requested (e_now E) pt i;
          Some (c\<lparr>peers_tasks := pt\<rparr>) }"

definition on_disconnect :: "'d env \<Rightarrow> PeerIndex \<Rightarrow> 'd Core \<Rightarrow> 'd Core option" where
  "on_disconnect E i c =
     do { let (peer_tasks, pt) = reset_blocks_tasks (peers_tasks c) i;
          pt \<leftarrow> disconnect_peer pt i;
          execute_synchronization_tasks E (Some peer_tasks) None (c\<lparr>peers_tasks := pt\<rparr>) }"

section \<open>Inventory\<close>

definition inventory_unknown ::
  "'d env \<Rightarrow> PeerIndex \<Rightarrow> InventoryVector \<Rightarrow> 'd Core \<Rightarrow> (bool \<times> 'd Core) option" where
  "inventory_unknown E i item c =
     (case inv_type item of
        MessageBlock \<Rightarrow>
          do { st \<leftarrow> block_state (e_ops E) (core_chain c) (inv_hash item);
               Some (case st of
                       UnknownState \<Rightarrow> (\<not> contains_unknown_block (orphaned_blocks_pool c) (inv_hash item), c)
                     | DeadEnd \<Rightarrow> if \<not> close_connection_on_bad_block c then (True, c) else (False, misbehaving i c)
                     | _ \<Rightarrow> (False, c)) }
      | InvError \<Rightarrow> Some (False, misbehaving i c))"

fun filter_inventory ::
  "'d env \<Rightarrow> PeerIndex \<Rightarrow> InventoryVector list \<Rightarrow> 'd Core \<Rightarrow> (InventoryVector list \<times> 'd Core) option" where
  "filter_inventory E i [] c = Some ([], c)"
| "filter_inventory E i (item # items) c =
     do { (keep, c) \<leftarrow> inventory_unknown E i item c;
          (rest, c) \<leftarrow> filter_inventory E i items c;
          Some (if keep then item # rest else rest, c) }"

definition on_inventory :: "'d env \<Rightarrow> PeerIndex \<Rightarrow> Inv \<Rightarrow> 'd Core \<Rightarrow> 'd Core option" where
  "on_inventory E i message c =
     do { (unknown, c) \<leftarrow> filter_inventory E i (inv_inventory message) c;
          Some (if unknown = [] then c else execute (GetDataTask i \<lparr>gd_inventory = unknown\<rparr>) c) }"

section \<open>Headers\<close>

fun verify_headers_loop ::
  "'d env \<Rightarrow> PeerIndex \<Rightarrow> nat \<Rightarrow> h256 \<Rightarrow> IndexedBlockHeader list \<Rightarrow> 'd Core \<Rightarrow>
   (BlocksHeadersVerificationResult \<times> 'd Core) option" where
  "verify_headers_loop E i index last_known [] c = Some (Success, c)"
| "verify_headers_loop E i index last_known (h # hs) c =
     (if previous_header_hash (raw h) \<noteq> last_known then Some (Skip, misbehaving i c)
      else do {
        st \<leftarrow> block_state (e_ops E) (core_chain c) (hash h);
        if st = UnknownState
        then do {
          verified \<leftarrow> (if verify_headers_flag c then verify_block_header (e_network E) (e_time E) (hash h) (raw h)
                       else Some (Inr ()));
          case verified of
            Inl _ \<Rightarrow> Some (HeaderError index, if close_connection_on_bad_block c then misbehaving i c else c)
          | Inr _ \<Rightarrow> verify_headers_loop E i (Suc index) (hash h) hs c }
        else if st = DeadEnd \<and> close_connection_on_bad_block c then Some (Skip, misbehaving i c)
        else do { pt \<leftarrow> useful_peer (peers_tasks c) i; Some (Skip, c\<lparr>peers_tasks := pt\<rparr>) } })"

text \<open>
  The provider of the headers of the message, which \<^verbatim>\<open>verify_headers\<close> fills, is an argument that
  \<^verbatim>\<open>verify_block_header\<close> does not read; only its construction, which reads the best header, is kept.
\<close>

definition verify_headers ::
  "'d env \<Rightarrow> PeerIndex \<Rightarrow> h256 \<Rightarrow> IndexedBlockHeader list \<Rightarrow> 'd Core \<Rightarrow> (BlocksHeadersVerificationResult \<times> 'd Core) option" where
  "verify_headers E i last_known headers c =
     do { _ \<leftarrow> best_block_header (core_chain c);
          verify_headers_loop E i 0 last_known headers c }"

fun find_unknown :: "'d kv_ops \<Rightarrow> 'd Chain \<Rightarrow> IndexedBlockHeader list \<Rightarrow> nat option option" where
  "find_unknown ops chain [] = Some None"
| "find_unknown ops chain (h # hs) =
     do { st \<leftarrow> block_state ops chain (hash h);
          if st = UnknownState then Some (Some 0)
          else do { r \<leftarrow> find_unknown ops chain hs; Some (map_option Suc r) } }"

text \<open>The position of the first unknown header, or \<open>None\<close> when all headers are known.\<close>

definition first_unknown_index :: "'d kv_ops \<Rightarrow> 'd Chain \<Rightarrow> IndexedBlockHeader list \<Rightarrow> nat option option" where
  "first_unknown_index ops chain headers =
     do { st0 \<leftarrow> block_state ops chain (hash (hd headers));
          if st0 = UnknownState then Some (Some 0)
          else do {
            st \<leftarrow> block_state ops chain (hash (last headers));
            if st = UnknownState
            then do { found \<leftarrow> find_unknown ops chain (tl headers); position \<leftarrow> found; Some (Some (1 + position)) }
            else Some None } }"

definition schedule_headers :: "'d env \<Rightarrow> PeerIndex \<Rightarrow> IndexedBlockHeader list \<Rightarrow> 'd Core \<Rightarrow> 'd Core option" where
  "schedule_headers E i new_headers c =
     do { chain \<leftarrow> schedule_blocks_headers (core_chain c) new_headers;
          let c = c\<lparr>core_chain := chain\<rparr>;
          scheduled \<leftarrow> length_of_blocks_state chain Scheduled;
          requested \<leftarrow> length_of_blocks_state chain Requested;
          let c = (if is_synchronizing_state (core_state c) then c
                   else if scheduled + requested = 1 then switch_to_nearly_saturated_state c
                   else switch_to_synchronization_state E c);
          pt \<leftarrow> useful_peer (peers_tasks c) i;
          execute_synchronization_tasks E None None (c\<lparr>peers_tasks := pt\<rparr>) }"

definition on_unknown_headers ::
  "'d env \<Rightarrow> PeerIndex \<Rightarrow> IndexedBlockHeader list \<Rightarrow> nat \<Rightarrow> 'd Core \<Rightarrow> 'd Core option" where
  "on_unknown_headers E i headers first_unknown c =
     do { let last_known_hash = (if first_unknown > 0 then hash (headers ! (first_unknown - 1))
                                 else previous_header_hash (raw (hd headers)));
          st \<leftarrow> block_state (e_ops E) (core_chain c) last_known_hash;
          if close_connection_on_bad_block c \<and> st = DeadEnd then Some (misbehaving i c)
          else do {
            (result, c) \<leftarrow> verify_headers E i last_known_hash (drop first_unknown headers) c;
            case result of
              HeaderError error_index \<Rightarrow>
                Some (c\<lparr>core_chain := mark_dead_end_block (core_chain c) (hash (headers ! (first_unknown + error_index)))\<rparr>)
            | Skip \<Rightarrow> Some c
            | Success \<Rightarrow> schedule_headers E i (drop first_unknown headers) c } }"

definition on_headers :: "'d env \<Rightarrow> PeerIndex \<Rightarrow> IndexedBlockHeader list \<Rightarrow> 'd Core \<Rightarrow> 'd Core option" where
  "on_headers E i headers c =
     (if headers = [] then None
      else do {
        let c = c\<lparr>peers_tasks := on_headers_received (peers_tasks c) i\<rparr>;
        st \<leftarrow> block_state (e_ops E) (core_chain c) (previous_header_hash (raw (hd headers)));
        if st = UnknownState
        then (let (pt, bad) = penalize (peers_tasks c) i; c = c\<lparr>peers_tasks := pt\<rparr>
              in Some (if bad then misbehaving i c else c))
        else do {
          first \<leftarrow> first_unknown_index (e_ops E) (core_chain c) headers;
          case first of
            None \<Rightarrow> do { pt \<leftarrow> useful_peer (peers_tasks c) i; Some (c\<lparr>peers_tasks := pt\<rparr>) }
          | Some first_unknown \<Rightarrow> on_unknown_headers E i headers first_unknown c } })"

section \<open>Blocks\<close>

text \<open>A block whose parent is unknown or a dead end.\<close>

definition on_orphan_block :: "'d env \<Rightarrow> IndexedBlock \<Rightarrow> 'd Core \<Rightarrow> 'd Core option" where
  "on_orphan_block E b c =
     (if is_synchronizing_state (core_state c)
      then do {
        (_, chain) \<leftarrow> forget_block (core_chain c) (block_hash_of b);
        let (removed, pool) = remove_blocks_for_parent (orphaned_blocks_pool c) (block_hash_of b);
        chain \<leftarrow> forget_blocks_leave_header chain (map block_hash_of removed);
        Some (c\<lparr>core_chain := chain, orphaned_blocks_pool := pool\<rparr>) }
      else do {
        (_, chain) \<leftarrow> forget_block_leave_header (core_chain c) (block_hash_of b);
        let c = c\<lparr>core_chain := chain\<rparr>;
        if contains_unknown_block (orphaned_blocks_pool c) (block_hash_of b) then Some c
        else do {
          pool \<leftarrow> insert_unknown_block (e_now E) (orphaned_blocks_pool c) b;
          Some (c\<lparr>orphaned_blocks_pool := pool\<rparr>) } })"

definition remember_verifying :: "PeerIndex \<Rightarrow> h256 list \<Rightarrow> 'd Core \<Rightarrow> 'd Core" where
  "remember_verifying i hashes c =
     c\<lparr>verifying_blocks_by_peer := fold (\<lambda>h m. m(h \<mapsto> i)) hashes (verifying_blocks_by_peer c),
       verifying_blocks_futures := (verifying_blocks_futures c)(i \<mapsto>
         (case verifying_blocks_futures c i of
            Some (waiting, futures) \<Rightarrow> (fold List.insert hashes waiting, futures)
          | None \<Rightarrow> (fold List.insert hashes [], [])))\<rparr>"

text \<open>A block whose parent is stored or being verified: it is verified together with the orphans that wait for it.\<close>

definition on_connected_block ::
  "'d env \<Rightarrow> PeerIndex \<Rightarrow> IndexedBlock \<Rightarrow> 'd Core \<Rightarrow> (IndexedBlock list \<times> 'd Core) option" where
  "on_connected_block E i b c =
     do { meter \<leftarrow> meter_checkpoint (e_now E) (sync_speed_meter c);
          pt \<leftarrow> useful_peer (peers_tasks c) i;
          let (orphans, pool) = remove_blocks_for_parent (orphaned_blocks_pool c) (block_hash_of b);
          let blocks_to_verify = b # orphans;
          chain \<leftarrow> forget_blocks_leave_header (core_chain c) (map block_hash_of blocks_to_verify);
          chain \<leftarrow> chain_verify_blocks chain (map header blocks_to_verify);
          let c = c\<lparr>sync_speed_meter := meter, peers_tasks := pt, orphaned_blocks_pool := pool, core_chain := chain\<rparr>;
          Some (blocks_to_verify, remember_verifying i (map block_hash_of blocks_to_verify) c) }"

definition on_new_block ::
  "'d env \<Rightarrow> PeerIndex \<Rightarrow> IndexedBlock \<Rightarrow> 'd Core \<Rightarrow> (IndexedBlock list option \<times> 'd Core) option" where
  "on_new_block E i b c =
     do { parent_state \<leftarrow> block_state (e_ops E) (core_chain c) (previous_header_hash (raw (header b)));
          if parent_state = UnknownState \<or> parent_state = DeadEnd
          then if parent_state = DeadEnd \<and> close_connection_on_bad_block c then Some (None, misbehaving i c)
               else do { c \<leftarrow> on_orphan_block E b c; Some (None, c) }
          else if parent_state = Verifying \<or> parent_state = Stored
          then do { (blocks_to_verify, c) \<leftarrow> on_connected_block E i b c; Some (Some blocks_to_verify, c) }
          else do { pt \<leftarrow> useful_peer (peers_tasks c) i;
                    Some (None, c\<lparr>peers_tasks := pt, orphaned_blocks_pool := insert_orphaned_block (orphaned_blocks_pool c) b\<rparr>) } }"

definition on_block ::
  "'d env \<Rightarrow> PeerIndex \<Rightarrow> IndexedBlock \<Rightarrow> 'd Core \<Rightarrow> (IndexedBlock list option \<times> 'd Core) option" where
  "on_block E i b c =
     do { pt \<leftarrow> on_block_received (e_now E) (peers_tasks c) i (block_hash_of b);
          let c = c\<lparr>peers_tasks := pt\<rparr>;
          st \<leftarrow> block_state (e_ops E) (core_chain c) (block_hash_of b);
          if st = Verifying \<or> st = Stored
          then do { pt \<leftarrow> useful_peer (peers_tasks c) i; Some (None, c\<lparr>peers_tasks := pt\<rparr>) }
          else if st = DeadEnd \<and> close_connection_on_bad_block c then Some (None, misbehaving i c)
          else on_new_block E i b c }"

definition on_notfound :: "'d env \<Rightarrow> PeerIndex \<Rightarrow> NotFound \<Rightarrow> 'd Core \<Rightarrow> 'd Core option" where
  "on_notfound E i message c =
     (let notfound = map inv_hash (filter (\<lambda>v. inv_type v = MessageBlock) (nf_inventory message))
      in if notfound = [] then Some c
         else case get_blocks_tasks (peers_tasks c) i of
                None \<Rightarrow> Some c
              | Some requested \<Rightarrow>
                  if set requested \<inter> set notfound = {} then Some c
                  else do {
                    let (removed_tasks, pt) = reset_blocks_tasks (peers_tasks c) i;
                    pt \<leftarrow> unuseful_peer pt i;
                    let c = c\<lparr>peers_tasks := pt\<rparr>;
                    let c = (if is_synchronizing_state (core_state c) then misbehaving i c else c);
                    execute_synchronization_tasks E (Some removed_tasks) None c })"

definition after_peer_nearly_blocks_verified :: "PeerIndex \<Rightarrow> nat \<Rightarrow> 'd Core \<Rightarrow> 'd Core" where
  "after_peer_nearly_blocks_verified i future c =
     (if is_synchronizing_state (core_state c) then wake [future] c
      else case verifying_blocks_futures c i of
             Some (waiting, futures) \<Rightarrow>
               c\<lparr>verifying_blocks_futures := (verifying_blocks_futures c)(i \<mapsto> (waiting, futures @ [future]))\<rparr>
           | None \<Rightarrow> wake [future] c)"

section \<open>Verification results\<close>

definition awake_waiting_threads :: "h256 \<Rightarrow> 'd Core \<Rightarrow> 'd Core" where
  "awake_waiting_threads h c =
     (case verifying_blocks_by_peer c h of
        None \<Rightarrow> c
      | Some i \<Rightarrow>
          (let c = (case verifying_blocks_futures c i of
                      None \<Rightarrow> c
                    | Some (waiting, futures) \<Rightarrow>
                        (let waiting = removeAll h waiting
                         in if waiting = []
                            then wake futures (c\<lparr>verifying_blocks_futures := (verifying_blocks_futures c)(i := None)\<rparr>)
                            else c\<lparr>verifying_blocks_futures := (verifying_blocks_futures c)(i \<mapsto> (waiting, futures))\<rparr>))
           in c\<lparr>verifying_blocks_by_peer := (verifying_blocks_by_peer c)(h := None)\<rparr>))"

definition relay_blocks :: "'d env \<Rightarrow> h256 list \<Rightarrow> 'd Core \<Rightarrow> 'd Core option" where
  "relay_blocks E hashes c =
     fold (\<lambda>h r. do { c \<leftarrow> r;
                     found \<leftarrow> db_block (e_ops E) (chain_storage (core_chain c)) (RefHash h);
                     Some (case found of None \<Rightarrow> c | Some b \<Rightarrow> execute (RelayNewBlock b) c) }) hashes (Some c)"

definition on_block_verification_success :: "'d env \<Rightarrow> IndexedBlock \<Rightarrow> 'd Core \<Rightarrow> 'd Core option" where
  "on_block_verification_success E b c =
     do { meter \<leftarrow> meter_checkpoint (e_now E) (block_speed_meter c);
          let h = block_hash_of b;
          let needs_relay = (h \<notin> do_not_relay c);
          let c = c\<lparr>block_speed_meter := meter, do_not_relay := do_not_relay c - {h}\<rparr>;
          (position, chain) \<leftarrow> forget_block_with_state_leave_header (core_chain c) h Verifying;
          (chain, inserted) \<leftarrow> (if position \<noteq> Missing then insert_best_block (e_ops E) chain b else Some (chain, Inr []));
          case inserted of
            Inl e \<Rightarrow> None
          | Inr canonized \<Rightarrow> do {
              let c = c\<lparr>core_chain := chain,
                        shared_state := update_best_storage_block_height (bb_number (best_storage_block chain)) (shared_state c)\<rparr>;
              let c = (if canonized = [] then c else notify (BestBlockInserted (last canonized)) c);
              let c = awake_waiting_threads h c;
              c \<leftarrow> execute_synchronization_tasks E None None c;
              if needs_relay \<and> (is_saturated (core_state c) \<or> is_nearly_saturated (core_state c))
              then relay_blocks E canonized c else Some c } }"

definition on_block_verification_error :: "'d env \<Rightarrow> h256 \<Rightarrow> 'd Core \<Rightarrow> 'd Core option" where
  "on_block_verification_error E h c =
     do { let c = c\<lparr>do_not_relay := do_not_relay c - {h}\<rparr>;
          let c = (case verifying_blocks_by_peer c h of
                     Some i \<Rightarrow> if close_connection_on_bad_block c then dos i c else c
                   | None \<Rightarrow> c);
          chain \<leftarrow> forget_block_with_children (core_chain c) h;
          let c = c\<lparr>core_chain := mark_dead_end_block chain h\<rparr>;
          execute_synchronization_tasks E None None (awake_waiting_threads h c) }"

fun forget_failed_blocks :: "h256 list \<Rightarrow> 'd Core \<Rightarrow> 'd Core option" where
  "forget_failed_blocks [] c = Some c"
| "forget_failed_blocks (h # hs) c =
     do { chain \<leftarrow> forget_block_with_children (core_chain c) h; forget_failed_blocks hs (c\<lparr>core_chain := chain\<rparr>) }"

end
