(* ===== verification/Sync_Invariant.thy ===== *)
theory Sync_Invariant
  imports Sync_Chain
begin

text \<open>
  Synchronization as a state machine: every state the operations of \<^verbatim>\<open>Chain\<close> can reach satisfies the invariant that
  ties the stored chain, the cached best block, the queues and the headers chain together. The properties of the
  component follow.
\<close>

section \<open>Reachable chains\<close>

text \<open>
  The states synchronization can reach from a freshly opened storage. The guards are what the client checks before
  each call: only hashes in no queue are scheduled or verified, only blocks that are not stored are inserted, and
  counters stay below their width.
\<close>

inductive sync_reachable :: "'d kv_ops \<Rightarrow> ('d \<Rightarrow> bool) \<Rightarrow> (Operation \<Rightarrow> bool) \<Rightarrow> 'd Chain \<Rightarrow> bool"
  for ops db_inv op_ok where
  sync_start: "stored_chain ops db_inv s hs \<Longrightarrow> chain_new ops s = Some c \<Longrightarrow> sync_reachable ops db_inv op_ok c"
| sync_schedule: "sync_reachable ops db_inv op_ok c \<Longrightarrow> distinct (map hash headers) \<Longrightarrow>
    hash ` set headers \<inter> set (flat (hash_chain c)) = {} \<Longrightarrow>
    length (queue (bh_best (headers_chain c))) + length headers < 2 ^ 32 \<Longrightarrow>
    schedule_blocks_headers c headers = Some c' \<Longrightarrow> sync_reachable ops db_inv op_ok c'"
| sync_request: "sync_reachable ops db_inv op_ok c \<Longrightarrow> request_blocks_hashes c n = Some (hashes, c') \<Longrightarrow>
    sync_reachable ops db_inv op_ok c'"
| sync_verify: "sync_reachable ops db_inv op_ok c \<Longrightarrow> hash h \<notin> set (flat (hash_chain c)) \<Longrightarrow>
    length (queue (bh_best (headers_chain c))) + 1 < 2 ^ 32 \<Longrightarrow>
    chain_verify_block c h = Some c' \<Longrightarrow> sync_reachable ops db_inv op_ok c'"
| sync_insert: "sync_reachable ops db_inv op_ok c \<Longrightarrow>
    op_ok (Insert (BlockData (block_hash_of b) (to_raw_block b))) \<Longrightarrow>
    prev_of (kv_view ops (bdb (chain_storage c))) (block_hash_of b) = None \<Longrightarrow> block_hash_of b \<noteq> 0 \<Longrightarrow>
    unat (bb_number (best_storage_block c)) + MAX_FORK_ROUTE_PRESET + 2 < 2 ^ 32 \<Longrightarrow>
    insert_best_block ops c b = Some (c', res) \<Longrightarrow> sync_reachable ops db_inv op_ok c'"
| sync_forget: "sync_reachable ops db_inv op_ok c \<Longrightarrow> forget_block c k = Some (pos, c') \<Longrightarrow>
    sync_reachable ops db_inv op_ok c'"
| sync_forget_leave: "sync_reachable ops db_inv op_ok c \<Longrightarrow> forget_block_leave_header c k = Some (pos, c') \<Longrightarrow>
    sync_reachable ops db_inv op_ok c'"
| sync_forget_state_leave: "sync_reachable ops db_inv op_ok c \<Longrightarrow>
    forget_block_with_state_leave_header c k st = Some (pos, c') \<Longrightarrow> sync_reachable ops db_inv op_ok c'"
| sync_forget_children: "sync_reachable ops db_inv op_ok c \<Longrightarrow> forget_block_with_children c k = Some c' \<Longrightarrow>
    sync_reachable ops db_inv op_ok c'"
| sync_forget_all: "sync_reachable ops db_inv op_ok c \<Longrightarrow> forget_all_blocks_with_state c st = Some c' \<Longrightarrow>
    sync_reachable ops db_inv op_ok c'"
| sync_dead_end: "sync_reachable ops db_inv op_ok c \<Longrightarrow> sync_reachable ops db_inv op_ok (mark_dead_end_block c k)"

lemma sync_inv_schedule:
  assumes c: "sync_inv ops db_inv c hs ns" and new: "distinct (map hash headers)"
    "hash ` set headers \<inter> set (flat (hash_chain c)) = {}"
    and len: "length (queue (bh_best (headers_chain c))) + length headers < 2 ^ 32"
    and s: "schedule_blocks_headers c headers = Some c'"
  shows "\<exists>ns'. sync_inv ops db_inv c' hs ns'"
proof -
  from c obtain v r t where q: "three_queues (hash_chain c) v r t" and n: "bhc_rel (headers_chain c) ns"
    by (auto simp: sync_inv_def)
  from schedule_queue_ok [OF q new(1)] new(2) obtain t' where
    t': "hqc_push_back_n_at (hash_chain c) SCHEDULED_QUEUE (map hash headers) = Some \<lparr>queues = [v, r, t']\<rparr>"
      "three_queues \<lparr>queues = [v, r, t']\<rparr> v r t'" by auto
  with s obtain bh where bh: "bhc_insert_n (headers_chain c) headers = Some bh"
    "c' = c\<lparr>hash_chain := \<lparr>queues = [v, r, t']\<rparr>, headers_chain := bh\<rparr>"
    by (auto simp: schedule_blocks_headers_def bind_eq_Some_conv)
  have "length ns + length headers < 2 ^ 32" using len n by (simp add: bhc_rel_def)
  from bhc_insert_n_any [OF n bh(1) this] c t'(2) bh(2) show ?thesis by (auto simp: sync_inv_def)
qed

lemma sync_inv_verify:
  assumes c: "sync_inv ops db_inv c hs ns" and new: "hash h \<notin> set (flat (hash_chain c))"
    and len: "length (queue (bh_best (headers_chain c))) + 1 < 2 ^ 32"
    and s: "chain_verify_block c h = Some c'"
  shows "\<exists>ns'. sync_inv ops db_inv c' hs ns'"
proof -
  from c obtain v r t where q: "three_queues (hash_chain c) v r t" and n: "bhc_rel (headers_chain c) ns"
    by (auto simp: sync_inv_def)
  from verifying_queue_ok [OF q new] obtain v' where
    v': "hqc_push_back_at (hash_chain c) VERIFYING_QUEUE (hash h) = Some \<lparr>queues = [v', r, t]\<rparr>"
      "three_queues \<lparr>queues = [v', r, t]\<rparr> v' r t" by blast
  with s obtain bh where bh: "bhc_insert (headers_chain c) h = Some bh"
    "c' = c\<lparr>hash_chain := \<lparr>queues = [v', r, t]\<rparr>, headers_chain := bh\<rparr>"
    by (auto simp: chain_verify_block_def bind_eq_Some_conv)
  have "Suc (length ns) < 2 ^ 32" using len n by (simp add: bhc_rel_def)
  from bhc_insert_any [OF n bh(1) this] c v'(2) bh(2) show ?thesis by (auto simp: sync_inv_def)
qed

lemma sync_inv_leave:
  assumes c: "sync_inv ops db_inv c hs ns" and s: "forget_block_leave_header c k = Some (pos, c')"
  shows "sync_inv ops db_inv c' hs ns"
proof -
  from c obtain v r t where q: "three_queues (hash_chain c) v r t" by (auto simp: sync_inv_def)
  from forget_block_leave_header_ok [OF q, of k] s obtain hc v' r' t' where
    "c' = c\<lparr>hash_chain := hc\<rparr>" "three_queues hc v' r' t'" by (elim exE conjE) (rule that, simp_all)
  with c show ?thesis by (auto simp: sync_inv_def)
qed

lemma sync_inv_state_leave:
  assumes c: "sync_inv ops db_inv c hs ns" and s: "forget_block_with_state_leave_header c k st = Some (pos, c')"
  shows "sync_inv ops db_inv c' hs ns"
proof -
  from c obtain v r t where q: "three_queues (hash_chain c) v r t" by (auto simp: sync_inv_def)
  from s remove_at_ok [OF q, of k] obtain hc v' r' t' where "c' = c\<lparr>hash_chain := hc\<rparr>" "three_queues hc v' r' t'"
    by (cases st) (auto simp: forget_block_with_state_leave_header_def)
  with c show ?thesis by (auto simp: sync_inv_def)
qed

lemma sync_inv_forget_all:
  assumes c: "sync_inv ops db_inv c hs ns" and s: "forget_all_blocks_with_state c st = Some c'"
  shows "\<exists>ns'. sync_inv ops db_inv c' hs ns'"
proof -
  from c obtain v r t where q: "three_queues (hash_chain c) v r t" and n: "bhc_rel (headers_chain c) ns"
    by (auto simp: sync_inv_def)
  from s obtain i where i: "to_queue_index st = Some i"
    by (auto simp: forget_all_blocks_with_state_def bind_eq_Some_conv)
  from forget_all_queue [OF q i] obtain ks hc v' r' t' where
    ks: "hqc_remove_all_at (hash_chain c) i = Some (ks, hc)" "three_queues hc v' r' t'" by blast
  from bhc_remove_n_any [OF n, of ks] obtain bh ns' where
    bh: "bhc_remove_n (headers_chain c) ks = Some bh" "bhc_rel bh ns'"
      "storage_best_hash bh = storage_best_hash (headers_chain c)" by blast
  have "c' = c\<lparr>hash_chain := hc, headers_chain := bh\<rparr>"
    using s by (simp add: forget_all_blocks_with_state_def i ks(1) bh(1))
  with c ks(2) bh(2,3) show ?thesis by (auto simp: sync_inv_def)
qed

context block_database
begin

lemma sync_inv_new:
  assumes s: "stored_chain ops db_inv s hs" and c: "chain_new ops s = Some c"
  shows "sync_inv ops db_inv c hs []"
proof -
  note d = stored_chainD [OF s]
  have "db_block_hash ops s 0 = Some (Some (hs ! 0))" using db_block_hash_chain [OF d(1), of 0] d(2) by simp
  with c have "c = \<lparr>genesis_block_hash = hs ! 0, best_storage_block = best s, chain_storage = s,
      hash_chain = \<lparr>queues = [hq_new, hq_new, hq_new]\<rparr>, headers_chain = bhc_new (bb_hash (best s)), dead_end_blocks = {}\<rparr>"
    by (simp add: chain_new_def hqc_with_number_of_queues_def NUMBER_OF_QUEUES_def numeral_3_eq_3)
  moreover have "three_queues \<lparr>queues = [hq_new, hq_new, hq_new]\<rparr> hq_new hq_new hq_new"
    by (simp add: three_queues_def hq.inv_new hq.hashes_new)
  moreover have "bb_hash (best s) = last hs" using d(2,6) best_of_hash by simp
  ultimately show ?thesis using s bhc_new_ok by (auto simp: sync_inv_def bhc_new_def)
qed

lemma sync_inv_insert:
  assumes c: "sync_inv ops db_inv c hs ns" and ok: "op_ok (Insert (BlockData (block_hash_of b) (to_raw_block b)))"
    and new: "prev_of (kv_view ops (bdb (chain_storage c))) (block_hash_of b) = None" "block_hash_of b \<noteq> 0"
    and len: "unat (bb_number (best_storage_block c)) + MAX_FORK_ROUTE_PRESET + 2 < 2 ^ 32"
    and r: "insert_best_block ops c b = Some (c', res)"
  shows "\<exists>hs' ns'. sync_inv ops db_inv c' hs' ns'"
proof -
  have s: "stored_chain ops db_inv (chain_storage c) hs" and best: "best_storage_block c = best (chain_storage c)"
    and n: "bhc_rel (headers_chain c) ns" and g: "genesis_block_hash c = hs ! 0" using c by (auto simp: sync_inv_def)
  note d = stored_chainD [OF s]
  have "length hs < 2 ^ 32" using d(1) by (simp add: chain_inv_def chain_view_def)
  then have "unat (bb_number (best_storage_block c)) = length hs - 1" using best d(6) by (simp add: best_of_def)
  with len d(2) have "length hs + MAX_FORK_ROUTE_PRESET + 1 < 2 ^ 32" by (cases hs) simp_all
  from insert_best_block_ok [OF s this best ok new] r show ?thesis
  proof (cases res)
    case (Inl e)
    with insert_best_block_ok [OF s \<open>length hs + _ + 1 < _\<close> best ok new] r c show ?thesis by auto
  next
    case (Inr added)
    with insert_best_block_ok [OF s \<open>length hs + _ + 1 < _\<close> best ok new] r obtain hs' where
      c': "c' = c\<lparr>chain_storage := chain_storage c', best_storage_block := best (chain_storage c'),
                headers_chain := bhc_block_inserted_to_storage (headers_chain c) (block_hash_of b)
                                   (bb_hash (best (chain_storage c')))\<rparr>"
        "stored_chain ops db_inv (chain_storage c') hs'"
        "hs' = hs \<or> (\<exists>i < length hs. hs' = take (Suc i) hs @ added)" by auto
    have "hs' ! 0 = hs ! 0" using c'(3) d(2) by (cases hs) (auto simp: nth_append)
    moreover have "bb_hash (best (chain_storage c')) = last hs'"
      using stored_chainD(2,6) [OF c'(2)] best_of_hash by simp
    moreover note bhc_block_inserted_ok [OF n, of "block_hash_of b" "bb_hash (best (chain_storage c'))"]
    ultimately have "sync_inv ops db_inv c' hs'
        (if ns \<noteq> [] \<and> hash (hd ns) = block_hash_of b then tl ns else ns)"
      using c g c'(2) unfolding sync_inv_def by (subst (2 3 4 5 6) c'(1)) auto
    then show ?thesis by blast
  qed
qed

lemma sync_reachable_inv: "sync_reachable ops db_inv op_ok c \<Longrightarrow> \<exists>hs ns. sync_inv ops db_inv c hs ns"
proof (induction rule: sync_reachable.induct)
  case (sync_start s hs c)
  then show ?case using sync_inv_new by blast
next
  case (sync_schedule c headers c')
  then obtain hs ns where c: "sync_inv ops db_inv c hs ns" by blast
  from sync_inv_schedule [OF c sync_schedule.hyps(2-5)] show ?case by blast
next
  case (sync_request c n hashes c')
  then obtain hs ns where c: "sync_inv ops db_inv c hs ns" by blast
  then obtain v r t where "three_queues (hash_chain c) v r t" by (auto simp: sync_inv_def)
  from request_blocks_hashes_ok [OF this, of n] sync_request.hyps(2) obtain r' t' where
    "c' = c\<lparr>hash_chain := \<lparr>queues = [v, r', t']\<rparr>\<rparr>" "three_queues \<lparr>queues = [v, r', t']\<rparr> v r' t'" by auto
  with c show ?case by (auto simp: sync_inv_def)
next
  case (sync_verify c h c')
  then obtain hs ns where c: "sync_inv ops db_inv c hs ns" by blast
  from sync_inv_verify [OF c sync_verify.hyps(2-4)] show ?case by blast
next
  case (sync_insert c b c' res)
  then obtain hs ns where c: "sync_inv ops db_inv c hs ns" by blast
  from sync_inv_insert [OF c sync_insert.hyps(2-6)] show ?case by blast
next
  case (sync_forget c k pos c')
  then obtain hs ns where c: "sync_inv ops db_inv c hs ns" by blast
  then obtain v r t where "three_queues (hash_chain c) v r t" "bhc_rel (headers_chain c) ns" by (auto simp: sync_inv_def)
  from forget_block_ok [OF this, of k] sync_forget.hyps(2) sync_inv_forgets [OF c] show ?case by auto
next
  case (sync_forget_leave c k pos c')
  then obtain hs ns where c: "sync_inv ops db_inv c hs ns" by blast
  from sync_inv_leave [OF c sync_forget_leave.hyps(2)] show ?case by blast
next
  case (sync_forget_state_leave c k st pos c')
  then show ?case using sync_inv_state_leave by blast
next
  case (sync_forget_children c k c')
  then obtain hs ns where c: "sync_inv ops db_inv c hs ns" by blast
  then obtain v r t where "three_queues (hash_chain c) v r t" "bhc_rel (headers_chain c) ns" by (auto simp: sync_inv_def)
  from forget_block_with_children_ok [OF this, of k] sync_forget_children.hyps(2) sync_inv_forgets [OF c]
  show ?case by auto
next
  case (sync_forget_all c st c')
  then obtain hs ns where c: "sync_inv ops db_inv c hs ns" by blast
  from sync_inv_forget_all [OF c sync_forget_all.hyps(2)] show ?case by blast
next
  case (sync_dead_end c k)
  then obtain hs ns where "sync_inv ops db_inv c hs ns" by blast
  then have "sync_inv ops db_inv (mark_dead_end_block c k) hs ns"
    unfolding sync_inv_def mark_dead_end_block_def by simp
  then show ?case by blast
qed

end

section \<open>A sample chain\<close>

definition sample_headers :: "IndexedBlockHeader list" where
  "sample_headers = [header (link_block 21 8), header (link_block 22 21)]"

definition sample_sync :: "MemoryDatabase Chain" where
  "sample_sync = the (schedule_blocks_headers (the (chain_new memory_ops sample_db)) sample_headers)"

lemma sample_headers_simps:
  "map hash sample_headers = [21, 22]" "hash ` set sample_headers = {21, 22}" "headers_linked sample_headers"
  "parent_of (hd sample_headers) = 8" "length sample_headers = 2"
  by (simp_all add: sample_headers_def headers_linked_def link_block_def)

lemma sample_stored: "stored_chain memory_ops memory_inv sample_db [7, 8]"
  using sample_db_ok(1) sample_db_parents by (simp add: stored_chain_def)

lemma sample_sync_ok:
  "sync_inv memory_ops memory_inv sample_sync [7, 8] sample_headers" "flat (hash_chain sample_sync) = [21, 22]"
  "sync_reachable memory_ops memory_inv (\<lambda>_. True) sample_sync" "chain_storage sample_sync = sample_db"
proof -
  have "db_block_hash memory_ops sample_db 0 = Some (Some 7)"
    using memory_blocks.db_block_hash_chain [OF sample_db_ok(1), of 0] by simp
  then obtain c where c: "chain_new memory_ops sample_db = Some c" "flat (hash_chain c) = []" "chain_storage c = sample_db"
    by (simp add: chain_new_def hqc_with_number_of_queues_def NUMBER_OF_QUEUES_def flat_def hq_new_def)
  note inv = memory_blocks.sync_inv_new [OF sample_stored c(1)]
  from inv obtain v r t where q: "three_queues (hash_chain c) v r t" and n: "bhc_rel (headers_chain c) []"
    and b: "storage_best_hash (headers_chain c) = 8" by (auto simp: sync_inv_def)
  from schedule_queue_ok [OF q, of "[21, 22]"] c(2) obtain t' where
    t': "hqc_push_back_n_at (hash_chain c) SCHEDULED_QUEUE (map hash sample_headers) = Some \<lparr>queues = [v, r, t']\<rparr>"
      "three_queues \<lparr>queues = [v, r, t']\<rparr> v r t'" "queue t' = queue t @ [21, 22]"
    by (auto simp: sample_headers_simps)
  have "bhc_best_block_hash (headers_chain c) = 8" using bhc_best_block_hash_eq [OF n] b by simp
  with bhc_insert_n_linked [OF n sample_headers_simps(3)] obtain bh where
    bh: "bhc_insert_n (headers_chain c) sample_headers = Some bh" "bhc_rel bh sample_headers"
      "storage_best_hash bh = 8"
    using b by (auto simp: sample_headers_simps)
  let ?c = "c\<lparr>hash_chain := \<lparr>queues = [v, r, t']\<rparr>, headers_chain := bh\<rparr>"
  have s: "schedule_blocks_headers c sample_headers = Some ?c"
    by (simp add: schedule_blocks_headers_def t'(1) bh(1))
  then have eq: "sample_sync = ?c" by (simp add: sample_sync_def c(1))
  show "sync_inv memory_ops memory_inv sample_sync [7, 8] sample_headers"
    using inv t'(2) bh by (auto simp: eq sync_inv_def)
  show "flat (hash_chain sample_sync) = [21, 22]"
    using three_queues_flat [OF q] c(2) t'(3) by (simp add: eq flat_def)
  show "chain_storage sample_sync = sample_db" by (simp add: eq c(3))
  have "sync_reachable memory_ops memory_inv (\<lambda>_. True) c" by (rule sync_start [OF sample_stored c(1)])
  then show "sync_reachable memory_ops memory_inv (\<lambda>_. True) sample_sync"
    unfolding eq
    by (rule sync_schedule [OF _ _ _ _ s]) (use c(2) n in \<open>simp_all add: sample_headers_simps bhc_rel_def\<close>)
qed

section \<open>Properties\<close>

text \<open>C12: in every state synchronization can reach, the cached best block is the best block of the storage, the stored
  blocks form a canonical chain that starts with the cached genesis block, the three queues hold disjoint hashes
  without duplicates, and the headers chain is a linked list of headers that knows the best stored hash.\<close>

theorem sync_chain_invariant:
  assumes "block_database ops db_inv op_ok" "sync_reachable ops db_inv op_ok c"
  shows "\<exists>hs ns v r t. chain_inv ops db_inv (chain_storage c) hs \<and> hs \<noteq> [] \<and>
    parents_stored (prev_of (kv_view ops (bdb (chain_storage c)))) hs \<and>
    best_storage_block c = best (chain_storage c) \<and> genesis_block_hash c = hs ! 0 \<and>
    hash_chain c = \<lparr>queues = [v, r, t]\<rparr> \<and> distinct (queue v @ queue r @ queue t) \<and>
    hset v = set (queue v) \<and> hset r = set (queue r) \<and> hset t = set (queue t) \<and>
    queue (bh_best (headers_chain c)) = map hash ns \<and> headers_linked ns \<and>
    storage_best_hash (headers_chain c) = last hs"
proof -
  from block_database.sync_reachable_inv [OF assms] obtain hs ns where "sync_inv ops db_inv c hs ns" by blast
  then show ?thesis
    unfolding sync_inv_def stored_chain_def three_queues_def hq_inv_def bhc_rel_def by blast
qed

theorem sync_chain_invariant_witness:
  "\<exists>hs v r t. chain_inv memory_ops memory_inv sample_db hs \<and> hash_chain sample_sync = \<lparr>queues = [v, r, t]\<rparr> \<and>
     queue v @ queue r @ queue t = [21, 22] \<and> distinct (queue v @ queue r @ queue t)"
proof -
  from sync_chain_invariant [OF memory_blocks.block_database_axioms sample_sync_ok(3)] obtain hs v r t where
    "chain_inv memory_ops memory_inv (chain_storage sample_sync) hs" "hash_chain sample_sync = \<lparr>queues = [v, r, t]\<rparr>"
    "distinct (queue v @ queue r @ queue t)" by blast
  moreover from this(2) have "flat (hash_chain sample_sync) = queue v @ queue r @ queue t" by (simp add: flat_def)
  ultimately show ?thesis using sample_sync_ok(2,4) by metis
qed

text \<open>C13: inserting a block that is not stored never panics. An unknown parent or a too old fork is reported and
  changes nothing. Otherwise the block is stored, the canonical chain stays as it is or is cut after one of its
  blocks and continued by the reported hashes, the new block last, to a greater length, and the cached best block
  and the headers chain follow the storage.\<close>

theorem insert_best_block_correct:
  assumes "block_database ops db_inv op_ok" "stored_chain ops db_inv (chain_storage c) hs"
    and "length hs + MAX_FORK_ROUTE_PRESET + 1 < 2 ^ 32" "best_storage_block c = best (chain_storage c)"
    and "op_ok (Insert (BlockData (block_hash_of b) (to_raw_block b)))"
    and "prev_of (kv_view ops (bdb (chain_storage c))) (block_hash_of b) = None" "block_hash_of b \<noteq> 0"
  shows "\<exists>c' res. insert_best_block ops c b = Some (c', res) \<and>
    (case res of
       Inl e \<Rightarrow> c' = c \<and> block_origin ops (chain_storage c) (header b) = Some (Inl e)
     | Inr added \<Rightarrow> \<exists>hs'.
         stored_chain ops db_inv (chain_storage c') hs' \<and> best_storage_block c' = best (chain_storage c') \<and>
         storage_best_hash (headers_chain c') = last hs' \<and> hash_chain c' = hash_chain c \<and>
         blocks_view ops (chain_storage c') =
           (blocks_view ops (chain_storage c))(block_hash_of b := Some (VBlock (to_raw_block b))) \<and>
         (added = [] \<and> hs' = hs \<and> (\<exists>sc. block_origin ops (chain_storage c) (header b) = Some (Inr (SideChain sc))) \<or>
          (\<exists>i < length hs. hs' = take (Suc i) hs @ added \<and> added \<noteq> [] \<and> last added = block_hash_of b \<and>
             length hs < length hs' \<and> length added \<le> MAX_FORK_ROUTE_PRESET)))"
proof -
  from block_database.insert_best_block_ok [OF assms] obtain c' res where
    r: "insert_best_block ops c b = Some (c', res)" and res: "case res of
       Inl e \<Rightarrow> c' = c \<and> block_origin ops (chain_storage c) (header b) = Some (Inl e)
     | Inr added \<Rightarrow> \<exists>hs'.
         c' = c\<lparr>chain_storage := chain_storage c', best_storage_block := best (chain_storage c'),
                headers_chain := bhc_block_inserted_to_storage (headers_chain c) (block_hash_of b)
                                   (bb_hash (best (chain_storage c')))\<rparr> \<and>
         stored_chain ops db_inv (chain_storage c') hs' \<and>
         blocks_view ops (chain_storage c') =
           (blocks_view ops (chain_storage c))(block_hash_of b := Some (VBlock (to_raw_block b))) \<and>
         (added = [] \<and> hs' = hs \<and> (\<exists>sc. block_origin ops (chain_storage c) (header b) = Some (Inr (SideChain sc))) \<or>
          (\<exists>i < length hs. hs' = take (Suc i) hs @ added \<and> added \<noteq> [] \<and> last added = block_hash_of b \<and>
             length hs < length hs' \<and> length added \<le> MAX_FORK_ROUTE_PRESET))" by blast
  show ?thesis
  proof (cases res)
    case (Inl e)
    with r res show ?thesis by auto
  next
    case (Inr added)
    with res obtain hs' where
      c': "c' = c\<lparr>chain_storage := chain_storage c', best_storage_block := best (chain_storage c'),
                headers_chain := bhc_block_inserted_to_storage (headers_chain c) (block_hash_of b)
                                   (bb_hash (best (chain_storage c')))\<rparr>"
      and s': "stored_chain ops db_inv (chain_storage c') hs'"
      and rest: "blocks_view ops (chain_storage c') =
           (blocks_view ops (chain_storage c))(block_hash_of b := Some (VBlock (to_raw_block b)))"
         "added = [] \<and> hs' = hs \<and> (\<exists>sc. block_origin ops (chain_storage c) (header b) = Some (Inr (SideChain sc))) \<or>
          (\<exists>i < length hs. hs' = take (Suc i) hs @ added \<and> added \<noteq> [] \<and> last added = block_hash_of b \<and>
             length hs < length hs' \<and> length added \<le> MAX_FORK_ROUTE_PRESET)" by auto
    have "bb_hash (best (chain_storage c')) = last hs'"
      using block_database.stored_chainD(2,6) [OF assms(1) s'] best_of_hash by simp
    moreover have "storage_best_hash (headers_chain c') = bb_hash (best (chain_storage c'))"
      by (subst c') (simp add: bhc_block_inserted_to_storage_def Let_def)
    moreover have "best_storage_block c' = best (chain_storage c')" by (subst c') simp
    moreover have "hash_chain c' = hash_chain c" by (subst c') simp
    ultimately show ?thesis using r Inr s' rest by auto
  qed
qed

text \<open>A block on top of the side chain 9, 10 reorganizes the sample chain 7, 8.\<close>

theorem insert_best_block_correct_witness:
  "\<exists>c' added. insert_best_block memory_ops sample_sync (link_block 11 10) = Some (c', Inr added) \<and>
     last added = 11 \<and> storage_best_hash (headers_chain c') = 11"
proof -
  have len: "length [7 :: h256, 8] + MAX_FORK_ROUTE_PRESET + 1 < 2 ^ 32" by (simp add: MAX_FORK_ROUTE_PRESET_def)
  have s: "stored_chain memory_ops memory_inv (chain_storage sample_sync) [7, 8]"
    "best_storage_block sample_sync = best (chain_storage sample_sync)"
    using sample_sync_ok(1) by (simp_all add: sync_inv_def)
  have h: "block_hash_of (link_block 11 10) = 11" by (simp add: link_block_def)
  then have nz: "block_hash_of (link_block 11 10) \<noteq> 0" by simp
  have new: "prev_of (kv_view memory_ops (bdb (chain_storage sample_sync))) (block_hash_of (link_block 11 10)) = None"
    by (simp add: sample_sync_ok(4) h sample_db_prev)
  show ?thesis
    using insert_best_block_correct [OF memory_blocks.block_database_axioms s(1) len s(2) TrueI new nz]
    by (elim exE conjE, rename_tac c' res, case_tac res) (auto simp: h sample_sync_ok(4) sample_db_origin)
qed

text \<open>C14: the locator of a reachable chain never panics and lists known hashes from the newest to the oldest: it starts
  at the end of stored and queued blocks, goes strictly down, and ends with the genesis block.\<close>

theorem block_locator_correct:
  assumes "block_database ops db_inv op_ok" "sync_reachable ops db_inv op_ok c"
    and "unat (bb_number (best_storage_block c)) + length (flat (hash_chain c)) + 1 < 2 ^ 31"
  shows "\<exists>hs is. chain_inv ops db_inv (chain_storage c) hs \<and> hs ! 0 = genesis_block_hash c \<and>
    block_locator_hashes ops c = Some (map ((!) (hs @ flat (hash_chain c))) is) \<and>
    is \<noteq> [] \<and> hd is = length (hs @ flat (hash_chain c)) - 1 \<and> sorted_wrt (>) is \<and> last is = 0"
proof -
  from block_database.sync_reachable_inv [OF assms(1,2)] obtain hs ns where
    s: "stored_chain ops db_inv (chain_storage c) hs" and best: "best_storage_block c = best (chain_storage c)"
    and g: "genesis_block_hash c = hs ! 0" unfolding sync_inv_def by blast
  note d = block_database.stored_chainD [OF assms(1) s]
  have "length hs < 2 ^ 32" using d(1) assms(1) by (simp add: chain_inv_def chain_view_def)
  then have "unat (bb_number (best_storage_block c)) = length hs - 1" using best d(6) by (simp add: best_of_def)
  then have "length (hs @ flat (hash_chain c)) < 2 ^ 31" using assms(3) d(2) by (cases hs) simp_all
  from block_database.block_locator_ok [OF assms(1) s best g this] d(1) g show ?thesis by auto
qed

theorem block_locator_correct_witness:
  "\<exists>hashes. block_locator_hashes memory_ops sample_sync = Some hashes \<and> last hashes = genesis_block_hash sample_sync"
proof -
  have "unat (bb_number (best_storage_block sample_sync)) + length (flat (hash_chain sample_sync)) + 1 < 2 ^ 31"
    using sample_sync_ok(1,2,4) memory_blocks.stored_chainD(6) [OF sample_stored]
    by (simp add: sync_inv_def best_of_def)
  from block_locator_correct [OF memory_blocks.block_database_axioms sample_sync_ok(3) this] obtain hs "is" where
    i: "hs ! 0 = genesis_block_hash sample_sync" "is \<noteq> []" "last is = 0" "chain_inv memory_ops memory_inv (chain_storage sample_sync) hs"
      "block_locator_hashes memory_ops sample_sync = Some (map ((!) (hs @ flat (hash_chain sample_sync))) is)" by blast
  have "hs \<noteq> []" using i(4) sample_sync_ok(4) memory_blocks.stored_chainD(6) [OF sample_stored]
    by (cases hs) (auto simp: chain_inv_def best_of_def)
  with i show ?thesis by (auto simp: last_map nth_append)
qed

text \<open>C16: forgetting a block with its descendants terminates without panic on every reachable chain, although the loop
  follows children until there are none. It removes the block and everything after it from the headers chain, and
  exactly these hashes from the queues.\<close>

theorem forget_children_terminates:
  assumes "block_database ops db_inv op_ok" "sync_reachable ops db_inv op_ok c"
  shows "\<exists>c' ns. forget_block_with_children c k = Some c' \<and> headers_linked ns \<and>
    queue (bh_best (headers_chain c)) = map hash ns \<and>
    queue (bh_best (headers_chain c')) = map hash (takeWhile (\<lambda>h. hash h \<noteq> k) ns) \<and>
    set (flat (hash_chain c')) = set (flat (hash_chain c)) - {k} - hash ` set (dropWhile (\<lambda>h. hash h \<noteq> k) ns) \<and>
    chain_storage c' = chain_storage c"
proof -
  from block_database.sync_reachable_inv [OF assms] obtain v r t ns where
    q: "three_queues (hash_chain c) v r t" and n: "bhc_rel (headers_chain c) ns" unfolding sync_inv_def by blast
  let ?K = "insert k (hash ` set (dropWhile (\<lambda>h. hash h \<noteq> k) ns))"
  from forget_block_with_children_ok [OF q n, of k] obtain c' where
    c': "forget_block_with_children c k = Some c'" "forgets c ns ?K c'" by blast
  note cut = takeWhile_cut [OF bhc_rel_distinct [OF n], of k]
  from c'(2) have x: "bhc_rel (headers_chain c') (takeWhile (\<lambda>h. hash h \<noteq> k) ns)"
    "set (flat (hash_chain c')) = set (flat (hash_chain c)) - ?K" "chain_storage c' = chain_storage c"
    unfolding forgets_def cut by blast+
  have "A - ?K = A - {k} - hash ` set (dropWhile (\<lambda>h. hash h \<noteq> k) ns)" for A by blast
  with x(2) have "set (flat (hash_chain c')) =
    set (flat (hash_chain c)) - {k} - hash ` set (dropWhile (\<lambda>h. hash h \<noteq> k) ns)" by (simp only:)
  with c'(1) x(1,3) n show ?thesis unfolding bhc_rel_def by blast
qed

theorem forget_children_terminates_witness:
  "\<exists>c'. forget_block_with_children sample_sync 21 = Some c' \<and> queue (bh_best (headers_chain c')) = []"
  using forget_children_terminates [OF memory_blocks.block_database_axioms sample_sync_ok(3), of 21]
proof (elim exE conjE)
  fix c' ns
  assume "forget_block_with_children sample_sync 21 = Some c'" "queue (bh_best (headers_chain sample_sync)) = map hash ns"
    "queue (bh_best (headers_chain c')) = map hash (takeWhile (\<lambda>h. hash h \<noteq> 21) ns)"
  moreover from sample_sync_ok(1) have "queue (bh_best (headers_chain sample_sync)) = [21, 22]"
    by (simp add: sync_inv_def bhc_rel_def sample_headers_simps)
  ultimately show ?thesis by (cases ns) simp_all
qed

text \<open>C18: on reachable chains every hash has exactly one state, and it is the right one: verifying, requested or scheduled when
  it is in that queue, which is then the only one; otherwise stored when the storage has its block, otherwise a dead end when it
  was marked as one, otherwise unknown. The queue index of a queued state gives the state back.\<close>

theorem block_state_total:
  assumes "block_database ops db_inv op_ok" "sync_reachable ops db_inv op_ok c"
  shows "\<exists>st. block_state ops c h = Some st \<and>
    (st = Verifying \<longleftrightarrow> h \<in> set (queue (queues (hash_chain c) ! 0))) \<and>
    (st = Requested \<longleftrightarrow> h \<in> set (queue (queues (hash_chain c) ! 1))) \<and>
    (st = Scheduled \<longleftrightarrow> h \<in> set (queue (queues (hash_chain c) ! 2))) \<and>
    (case to_queue_index st of
       Some i \<Rightarrow> h \<in> set (queue (queues (hash_chain c) ! i)) \<and> i < NUMBER_OF_QUEUES \<and> from_queue_index i = Some st \<and>
         (\<forall>j < NUMBER_OF_QUEUES. h \<in> set (queue (queues (hash_chain c) ! j)) \<longrightarrow> j = i)
     | None \<Rightarrow> h \<notin> set (flat (hash_chain c)) \<and>
         st = (if prev_of (kv_view ops (bdb (chain_storage c))) h \<noteq> None then Stored
               else if h \<in> dead_end_blocks c then DeadEnd else UnknownState))"
proof -
  from block_database.sync_reachable_inv [OF assms] obtain v r t hs where
    q: "three_queues (hash_chain c) v r t" and s: "stored_chain ops db_inv (chain_storage c) hs"
    unfolding sync_inv_def by blast
  have i: "db_inv (bdb (chain_storage c))" using s by (simp add: stored_chain_def chain_inv_def)
  note c = block_database.contains_block_view [OF assms(1) i, of h] three_queues_contains [OF q, of h]
  have hc: "queues (hash_chain c) = [v, r, t]" and d: "distinct (queue v @ queue r @ queue t)"
    using q by (simp_all add: three_queues_def)
  have three: "j < 3 \<longleftrightarrow> j = 0 \<or> j = 1 \<or> j = 2" for j :: nat by auto
  consider "h \<in> set (queue v)" | "h \<in> set (queue r)" | "h \<in> set (queue t)" | "h \<notin> set (flat (hash_chain c))"
    using three_queues_flat [OF q] by auto
  then show ?thesis
    using d three_queues_flat [OF q]
    by cases (auto simp: block_state_def from_queue_index_def c hc three queue_indices)
qed

theorem block_state_total_witness:
  "\<exists>st. block_state memory_ops sample_sync 21 = Some st \<and> to_queue_index st \<noteq> None"
  using block_state_total [OF memory_blocks.block_database_axioms sample_sync_ok(3), of 21]
  by (auto simp: sample_sync_ok(2) split: option.splits)

text \<open>C27: numbers and positions of headers that are not stored yet disagree by one. A header has the number one past
  the best stored block and its position, but looking up this number gives the header after it.\<close>

theorem header_numbers_off_by_one:
  assumes "block_database ops db_inv op_ok" "sync_inv ops db_inv c hs ns"
    and "i < length ns" "hash (ns ! i) \<notin> set hs" "length hs + length ns < 2 ^ 32"
  shows "\<exists>n. chain_block_number ops c (hash (ns ! i)) = Some (Some n) \<and> unat n = length hs + i \<and>
    block_header_by_number ops c n = Some (if Suc i < length ns then Some (ns ! Suc i) else None)"
proof -
  from assms(2) have s: "stored_chain ops db_inv (chain_storage c) hs" and best: "best_storage_block c = best (chain_storage c)"
    and n: "bhc_rel (headers_chain c) ns" by (auto simp: sync_inv_def)
  note d = block_database.stored_chainD [OF assms(1) s]
  obtain m where m: "length hs = Suc m" using d(2) by (cases hs) auto
  let ?b = "bb_number (best_storage_block c)"
  have b: "?b = of_nat m" using best d(6) m by (simp add: best_of_def)
  have pos: "find_pos (hash (ns ! i)) (map hash ns) = Some i"
    using find_pos_nth [OF bhc_rel_distinct [OF n], of i] assms(3) by simp
  have "find_pos (hash (ns ! i)) hs = None" using assms(4) by (cases "find_pos (hash (ns ! i)) hs") (auto dest: find_pos_Some)
  then have "chain_block_number ops c (hash (ns ! i)) = Some (Some (of_nat m + of_nat i + 1))"
    using block_database.db_block_number_chain [OF assms(1) d(1)]
    by (simp add: chain_block_number_def bhc_queries(3) [OF n] pos b)
  moreover have u: "unat (of_nat m + of_nat i + 1 :: u32) = length hs + i"
    using unat_of_nat_u32 [of "m + i + 1"] assms(3,5) m by (simp add: ac_simps)
  moreover have "unat (of_nat m :: u32) = m" using unat_of_nat_u32 [of m] assms(5) m by simp
  then have "\<not> (of_nat m + of_nat i + 1 :: u32) \<le> of_nat m" using u m by (simp add: word_le_nat_alt)
  moreover have "unat (of_nat m + of_nat i + 1 - of_nat m :: u32) = Suc i"
    using unat_of_nat_u32 [of "i + 1"] assms(3,5) by (simp add: ac_simps)
  ultimately show ?thesis by (simp add: block_header_by_number_def b bhc_queries(1) [OF n])
qed

theorem header_numbers_off_by_one_witness:
  "\<exists>n. chain_block_number memory_ops sample_sync 21 = Some (Some n) \<and>
     block_header_by_number memory_ops sample_sync n = Some (Some (header (link_block 22 21)))"
  using header_numbers_off_by_one [OF memory_blocks.block_database_axioms sample_sync_ok(1), of 0]
  by (auto simp: sample_headers_def link_block_def)

end
