(* ===== verification/Client_Invariant.thy ===== *)
theory Client_Invariant
  imports Client_Core Sync_Invariant
begin

text \<open>
  The synchronization client never panics. The invariant of its state joins those of the synchronized chain, the
  pool of orphans, the bookkeeping of peers and the speed meters, and ties the flags that other threads read to
  the state of the client. Every handler, given an event that can occur, returns and keeps the invariant.

  Two things are assumed of the headers a node meets: different headers have different hashes, and no chain of
  parents is a cycle; the second is a rank that grows from parent to child. Sizes are assumed to stay
  below \<open>2 ^ 31\<close>.
\<close>

section \<open>Headers without cycles and collisions\<close>

definition sound_headers :: "(h256 \<Rightarrow> nat) \<Rightarrow> IndexedBlockHeader set \<Rightarrow> bool" where
  "sound_headers rank H \<longleftrightarrow> inj_on hash H \<and> (\<forall>h \<in> H. rank (parent_of h) < rank (hash h))"

lemma linked_rank:
  assumes "sound_headers rank H" "set ns \<subseteq> H"
  shows "headers_linked ns \<Longrightarrow> i < j \<Longrightarrow> j < length ns \<Longrightarrow> rank (hash (ns ! i)) < rank (hash (ns ! j))"
proof (induction j)
  case (Suc j)
  have "parent_of (ns ! Suc j) = hash (ns ! j)"
    using Suc.prems(1,3) by (simp add: headers_linked_def successively_conv_nth)
  moreover have "ns ! Suc j \<in> H" using Suc.prems(3) assms(2) nth_mem by blast
  ultimately have step: "rank (hash (ns ! j)) < rank (hash (ns ! Suc j))"
    using assms(1) by (metis sound_headers_def)
  show ?case
  proof (cases "i = j")
    case False
    then have "rank (hash (ns ! i)) < rank (hash (ns ! j))" using Suc by simp
    with step show ?thesis by simp
  qed (use step in simp)
qed simp

lemma linked_distinct_hashes:
  assumes "sound_headers rank H" "set ns \<subseteq> H" "headers_linked ns"
  shows "distinct (map hash ns)"
  unfolding distinct_conv_nth
proof (intro allI impI)
  fix i j assume "i < length (map hash ns)" "j < length (map hash ns)" "i \<noteq> j"
  then show "map hash ns ! i \<noteq> map hash ns ! j"
    using linked_rank [OF assms(1,2,3), of i j] linked_rank [OF assms(1,2,3), of j i] by (cases "i < j") auto
qed

lemma bhc_insert_sound:
  assumes H: "sound_headers rank H" "set ns \<subseteq> H" "h \<in> H" and c: "bhc_rel c ns" and len: "Suc (length ns) < 2 ^ 32"
  shows "\<exists>c' ns'. bhc_insert c h = Some c' \<and> bhc_rel c' ns' \<and> set ns' \<subseteq> H \<and>
    storage_best_hash c' = storage_best_hash c \<and> length ns' \<le> Suc (length ns)"
proof (cases "parent_of h = bhc_best_block_hash c")
  case True
  have "hash h \<notin> hash ` set ns"
  proof
    assume "hash h \<in> hash ` set ns"
    then obtain i where i: "i < length ns" "hash (ns ! i) = hash h" by (auto simp: in_set_conv_nth)
    then have last: "bhc_best_block_hash c = hash (ns ! (length ns - 1))"
      using bhc_best_block_hash_eq [OF c] by (cases "ns = []") (simp_all add: last_conv_nth)
    have "headers_linked ns" using c by (simp add: bhc_rel_def)
    note ranks = linked_rank [OF H(1,2) this, of i "length ns - 1"]
    consider "i = length ns - 1" | "i < length ns - 1" using i(1) by linarith
    then have "rank (hash (ns ! i)) \<le> rank (hash (ns ! (length ns - 1)))"
    proof cases
      case 2
      then have "length ns - 1 < length ns" by simp
      from ranks [OF 2 this] show ?thesis by simp
    qed simp
    moreover have "rank (parent_of h) < rank (hash h)" using H(1,3) by (simp add: sound_headers_def)
    ultimately show False using True last i(2) by simp
  qed
  from bhc_insert_ok [OF c this len] True obtain c' where
    c': "bhc_insert c h = Some c'" "storage_best_hash c' = storage_best_hash c" "bhc_rel c' (ns @ [h])" by auto
  with H show ?thesis by (intro exI [of _ c'] exI [of _ "ns @ [h]"]) auto
next
  case False
  then have "bhc_insert c h = Some c" by (auto simp: bhc_insert_def)
  with c H show ?thesis by (intro exI [of _ c] exI [of _ ns]) auto
qed

lemma bhc_insert_n_sound:
  "sound_headers rank H \<Longrightarrow> set ns \<subseteq> H \<Longrightarrow> set xs \<subseteq> H \<Longrightarrow> bhc_rel c ns \<Longrightarrow> length ns + length xs < 2 ^ 32 \<Longrightarrow>
   \<exists>c' ns'. bhc_insert_n c xs = Some c' \<and> bhc_rel c' ns' \<and> set ns' \<subseteq> H \<and>
     storage_best_hash c' = storage_best_hash c \<and> length ns' \<le> length ns + length xs"
proof (induction xs arbitrary: c ns)
  case (Cons x xs)
  from bhc_insert_sound [OF Cons.prems(1,2) _ Cons.prems(4), of x] Cons.prems(3,5) obtain c1 ns1 where
    1: "bhc_insert c x = Some c1" "bhc_rel c1 ns1" "set ns1 \<subseteq> H" "storage_best_hash c1 = storage_best_hash c"
      "length ns1 \<le> Suc (length ns)" by auto
  from Cons.IH [OF Cons.prems(1) 1(3) _ 1(2)] Cons.prems(3,5) 1(5) obtain c2 ns2 where
    2: "bhc_insert_n c1 xs = Some c2" "bhc_rel c2 ns2" "set ns2 \<subseteq> H" "storage_best_hash c2 = storage_best_hash c1"
      "length ns2 \<le> length ns1 + length xs" by auto
  show ?case using 1 2 by (intro exI [of _ c2] exI [of _ ns2]) simp
next
  case Nil
  then show ?case by (intro exI [of _ c] exI [of _ ns]) simp
qed

lemma bhc_remove_n_prefix:
  "bhc_rel c ns \<Longrightarrow> \<exists>c' k. bhc_remove_n c ks = Some c' \<and> bhc_rel c' (take k ns) \<and> storage_best_hash c' = storage_best_hash c"
proof (induction ks arbitrary: c ns)
  case Nil
  then show ?case by (intro exI [of _ c] exI [of _ "length ns"]) simp
next
  case (Cons k ks)
  obtain m where m: "takeWhile (\<lambda>h. hash h \<noteq> k) ns = take m ns" by (metis takeWhile_eq_take)
  from bhc_remove_ok [OF Cons.prems, of k] obtain c1 where
    1: "bhc_remove c k = Some c1" "storage_best_hash c1 = storage_best_hash c" "bhc_rel c1 (take m ns)" unfolding m by blast
  from Cons.IH [OF 1(3)] obtain c2 j where
    2: "bhc_remove_n c1 ks = Some c2" "bhc_rel c2 (take j (take m ns))" "storage_best_hash c2 = storage_best_hash c1" by blast
  show ?case using 1 2 by (intro exI [of _ c2] exI [of _ "min j m"]) (simp add: take_take)
qed

section \<open>Operations of the chain\<close>

text \<open>The state of a chain whose headers are all among \<open>H\<close>, and its size.\<close>

definition chain_ok :: "'d kv_ops \<Rightarrow> ('d \<Rightarrow> bool) \<Rightarrow> IndexedBlockHeader set \<Rightarrow> 'd Chain \<Rightarrow> bool" where
  "chain_ok ops db_inv H c \<longleftrightarrow> (\<exists>hs ns. sync_inv ops db_inv c hs ns \<and> set ns \<subseteq> H)"

definition chain_size :: "'d Chain \<Rightarrow> nat" where
  "chain_size c = unat (bb_number (best_storage_block c)) + length (flat (hash_chain c)) + length (queue (bh_best (headers_chain c)))"

definition stored_in :: "'d kv_ops \<Rightarrow> 'd Chain \<Rightarrow> h256 \<Rightarrow> bool" where
  "stored_in ops c h \<longleftrightarrow> prev_of (kv_view ops (bdb (chain_storage c))) h \<noteq> None"

lemma stored_in_view: "stored_in ops c h \<longleftrightarrow> Option.bind (blocks_view ops (chain_storage c) h) as_block \<noteq> None"
  by (simp add: stored_in_def prev_of_def blocks_view_def)

lemma chain_okE:
  assumes "chain_ok ops db_inv H c"
  obtains hs ns v r t where "sync_inv ops db_inv c hs ns" "set ns \<subseteq> H" "three_queues (hash_chain c) v r t"
    "bhc_rel (headers_chain c) ns" "stored_chain ops db_inv (chain_storage c) hs"
    "length (queue (bh_best (headers_chain c))) = length ns"
proof -
  from assms obtain hs ns where s: "sync_inv ops db_inv c hs ns" "set ns \<subseteq> H" unfolding chain_ok_def by blast
  then obtain v r t where "three_queues (hash_chain c) v r t" unfolding sync_inv_def by blast
  moreover have "bhc_rel (headers_chain c) ns" "stored_chain ops db_inv (chain_storage c) hs"
    "length (queue (bh_best (headers_chain c))) = length ns"
    using s(1) by (simp_all add: sync_inv_def bhc_rel_def)
  ultimately show ?thesis using that s by blast
qed

lemma chain_okI: "sync_inv ops db_inv c hs ns \<Longrightarrow> set ns \<subseteq> H \<Longrightarrow> chain_ok ops db_inv H c"
  unfolding chain_ok_def by blast

lemma distinct_flat: "three_queues hc v r t \<Longrightarrow> distinct (flat hc)"
  using three_queues_flat [of hc v r t] by (simp add: three_queues_def)

lemma length_flat_mono:
  assumes "three_queues hc v r t" "set (flat hc) \<subseteq> set (flat hc')"
  shows "length (flat hc) \<le> length (flat hc')"
proof -
  have "length (flat hc) = card (set (flat hc))" by (rule distinct_card [OF distinct_flat [OF assms(1)], symmetric])
  also have "\<dots> \<le> card (set (flat hc'))" by (rule card_mono [OF _ assms(2)]) simp
  also have "\<dots> \<le> length (flat hc')" by (rule card_length)
  finally show ?thesis .
qed

text \<open>Forgetting blocks.\<close>

definition all_verifying :: "'d Chain \<Rightarrow> bool" where
  "all_verifying c \<longleftrightarrow> set (flat (hash_chain c)) \<subseteq> verifying_in c"

definition shrinks :: "'d Chain \<Rightarrow> 'd Chain \<Rightarrow> bool" where
  "shrinks c c' \<longleftrightarrow> chain_storage c' = chain_storage c \<and> best_storage_block c' = best_storage_block c \<and>
     set (flat (hash_chain c')) \<subseteq> set (flat (hash_chain c)) \<and> verifying_in c' \<subseteq> verifying_in c \<and> chain_size c' \<le> chain_size c \<and>
     (all_verifying c \<longrightarrow> all_verifying c')"

lemma shrinks_refl [simp]: "shrinks c c"
  by (simp add: shrinks_def)

lemma shrinks_trans: "shrinks c d \<Longrightarrow> shrinks d e \<Longrightarrow> shrinks c e"
  unfolding shrinks_def by fastforce

lemma forgets_chain:
  assumes c: "sync_inv ops db_inv c hs ns" "set ns \<subseteq> H" and f: "forgets c ns K c'"
  shows "chain_ok ops db_inv H c'" "shrinks c c'"
proof -
  have "set (takeWhile (\<lambda>h. hash h \<notin> K) ns) \<subseteq> H" using c(2) set_takeWhileD by fastforce
  with sync_inv_forgets [OF c(1) f] show "chain_ok ops db_inv H c'" by (rule chain_okI)
  from f obtain v r t where q: "three_queues (hash_chain c') v r t"
    and s: "set (flat (hash_chain c')) \<subseteq> set (flat (hash_chain c))" by (auto simp: forgets_def)
  have "length (queue (bh_best (headers_chain c'))) \<le> length (queue (bh_best (headers_chain c)))"
    using c(1) f by (auto simp: forgets_def sync_inv_def bhc_rel_def length_takeWhile_le)
  with length_flat_mono [OF q s] f show "shrinks c c'" by (auto simp: shrinks_def chain_size_def forgets_def all_verifying_def)
qed

lemma forget_block_chain:
  assumes "chain_ok ops db_inv H c"
  shows "\<exists>pos c'. forget_block c k = Some (pos, c') \<and> chain_ok ops db_inv H c' \<and> shrinks c c'"
  using assms by (elim chain_okE) (metis forget_block_ok forgets_chain)

lemma forget_blocks_chain:
  assumes "chain_ok ops db_inv H c"
  shows "\<exists>c'. forget_blocks c ks = Some c' \<and> chain_ok ops db_inv H c' \<and> shrinks c c'"
  using assms by (elim chain_okE) (metis forget_blocks_ok forgets_chain)

lemma forget_children_chain:
  assumes "chain_ok ops db_inv H c"
  shows "\<exists>c'. forget_block_with_children c k = Some c' \<and> chain_ok ops db_inv H c' \<and> shrinks c c'"
  using assms by (elim chain_okE) (metis forget_block_with_children_ok forgets_chain)

lemma leave_header_chain:
  assumes c: "chain_ok ops db_inv H c"
  shows "\<exists>pos c'. forget_block_leave_header c k = Some (pos, c') \<and> chain_ok ops db_inv H c' \<and> shrinks c c' \<and>
    set (flat (hash_chain c')) = set (flat (hash_chain c)) - {k} \<and> verifying_in c' = verifying_in c - {k}"
proof -
  from c obtain hs ns v r t where x: "sync_inv ops db_inv c hs ns" "set ns \<subseteq> H" "three_queues (hash_chain c) v r t"
    by (rule chain_okE)
  from forget_block_leave_header_ok [OF x(3), of k] obtain pos hc v' r' t' where
    f: "forget_block_leave_header c k = Some (pos, c\<lparr>hash_chain := hc\<rparr>)" "three_queues hc v' r' t'"
      "set (flat hc) = set (flat (hash_chain c)) - {k}" "set (queue v') = set (queue v) - {k}" by (elim exE conjE) (rule that)
  have ok: "chain_ok ops db_inv H (c\<lparr>hash_chain := hc\<rparr>)" by (rule chain_okI [OF sync_inv_leave [OF x(1) f(1)] x(2)])
  have v: "verifying_in (c\<lparr>hash_chain := hc\<rparr>) = verifying_in c - {k}"
    using three_queues_verifying [OF x(3)] three_queues_verifying [of "c\<lparr>hash_chain := hc\<rparr>" v' r' t'] f(2,4) by simp
  have "length (flat hc) \<le> length (flat (hash_chain c))" by (rule length_flat_mono [OF f(2)]) (simp add: f(3) Diff_subset)
  with v f(3) have "shrinks c (c\<lparr>hash_chain := hc\<rparr>)" by (auto simp: shrinks_def chain_size_def all_verifying_def)
  with f ok v show ?thesis by (intro exI [of _ pos] exI [of _ "c\<lparr>hash_chain := hc\<rparr>"]) simp
qed

lemma leave_headers_chain:
  "chain_ok ops db_inv H c \<Longrightarrow> \<exists>c'. forget_blocks_leave_header c ks = Some c' \<and> chain_ok ops db_inv H c' \<and> shrinks c c' \<and>
    set (flat (hash_chain c')) = set (flat (hash_chain c)) - set ks \<and> verifying_in c' = verifying_in c - set ks"
proof (induction ks arbitrary: c)
  case (Cons k ks)
  from leave_header_chain [OF Cons.prems, of k] obtain pos c1 where
    1: "forget_block_leave_header c k = Some (pos, c1)" "chain_ok ops db_inv H c1" "shrinks c c1"
      "set (flat (hash_chain c1)) = set (flat (hash_chain c)) - {k}" "verifying_in c1 = verifying_in c - {k}" by blast
  from Cons.IH [OF 1(2)] obtain c2 where
    2: "forget_blocks_leave_header c1 ks = Some c2" "chain_ok ops db_inv H c2" "shrinks c1 c2"
      "set (flat (hash_chain c2)) = set (flat (hash_chain c1)) - set ks" "verifying_in c2 = verifying_in c1 - set ks" by blast
  have "set (flat (hash_chain c2)) = set (flat (hash_chain c)) - set (k # ks)"
    "verifying_in c2 = verifying_in c - set (k # ks)" unfolding 1(4,5) 2(4,5) by auto
  with 1(1) 2(1,2) shrinks_trans [OF 1(3) 2(3)] show ?case by simp
qed simp

lemma leave_headers_queues:
  "three_queues (hash_chain c) v r t \<Longrightarrow> \<exists>c' v' r' t'. forget_blocks_leave_header c ks = Some c' \<and>
    three_queues (hash_chain c') v' r' t' \<and> queue v' = filter (\<lambda>k. k \<notin> set ks) (queue v) \<and>
    queue r' = filter (\<lambda>k. k \<notin> set ks) (queue r) \<and> queue t' = filter (\<lambda>k. k \<notin> set ks) (queue t)"
proof (induction ks arbitrary: c v r t)
  case (Cons k ks)
  from forget_block_leave_header_ok [OF Cons.prems, of k] obtain pos hc v1 r1 t1 where
    1: "forget_block_leave_header c k = Some (pos, c\<lparr>hash_chain := hc\<rparr>)" "three_queues hc v1 r1 t1"
      "queue v1 = removeAll k (queue v)" "queue r1 = removeAll k (queue r)" "queue t1 = removeAll k (queue t)"
    by (elim exE conjE) (rule that)
  have "three_queues (hash_chain (c\<lparr>hash_chain := hc\<rparr>)) v1 r1 t1" using 1(2) by simp
  from Cons.IH [OF this] obtain c' v' r' t' where
    2: "forget_blocks_leave_header (c\<lparr>hash_chain := hc\<rparr>) ks = Some c'" "three_queues (hash_chain c') v' r' t'"
      "queue v' = filter (\<lambda>k. k \<notin> set ks) (queue v1)" "queue r' = filter (\<lambda>k. k \<notin> set ks) (queue r1)"
      "queue t' = filter (\<lambda>k. k \<notin> set ks) (queue t1)" by (elim exE conjE) (rule that)
  have f: "filter (\<lambda>j. j \<notin> set ks) (removeAll k xs) = filter (\<lambda>j. j \<notin> set (k # ks)) xs" for xs
    by (induction xs) auto
  show ?case using 1 2 by (intro exI [of _ c'] exI [of _ v'] exI [of _ r'] exI [of _ t']) (simp only: f, simp)
qed auto

lemma verify_blocks_queues:
  "three_queues (hash_chain c) v r t \<Longrightarrow> chain_verify_blocks c xs = Some c' \<Longrightarrow> distinct (map hash xs) \<Longrightarrow>
   hash ` set xs \<inter> set (flat (hash_chain c)) = {} \<Longrightarrow>
   \<exists>v'. hash_chain c' = \<lparr>queues = [v', r, t]\<rparr> \<and> queue v' = queue v @ map hash xs"
proof (induction xs arbitrary: c v)
  case (Cons x xs)
  from Cons.prems(2) obtain c1 where 1: "chain_verify_block c x = Some c1" "chain_verify_blocks c1 xs = Some c'"
    by (auto simp: bind_eq_Some_conv)
  from verifying_queue_ok [OF Cons.prems(1), of "hash x"] Cons.prems(4) obtain v1 where
    v1: "hqc_push_back_at (hash_chain c) VERIFYING_QUEUE (hash x) = Some \<lparr>queues = [v1, r, t]\<rparr>"
      "three_queues \<lparr>queues = [v1, r, t]\<rparr> v1 r t" "queue v1 = queue v @ [hash x]" by auto
  have h: "hash_chain c1 = \<lparr>queues = [v1, r, t]\<rparr>" using 1(1) v1(1) by (auto simp: chain_verify_block_def bind_eq_Some_conv)
  then have q: "three_queues (hash_chain c1) v1 r t" using v1(2) by simp
  have "hash ` set xs \<inter> set (flat (hash_chain c1)) = {}"
    using Cons.prems(3,4) three_queues_flat [OF Cons.prems(1)] three_queues_flat [OF q] v1(3) by auto
  from Cons.IH [OF q 1(2) _ this] Cons.prems(3) v1(3) show ?case by auto
qed (simp add: three_queues_def)

text \<open>Removing all requested or scheduled blocks empties the queue.\<close>

definition empty_queue :: "HashQueue \<Rightarrow> HashQueue" where
  "empty_queue q = q\<lparr>hset := {}, queue := []\<rparr>"

lemma empty_queue_simps [simp]: "hq_inv (empty_queue q)" "queue (empty_queue q) = []"
  by (simp_all add: empty_queue_def hq_inv_def)

lemma remove_all_queue:
  assumes "three_queues hc v r t"
  shows "hqc_remove_all_at hc REQUESTED_QUEUE = Some (queue r, \<lparr>queues = [v, empty_queue r, t]\<rparr>)"
    "three_queues \<lparr>queues = [v, empty_queue r, t]\<rparr> v (empty_queue r) t"
    "hqc_remove_all_at hc SCHEDULED_QUEUE = Some (queue t, \<lparr>queues = [v, r, empty_queue t]\<rparr>)"
    "three_queues \<lparr>queues = [v, r, empty_queue t]\<rparr> v r (empty_queue t)"
proof -
  show "hqc_remove_all_at hc REQUESTED_QUEUE = Some (queue r, \<lparr>queues = [v, empty_queue r, t]\<rparr>)"
    "hqc_remove_all_at hc SCHEDULED_QUEUE = Some (queue t, \<lparr>queues = [v, r, empty_queue t]\<rparr>)"
    by (simp_all add: hqc_remove_all_at_def hq_remove_all_def three_queues_get [OF assms] empty_queue_def)
  have inv: "hq_inv v" "hq_inv r" "hq_inv t" using assms by (simp_all add: three_queues_def)
  show "three_queues \<lparr>queues = [v, empty_queue r, t]\<rparr> v (empty_queue r) t"
    by (rule three_queues_shrink [OF assms inv(1) _ inv(3)]) simp_all
  show "three_queues \<lparr>queues = [v, r, empty_queue t]\<rparr> v r (empty_queue t)"
    by (rule three_queues_shrink [OF assms inv(1,2)]) simp_all
qed

lemma remove_all_chain:
  assumes x: "sync_inv ops db_inv c hs ns" "set ns \<subseteq> H" "bhc_rel (headers_chain c) ns"
    and r: "forget_all_blocks_with_state c st = do { bh \<leftarrow> bhc_remove_n (headers_chain c) ks; Some (c\<lparr>hash_chain := hc, headers_chain := bh\<rparr>) }"
    and q: "three_queues hc v r t" "set (flat hc) \<subseteq> set (flat (hash_chain c))" "set (queue v) = verifying_in c"
  shows "\<exists>c'. forget_all_blocks_with_state c st = Some c' \<and> chain_ok ops db_inv H c' \<and> shrinks c c' \<and> hash_chain c' = hc"
proof -
  from bhc_remove_n_prefix [OF x(3), of ks] obtain bh k where
    bh: "bhc_remove_n (headers_chain c) ks = Some bh" "bhc_rel bh (take k ns)"
      "storage_best_hash bh = storage_best_hash (headers_chain c)" by blast
  let ?c = "c\<lparr>hash_chain := hc, headers_chain := bh\<rparr>"
  have "sync_inv ops db_inv ?c hs (take k ns)" using x(1) q(1) bh(2,3) by (auto simp: sync_inv_def)
  moreover have "set (take k ns) \<subseteq> H" using x(2) set_take_subset [of k ns] by blast
  ultimately have "chain_ok ops db_inv H ?c" by (rule chain_okI)
  moreover have "length (queue (bh_best bh)) \<le> length (queue (bh_best (headers_chain c)))"
    using bh(2) x(3) by (simp add: bhc_rel_def)
  then have "chain_size ?c \<le> chain_size c" using length_flat_mono [OF q(1,2)] by (simp add: chain_size_def)
  then have "shrinks c ?c" using three_queues_verifying [of ?c v r t] q by (auto simp: shrinks_def all_verifying_def)
  ultimately show ?thesis using r bh(1) by simp
qed

lemma forget_all_chain:
  assumes c: "chain_ok ops db_inv H c" and q: "three_queues (hash_chain c) v r t"
  shows "\<exists>c'. forget_all_blocks_with_state c Requested = Some c' \<and> chain_ok ops db_inv H c' \<and> shrinks c c' \<and>
      hash_chain c' = \<lparr>queues = [v, empty_queue r, t]\<rparr>"
    "\<exists>c'. forget_all_blocks_with_state c Scheduled = Some c' \<and> chain_ok ops db_inv H c' \<and> shrinks c c' \<and>
      hash_chain c' = \<lparr>queues = [v, r, empty_queue t]\<rparr>"
proof -
  from c obtain hs ns where x: "sync_inv ops db_inv c hs ns" "set ns \<subseteq> H" "bhc_rel (headers_chain c) ns" by (rule chain_okE)
  note a = remove_all_queue [OF q]
  have "set (flat \<lparr>queues = [v, empty_queue r, t]\<rparr>) \<subseteq> set (flat (hash_chain c))"
    "set (flat \<lparr>queues = [v, r, empty_queue t]\<rparr>) \<subseteq> set (flat (hash_chain c))"
    using three_queues_flat [OF q] three_queues_flat [OF a(2)] three_queues_flat [OF a(4)] by auto
  note sub = this and v = three_queues_verifying [OF q, symmetric]
  show "\<exists>c'. forget_all_blocks_with_state c Requested = Some c' \<and> chain_ok ops db_inv H c' \<and> shrinks c c' \<and>
      hash_chain c' = \<lparr>queues = [v, empty_queue r, t]\<rparr>"
    by (rule remove_all_chain [OF x _ a(2) sub(1) v, where ks = "queue r"]) (simp add: forget_all_blocks_with_state_def a(1))
  show "\<exists>c'. forget_all_blocks_with_state c Scheduled = Some c' \<and> chain_ok ops db_inv H c' \<and> shrinks c c' \<and>
      hash_chain c' = \<lparr>queues = [v, r, empty_queue t]\<rparr>"
    by (rule remove_all_chain [OF x _ a(4) sub(2) v, where ks = "queue t"]) (simp add: forget_all_blocks_with_state_def a(3))
qed

text \<open>Adding headers and moving blocks between the queues.\<close>

definition adds :: "h256 set \<Rightarrow> h256 set \<Rightarrow> nat \<Rightarrow> 'd Chain \<Rightarrow> 'd Chain \<Rightarrow> bool" where
  "adds K V k c c' \<longleftrightarrow> chain_storage c' = chain_storage c \<and> best_storage_block c' = best_storage_block c \<and>
     set (flat (hash_chain c')) = set (flat (hash_chain c)) \<union> K \<and> verifying_in c' = verifying_in c \<union> V \<and> chain_size c' \<le> chain_size c + k"

lemma verify_block_chain:
  assumes H: "sound_headers rank H" "h \<in> H" and c: "chain_ok ops db_inv H c"
    and new: "hash h \<notin> set (flat (hash_chain c))" and len: "Suc (chain_size c) < 2 ^ 32"
  shows "\<exists>c'. chain_verify_block c h = Some c' \<and> chain_ok ops db_inv H c' \<and> adds {hash h} {hash h} 2 c c'"
proof -
  from c obtain hs ns v r t where x: "sync_inv ops db_inv c hs ns" "set ns \<subseteq> H" "three_queues (hash_chain c) v r t"
    "bhc_rel (headers_chain c) ns" "length (queue (bh_best (headers_chain c))) = length ns" by (rule chain_okE)
  from verifying_queue_ok [OF x(3) new] obtain v' where
    v': "hqc_push_back_at (hash_chain c) VERIFYING_QUEUE (hash h) = Some \<lparr>queues = [v', r, t]\<rparr>"
      "three_queues \<lparr>queues = [v', r, t]\<rparr> v' r t" "queue v' = queue v @ [hash h]" by blast
  have "Suc (length ns) < 2 ^ 32" using len x(5) by (simp add: chain_size_def)
  from bhc_insert_sound [OF H(1) x(2) H(2) x(4) this] obtain bh ns' where
    bh: "bhc_insert (headers_chain c) h = Some bh" "bhc_rel bh ns'" "set ns' \<subseteq> H"
      "storage_best_hash bh = storage_best_hash (headers_chain c)" "length ns' \<le> Suc (length ns)" by blast
  let ?c = "c\<lparr>hash_chain := \<lparr>queues = [v', r, t]\<rparr>, headers_chain := bh\<rparr>"
  have run: "chain_verify_block c h = Some ?c" by (simp add: chain_verify_block_def v'(1) bh(1))
  have "sync_inv ops db_inv ?c hs ns'" using x(1) v'(2) bh(2,4) by (auto simp: sync_inv_def)
  then have ok: "chain_ok ops db_inv H ?c" using bh(3) by (rule chain_okI)
  have flat: "flat (hash_chain c) = queue v @ queue r @ queue t" "flat \<lparr>queues = [v', r, t]\<rparr> = queue v @ [hash h] @ queue r @ queue t"
    using three_queues_flat [OF x(3)] three_queues_flat [OF v'(2)] v'(3) by simp_all
  have "length (queue (bh_best bh)) \<le> Suc (length ns)" using bh(2,5) by (simp add: bhc_rel_def)
  then have "chain_size ?c \<le> chain_size c + 2" using flat x(5) by (simp add: chain_size_def)
  moreover have "verifying_in ?c = insert (hash h) (verifying_in c)"
    using three_queues_verifying [OF x(3)] three_queues_verifying [of ?c v' r t] v'(2,3) by simp
  ultimately show ?thesis using run ok flat by (intro exI [of _ ?c]) (auto simp: adds_def)
qed

lemma verify_blocks_chain:
  "sound_headers rank H \<Longrightarrow> set xs \<subseteq> H \<Longrightarrow> chain_ok ops db_inv H c \<Longrightarrow> distinct (map hash xs) \<Longrightarrow>
   hash ` set xs \<inter> set (flat (hash_chain c)) = {} \<Longrightarrow> chain_size c + 2 * length xs < 2 ^ 32 \<Longrightarrow>
   \<exists>c'. chain_verify_blocks c xs = Some c' \<and> chain_ok ops db_inv H c' \<and> adds (hash ` set xs) (hash ` set xs) (2 * length xs) c c'"
proof (induction xs arbitrary: c)
  case (Cons x xs)
  from verify_block_chain [OF Cons.prems(1) _ Cons.prems(3), of x] Cons.prems(2,5,6) obtain c1 where
    1: "chain_verify_block c x = Some c1" "chain_ok ops db_inv H c1" "adds {hash x} {hash x} 2 c c1" by auto
  then have a: "set (flat (hash_chain c1)) = insert (hash x) (set (flat (hash_chain c)))" "chain_size c1 \<le> chain_size c + 2"
    by (auto simp: adds_def)
  have "hash ` set xs \<inter> set (flat (hash_chain c1)) = {}" using Cons.prems(4,5) a(1) by auto
  from Cons.IH [OF Cons.prems(1) _ 1(2) _ this] Cons.prems(2,4,6) a(2) obtain c2 where
    2: "chain_verify_blocks c1 xs = Some c2" "chain_ok ops db_inv H c2" "adds (hash ` set xs) (hash ` set xs) (2 * length xs) c1 c2" by auto
  have "adds (hash ` set (x # xs)) (hash ` set (x # xs)) (2 * length (x # xs)) c c2" using 1(3) 2(3) by (auto simp: adds_def)
  with 1(1) 2(1,2) show ?case by simp
qed (simp add: adds_def)

lemma schedule_chain:
  assumes H: "sound_headers rank H" "set xs \<subseteq> H" and c: "chain_ok ops db_inv H c"
    and new: "distinct (map hash xs)" "hash ` set xs \<inter> set (flat (hash_chain c)) = {}"
    and len: "chain_size c + length xs < 2 ^ 32"
  shows "\<exists>c'. schedule_blocks_headers c xs = Some c' \<and> chain_ok ops db_inv H c' \<and> adds (hash ` set xs) {} (2 * length xs) c c' \<and>
    (\<exists>v r t t'. three_queues (hash_chain c) v r t \<and> three_queues (hash_chain c') v r t' \<and> queue t' = queue t @ map hash xs)"
proof -
  from c obtain hs ns v r t where x: "sync_inv ops db_inv c hs ns" "set ns \<subseteq> H" "three_queues (hash_chain c) v r t"
    "bhc_rel (headers_chain c) ns" "length (queue (bh_best (headers_chain c))) = length ns" by (rule chain_okE)
  from schedule_queue_ok [OF x(3) new(1)] new(2) obtain t' where
    t': "hqc_push_back_n_at (hash_chain c) SCHEDULED_QUEUE (map hash xs) = Some \<lparr>queues = [v, r, t']\<rparr>"
      "three_queues \<lparr>queues = [v, r, t']\<rparr> v r t'" "queue t' = queue t @ map hash xs" by auto
  have "length ns + length xs < 2 ^ 32" using len x(5) by (simp add: chain_size_def)
  from bhc_insert_n_sound [OF H(1) x(2) H(2) x(4) this] obtain bh ns' where
    bh: "bhc_insert_n (headers_chain c) xs = Some bh" "bhc_rel bh ns'" "set ns' \<subseteq> H"
      "storage_best_hash bh = storage_best_hash (headers_chain c)" "length ns' \<le> length ns + length xs" by blast
  let ?c = "c\<lparr>hash_chain := \<lparr>queues = [v, r, t']\<rparr>, headers_chain := bh\<rparr>"
  have run: "schedule_blocks_headers c xs = Some ?c" by (simp add: schedule_blocks_headers_def t'(1) bh(1))
  have "sync_inv ops db_inv ?c hs ns'" using x(1) t'(2) bh(2,4) by (auto simp: sync_inv_def)
  then have ok: "chain_ok ops db_inv H ?c" using bh(3) by (rule chain_okI)
  have "length (queue (bh_best bh)) \<le> length ns + length xs" using bh(2,5) by (simp add: bhc_rel_def)
  then have "chain_size ?c \<le> chain_size c + 2 * length xs"
    using three_queues_flat [OF x(3)] three_queues_flat [OF t'(2)] t'(3) x(5) by (simp add: chain_size_def)
  then have "adds (hash ` set xs) {} (2 * length xs) c ?c"
    using three_queues_verifying [OF x(3)] three_queues_verifying [of ?c v r t'] three_queues_flat [OF x(3)] three_queues_flat [OF t'(2)] t'(2,3)
    by (auto simp: adds_def)
  with run ok x(3) t'(2,3) show ?thesis by (intro exI [of _ ?c]) auto
qed

lemma request_chain:
  assumes c: "chain_ok ops db_inv H c"
  shows "\<exists>hashes c'. request_blocks_hashes c n = Some (hashes, c') \<and> chain_ok ops db_inv H c' \<and> adds {} {} 0 c c'"
proof -
  from c obtain hs ns v r t where x: "sync_inv ops db_inv c hs ns" "set ns \<subseteq> H" "three_queues (hash_chain c) v r t"
    by (rule chain_okE)
  from request_blocks_hashes_ok [OF x(3), of n] obtain r' t' where
    r: "request_blocks_hashes c n = Some (take (unat n) (queue t), c\<lparr>hash_chain := \<lparr>queues = [v, r', t']\<rparr>\<rparr>)"
      "three_queues \<lparr>queues = [v, r', t']\<rparr> v r' t'" "queue r' @ queue t' = queue r @ queue t" by blast
  let ?c = "c\<lparr>hash_chain := \<lparr>queues = [v, r', t']\<rparr>\<rparr>"
  have "sync_inv ops db_inv ?c hs ns" using x(1) r(2) by (auto simp: sync_inv_def)
  then have "chain_ok ops db_inv H ?c" using x(2) by (rule chain_okI)
  moreover have "flat \<lparr>queues = [v, r', t']\<rparr> = flat (hash_chain c)"
    using three_queues_flat [OF x(3)] three_queues_flat [OF r(2)] r(3) by simp
  ultimately show ?thesis using r(1,2) three_queues_verifying [OF x(3)] three_queues_verifying [of ?c v r' t']
    by (simp add: chain_size_def adds_def)
qed

lemma length_of_state_chain:
  assumes c: "chain_ok ops db_inv H c" and st: "to_queue_index st \<noteq> None \<or> st = Stored"
  shows "\<exists>n. length_of_blocks_state c st = Some n"
proof -
  from c obtain v r t where q: "three_queues (hash_chain c) v r t" by (rule chain_okE)
  show ?thesis using st three_queues_get(1-3) [OF q] by (cases st) (simp_all add: length_of_blocks_state_def hqc_len_of_def)
qed

lemma best_requested_chain:
  assumes c: "chain_ok ops db_inv H c"
  shows "\<exists>hashes. best_n_of_blocks_state c Requested n = Some hashes"
proof -
  from c obtain v r t where q: "three_queues (hash_chain c) v r t" by (rule chain_okE)
  show ?thesis using three_queues_get(2) [OF q] by (simp add: best_n_of_blocks_state_def hqc_front_n_at_def)
qed

lemma best_header_chain:
  assumes c: "chain_ok ops db_inv H c"
  shows "\<exists>b. best_block_header c = Some b"
proof -
  from c obtain ns where n: "bhc_rel (headers_chain c) ns" by (rule chain_okE)
  then have len: "length ns < 2 ^ 32" by (simp add: bhc_rel_def)
  show ?thesis
  proof (cases ns)
    case Nil
    then show ?thesis by (simp add: best_block_header_def Let_def bhc_queries(4) [OF n])
  next
    case (Cons h t)
    have "unat (of_nat (length ns) - 1 :: u32) = length t"
      using len Cons unat_of_nat_u32 [of "length t"] by simp
    then have "bhc_at (headers_chain c) (of_nat (length ns) - 1) = Some (ns ! length t)"
      using bhc_queries(1) [OF n] Cons by simp
    then show ?thesis by (simp add: best_block_header_def Let_def bhc_queries(4) [OF n])
  qed
qed

lemma forget_verifying_chain:
  assumes c: "chain_ok ops db_inv H c"
  shows "\<exists>pos c'. forget_block_with_state_leave_header c k Verifying = Some (pos, c') \<and> chain_ok ops db_inv H c' \<and> shrinks c c' \<and>
    (pos = Missing \<longleftrightarrow> k \<notin> verifying_in c) \<and> verifying_in c' = verifying_in c - {k} \<and>
    (k \<in> verifying_in c \<longrightarrow> k \<notin> set (flat (hash_chain c')))"
proof -
  from c obtain hs ns v r t where x: "sync_inv ops db_inv c hs ns" "set ns \<subseteq> H" "three_queues (hash_chain c) v r t"
    by (rule chain_okE)
  from remove_at_ok(1) [OF x(3), of k] obtain v' where
    v': "hqc_remove_at (hash_chain c) VERIFYING_QUEUE k = Some (position_in k (queue v), \<lparr>queues = [v', r, t]\<rparr>)"
      "three_queues \<lparr>queues = [v', r, t]\<rparr> v' r t" "queue v' = remove1 k (queue v)" by blast
  let ?c = "c\<lparr>hash_chain := \<lparr>queues = [v', r, t]\<rparr>\<rparr>"
  have run: "forget_block_with_state_leave_header c k Verifying = Some (position_in k (queue v), ?c)"
    by (simp add: forget_block_with_state_leave_header_def v'(1))
  have ok: "chain_ok ops db_inv H ?c" by (rule chain_okI [OF sync_inv_state_leave [OF x(1) run] x(2)])
  have "distinct (queue v)" using x(3) by (simp add: three_queues_def)
  then have ver: "verifying_in ?c = verifying_in c - {k}" "k \<notin> verifying_in c \<longleftrightarrow> k \<notin> set (queue v)"
    using three_queues_verifying [OF x(3)] three_queues_verifying [of ?c v' r t] v'(2,3) by simp_all
  have fl: "flat (hash_chain c) = queue v @ queue r @ queue t" "flat (hash_chain ?c) = remove1 k (queue v) @ queue r @ queue t"
    using three_queues_flat [OF x(3)] three_queues_flat [OF v'(2)] v'(3) by simp_all
  have "k \<notin> set (flat (hash_chain ?c))" if "k \<in> set (queue v)" using that x(3) fl(2) by (auto simp: three_queues_def)
  moreover have "all_verifying ?c" if "all_verifying c"
    using that fl ver calculation three_queues_verifying [OF x(3)] set_remove1_subset [of k "queue v"]
    unfolding all_verifying_def by (cases "k \<in> set (queue v)") auto
  then have "shrinks c ?c" using fl ver(1) set_remove1_subset [of k "queue v"]
    by (auto simp: shrinks_def chain_size_def length_remove1)
  ultimately show ?thesis using run ok ver by simp
qed

context block_database
begin

lemma block_state_chain:
  assumes c: "chain_ok ops db_inv H c"
  shows "\<exists>st. block_state ops c h = Some st \<and> (st = Verifying \<longleftrightarrow> h \<in> verifying_in c) \<and> (st = Stored \<longleftrightarrow> h \<notin> set (flat (hash_chain c)) \<and> stored_in ops c h) \<and>
    (st = UnknownState \<or> st = DeadEnd \<longleftrightarrow> h \<notin> set (flat (hash_chain c)) \<and> \<not> stored_in ops c h)"
proof -
  from c obtain hs v r t where q: "three_queues (hash_chain c) v r t" and s: "stored_chain ops db_inv (chain_storage c) hs"
    by (rule chain_okE)
  have i: "db_inv (bdb (chain_storage c))" using s by (simp add: stored_chain_def chain_inv_def)
  note x = contains_block_view [OF i, of h] three_queues_contains [OF q, of h]
  consider "h \<in> set (queue v)" | "h \<notin> set (queue v)" "h \<in> set (queue r)" | "h \<notin> set (queue v)" "h \<notin> set (queue r)" "h \<in> set (queue t)"
    | "h \<notin> set (flat (hash_chain c))"
    using three_queues_flat [OF q] by auto
  then show ?thesis
    using three_queues_flat [OF q] three_queues_verifying [OF q]
    by cases (auto simp: block_state_def from_queue_index_def x queue_indices stored_in_def)
qed

lemma locator_chain:
  assumes c: "chain_ok ops db_inv H c" and len: "chain_size c + 1 < 2 ^ 31"
  shows "\<exists>hashes. block_locator_hashes ops c = Some hashes"
proof -
  from c obtain hs ns where x: "sync_inv ops db_inv c hs ns" by (rule chain_okE)
  then have s: "stored_chain ops db_inv (chain_storage c) hs" "best_storage_block c = best (chain_storage c)" "genesis_block_hash c = hs ! 0"
    by (simp_all add: sync_inv_def)
  note d = stored_chainD [OF s(1)]
  have "length hs < 2 ^ 32" using d(1) by (simp add: chain_inv_def chain_view_def)
  then have "unat (bb_number (best_storage_block c)) = length hs - 1" using s(2) d(6) by (simp add: best_of_def)
  then have "length (hs @ flat (hash_chain c)) < 2 ^ 31" using len d(2) by (cases hs) (simp_all add: chain_size_def)
  from block_locator_ok [OF s this] show ?thesis by blast
qed

text \<open>Storing a verified block.\<close>

lemma inserted_chain:
  assumes c: "chain_ok ops db_inv H c" "sync_inv ops db_inv c hs ns" "set ns \<subseteq> H"
    and c': "c' = c\<lparr>chain_storage := s, best_storage_block := best s,
                headers_chain := bhc_block_inserted_to_storage (headers_chain c) h (bb_hash (best s))\<rparr>"
    and s: "stored_chain ops db_inv s hs'" and zero: "hs' ! 0 = hs ! 0"
    and len: "length hs' \<le> length hs + k" "length hs < 2 ^ 32"
  shows "chain_ok ops db_inv H c'" "chain_size c' \<le> chain_size c + k" "hash_chain c' = hash_chain c"
proof -
  let ?ns = "if ns \<noteq> [] \<and> hash (hd ns) = h then tl ns else ns"
  have n: "bhc_rel (headers_chain c) ns" using c(2) by (simp add: sync_inv_def)
  note i = bhc_block_inserted_ok [OF n, of h "bb_hash (best s)"]
  have best: "bb_hash (best s) = last hs'" "bb_number (best s) = of_nat (length hs' - 1)"
    using stored_chainD(2,6) [OF s] best_of_hash by (simp_all add: best_of_def)
  have "sync_inv ops db_inv c' hs' ?ns" using c(2) c' s zero i best by (simp add: sync_inv_def)
  moreover have "set ?ns \<subseteq> H" using c(3) list.set_sel(2) by (cases ns) auto
  ultimately show "chain_ok ops db_inv H c'" by (rule chain_okI)
  have "length hs' < 2 ^ 32" using stored_chainD(1) [OF s] by (simp add: chain_inv_def chain_view_def)
  then have u: "unat (bb_number (best s)) = length hs' - 1" using best(2) by simp
  have s0: "stored_chain ops db_inv (chain_storage c) hs" using c(2) by (simp add: sync_inv_def)
  then have b: "best_storage_block c = best_of hs" "hs \<noteq> []"
    using c(2) stored_chainD(2,6) [OF s0] by (simp_all add: sync_inv_def)
  then have v: "unat (bb_number (best_storage_block c)) = length hs - 1" using len(2) by (simp add: best_of_def)
  have "length (queue (bh_best (headers_chain c'))) \<le> length (queue (bh_best (headers_chain c)))"
    using i(1) n c' by (auto simp: bhc_rel_def split: if_splits)
  then show "chain_size c' \<le> chain_size c + k" using c' u v b(2) len(1) by (cases hs) (simp_all add: chain_size_def)
  show "hash_chain c' = hash_chain c" using c' by simp
qed

lemma insert_chain:
  assumes c: "chain_ok ops db_inv H c" and ok: "op_ok (Insert (BlockData (block_hash_of b) (to_raw_block b)))"
    and new: "\<not> stored_in ops c (block_hash_of b)" "block_hash_of b \<noteq> 0" and len: "chain_size c + MAX_FORK_ROUTE_PRESET + 2 < 2 ^ 32"
  shows "\<exists>c' res. insert_best_block ops c b = Some (c', res) \<and> chain_ok ops db_inv H c' \<and>
    chain_size c' \<le> chain_size c + MAX_FORK_ROUTE_PRESET \<and> hash_chain c' = hash_chain c \<and>
    (case res of
       Inl e \<Rightarrow> c' = c \<and> block_origin ops (chain_storage c) (header b) = Some (Inl e)
     | Inr _ \<Rightarrow> \<forall>h. stored_in ops c' h \<longleftrightarrow> h = block_hash_of b \<or> stored_in ops c h)"
proof -
  from c obtain hs ns where x: "sync_inv ops db_inv c hs ns" "set ns \<subseteq> H" "bhc_rel (headers_chain c) ns" by (rule chain_okE)
  then have s: "stored_chain ops db_inv (chain_storage c) hs" "best_storage_block c = best (chain_storage c)" "genesis_block_hash c = hs ! 0"
    by (simp_all add: sync_inv_def)
  note d = stored_chainD [OF s(1)]
  have "length hs < 2 ^ 32" using d(1) by (simp add: chain_inv_def chain_view_def)
  then have best: "unat (bb_number (best_storage_block c)) = length hs - 1" using s(2) d(6) by (simp add: best_of_def)
  have l: "length hs + MAX_FORK_ROUTE_PRESET + 1 < 2 ^ 32" using len best d(2) by (cases hs) (simp_all add: chain_size_def)
  have n: "prev_of (kv_view ops (bdb (chain_storage c))) (block_hash_of b) = None" using new(1) by (simp add: stored_in_def)
  from insert_best_block_ok [OF s(1) l s(2) ok n new(2)] obtain c' res where
    r: "insert_best_block ops c b = Some (c', res)" and res: "case res of
       Inl e \<Rightarrow> c' = c \<and> block_origin ops (chain_storage c) (header b) = Some (Inl e)
     | Inr added \<Rightarrow> \<exists>hs'.
         c' = c\<lparr>chain_storage := chain_storage c', best_storage_block := best (chain_storage c'),
                headers_chain := bhc_block_inserted_to_storage (headers_chain c) (block_hash_of b)
                                   (bb_hash (best (chain_storage c')))\<rparr> \<and>
         stored_chain ops db_inv (chain_storage c') hs' \<and>
         blocks_view ops (chain_storage c') =
           (blocks_view ops (chain_storage c))(block_hash_of b := Some (VBlock (to_raw_block b))) \<and>
         (added = [] \<and> hs' = hs \<and> (\<exists>sc. block_origin ops (chain_storage c) (header b) = Some (Inr (SideChain sc))) \<or>
          (\<exists>i < length hs. hs' = take (Suc i) hs @ added \<and> added \<noteq> [] \<and> last added = block_hash_of b \<and>
             length hs < length hs' \<and> length added \<le> MAX_FORK_ROUTE_PRESET))" by (elim exE conjE) (rule that)
  show ?thesis
  proof (cases res)
    case (Inl e)
    with r res c show ?thesis by auto
  next
    case (Inr added)
    with res obtain hs' where
      c': "c' = c\<lparr>chain_storage := chain_storage c', best_storage_block := best (chain_storage c'),
                headers_chain := bhc_block_inserted_to_storage (headers_chain c) (block_hash_of b)
                                   (bb_hash (best (chain_storage c')))\<rparr>"
      and s': "stored_chain ops db_inv (chain_storage c') hs'"
      and view: "blocks_view ops (chain_storage c') =
           (blocks_view ops (chain_storage c))(block_hash_of b := Some (VBlock (to_raw_block b)))"
      and grow: "added = [] \<and> hs' = hs \<or> (\<exists>i < length hs. hs' = take (Suc i) hs @ added \<and> length added \<le> MAX_FORK_ROUTE_PRESET)"
      by auto
    have h0: "hs' ! 0 = hs ! 0" using grow d(2) by (cases hs) (auto simp: nth_append)
    have lh: "length hs' \<le> length hs + MAX_FORK_ROUTE_PRESET" using grow by auto
    have "stored_in ops c' h \<longleftrightarrow> h = block_hash_of b \<or> stored_in ops c h" for h
      by (simp add: stored_in_view view)
    with inserted_chain [OF c x(1,2) c' s' h0 lh \<open>length hs < 2 ^ 32\<close>] r Inr show ?thesis by simp
  qed
qed

end

section \<open>Orphans\<close>

definition pool_size :: "OrphanBlocksPool \<Rightarrow> nat" where
  "pool_size pool = card (snd ` pool_blocks pool)"

lemma finite_pool_blocks [simp]: "finite (pool_blocks pool)"
proof -
  have "pool_blocks pool \<subseteq> (\<Union>(p, m) \<in> set (orphaned_blocks pool). Pair p ` snd ` set m)"
    by (force simp: pool_blocks_iff dest!: map_of_SomeD)
  then show ?thesis by (rule finite_subset) auto
qed

text \<open>When blocks with the same hash have the same parent, removed descendants have different hashes.\<close>

definition hash_parents :: "(h256 \<times> IndexedBlock) set \<Rightarrow> bool" where
  "hash_parents B \<longleftrightarrow> (\<forall>p b q c. (p, b) \<in> B \<longrightarrow> (q, c) \<in> B \<longrightarrow> block_hash_of b = block_hash_of c \<longrightarrow> p = q)"

lemma remove_for_parent_distinct:
  "pool_inv pool \<Longrightarrow> hash_parents (pool_blocks pool) \<Longrightarrow> remove_for_parent_loop pool q removed = (removed', pool') \<Longrightarrow>
   \<exists>r. removed' = removed @ r \<and> distinct (map block_hash_of r)"
proof (induction pool q removed rule: remove_for_parent_loop.induct)
  case (2 pool p q removed)
  show ?case
  proof (cases "map_of (orphaned_blocks pool) p")
    case None
    with "2.IH"(1) [OF None "2.prems"(1,2)] "2.prems"(3) show ?thesis by simp
  next
    case (Some m)
    let ?pool = "pool\<lparr>orphaned_blocks := AList.delete p (orphaned_blocks pool),
        unknown_blocks := fold AList.delete (map fst m) (unknown_blocks pool)\<rparr>"
    note inv = pool_inv_take [OF "2.prems"(1) Some] and B = pool_blocks_delete [where pool = pool and p = p]
    have "hash_parents (pool_blocks ?pool)" using "2.prems"(2) unfolding B hash_parents_def by blast
    moreover have run: "remove_for_parent_loop ?pool (q @ map fst m) (removed @ map snd m) = (removed', pool')"
      using "2.prems"(3) Some by simp
    ultimately obtain r where r: "removed' = removed @ map snd m @ r" "distinct (map block_hash_of r)"
      using "2.IH"(2) [OF Some inv] by auto
    from remove_for_parent_loop_ok [OF inv run] r(1) have "set r \<subseteq> {b. \<exists>h. descends (pool_blocks ?pool) h b}" by auto
    then have sub: "\<exists>s. (s, b) \<in> pool_blocks ?pool" if "b \<in> set r" for b using descends_block that by blast
    have sib: "siblings_ok p m" by (rule pool_inv_siblings [OF "2.prems"(1) Some])
    then have "map (block_hash_of \<circ> snd) m = map fst m" by (auto simp: siblings_ok_def)
    then have d: "distinct (map block_hash_of (map snd m))" using sib unfolding siblings_ok_def map_map by metis
    have "block_hash_of b \<noteq> block_hash_of b'" if b: "b \<in> snd ` set m" and b': "b' \<in> set r" for b b'
    proof
      assume eq: "block_hash_of b = block_hash_of b'"
      have "(p, b) \<in> pool_blocks pool" using b Some by (simp add: pool_blocks_iff)
      moreover obtain s where "(s, b') \<in> pool_blocks pool" "s \<noteq> p" using sub [OF b'] unfolding B by blast
      ultimately show False using "2.prems"(2) eq unfolding hash_parents_def by metis
    qed
    then have "distinct (map block_hash_of (map snd m @ r))" using d r(2) by fastforce
    with r(1) show ?thesis by blast
  qed
qed simp

lemma descends_insert_child: "descends B h b \<longleftrightarrow> (\<exists>p. (p, b) \<in> B \<and> (p = h \<or> (\<exists>c. descends B h c \<and> p = block_hash_of c)))"
  by (auto intro: descends.intros elim: descends.cases)

text \<open>Removing the descendants of a block from a pool whose headers are sound.\<close>

definition pool_ok :: "IndexedBlockHeader set \<Rightarrow> OrphanBlocksPool \<Rightarrow> bool" where
  "pool_ok H pool \<longleftrightarrow> pool_inv pool \<and> header ` snd ` pool_blocks pool \<subseteq> H"

lemma pool_ok_hash_parents:
  assumes "sound_headers rank H" "pool_ok H pool"
  shows "hash_parents (pool_blocks pool)"
  unfolding hash_parents_def
proof (intro allI impI)
  fix p b q c assume x: "(p, b) \<in> pool_blocks pool" "(q, c) \<in> pool_blocks pool" "block_hash_of b = block_hash_of c"
  then have "header b \<in> H" "header c \<in> H" using assms(2) unfolding pool_ok_def by force+
  then have "header b = header c" using assms(1) x(3) by (auto simp: sound_headers_def inj_on_def)
  moreover have "p = parent_of (header b)" "q = parent_of (header c)"
    using pool_blocks_parent x(1,2) assms(2) unfolding pool_ok_def by metis+
  ultimately show "p = q" by simp
qed

lemma descends_rank:
  assumes "sound_headers rank H" "pool_ok H pool"
  shows "descends (pool_blocks pool) h b \<Longrightarrow> rank h < rank (block_hash_of b)"
proof (induction rule: descends.induct)
  case (child h b)
  then have "header b \<in> H" "h = parent_of (header b)"
    using pool_blocks_parent assms(2) unfolding pool_ok_def by force+
  then show ?case using assms(1) by (simp add: sound_headers_def)
next
  case (below h b c)
  then have "header c \<in> H" "block_hash_of b = parent_of (header c)"
    using pool_blocks_parent assms(2) unfolding pool_ok_def by force+
  then show ?case using assms(1) below.IH by (force simp: sound_headers_def)
qed

lemma remove_descendants:
  assumes H: "sound_headers rank H" and pool: "pool_ok H pool" and r: "remove_blocks_for_parent pool (block_hash_of b) = (removed, pool')"
  shows "pool_ok H pool'" "distinct (map block_hash_of (b # removed))" "header ` set removed \<subseteq> H"
    "pool_size pool' + length removed = pool_size pool" "pool_blocks pool' \<subseteq> pool_blocks pool"
    "set removed \<subseteq> snd ` pool_blocks pool"
proof -
  have inv: "pool_inv pool" using pool by (simp add: pool_ok_def)
  note ok = remove_blocks_for_parent_ok [OF inv r]
  show sub: "pool_blocks pool' \<subseteq> pool_blocks pool" unfolding ok(3) by blast
  show rem: "set removed \<subseteq> snd ` pool_blocks pool" unfolding ok(2) by (auto simp: image_iff Bex_def dest: descends_block)
  have h: "header ` snd ` pool_blocks pool \<subseteq> H" using pool by (simp add: pool_ok_def)
  show "header ` set removed \<subseteq> H" by (rule order_trans [OF image_mono [OF rem] h])
  show "pool_ok H pool'" unfolding pool_ok_def using ok(1) order_trans [OF image_mono [OF image_mono [OF sub]] h] by simp
  have "remove_for_parent_loop pool [block_hash_of b] [] = (removed, pool')" using r unfolding remove_blocks_for_parent_def .
  from remove_for_parent_distinct [OF inv pool_ok_hash_parents [OF H pool] this] have d: "distinct (map block_hash_of removed)"
    by simp
  have "block_hash_of b \<noteq> block_hash_of x" if "x \<in> set removed" for x
    using descends_rank [OF H pool, of "block_hash_of b" x] that unfolding ok(2) by auto
  with d show "distinct (map block_hash_of (b # removed))" by auto
  have "length removed = card (set removed)" using d by (simp add: distinct_card distinct_map)
  moreover have "snd ` pool_blocks pool' = snd ` pool_blocks pool - set removed" unfolding ok(2,3) by (auto simp: image_iff)
  moreover have "card (set removed) \<le> card (snd ` pool_blocks pool)" by (rule card_mono [OF _ rem]) simp
  ultimately show "pool_size pool' + length removed = pool_size pool" by (simp add: pool_size_def card_Diff_subset [OF _ rem])
qed

section \<open>Chain and pool together\<close>

text \<open>
  A block is connected when it is stored or being verified. Queued blocks are not stored; an orphan is not connected,
  nor is its parent.
\<close>

definition is_connected :: "'d kv_ops \<Rightarrow> 'd Chain \<Rightarrow> h256 \<Rightarrow> bool" where
  "is_connected ops c h \<longleftrightarrow> stored_in ops c h \<or> h \<in> verifying_in c"

definition chain_part :: "'d kv_ops \<Rightarrow> ('d \<Rightarrow> bool) \<Rightarrow> IndexedBlockHeader set \<Rightarrow> 'd Chain \<Rightarrow> OrphanBlocksPool \<Rightarrow> bool" where
  "chain_part ops db_inv H c pool \<longleftrightarrow> chain_ok ops db_inv H c \<and> pool_ok H pool \<and>
     (\<forall>h. h \<in> set (flat (hash_chain c)) \<longrightarrow> \<not> stored_in ops c h) \<and>
     (\<forall>p b. (p, b) \<in> pool_blocks pool \<longrightarrow> \<not> is_connected ops c p \<and> \<not> is_connected ops c (block_hash_of b))"

definition parts_size :: "'d Chain \<Rightarrow> OrphanBlocksPool \<Rightarrow> nat" where
  "parts_size c pool = chain_size c + 2 * pool_size pool"

lemma chain_partD:
  assumes "chain_part ops db_inv H c pool"
  shows "chain_ok ops db_inv H c" "pool_ok H pool" "h \<in> set (flat (hash_chain c)) \<Longrightarrow> \<not> stored_in ops c h"
    "(p, b) \<in> pool_blocks pool \<Longrightarrow> \<not> is_connected ops c p" "(p, b) \<in> pool_blocks pool \<Longrightarrow> \<not> is_connected ops c (block_hash_of b)"
  using assms unfolding chain_part_def by blast+

lemma chain_partI:
  assumes "chain_ok ops db_inv H c" "pool_ok H pool" "\<And>h. h \<in> set (flat (hash_chain c)) \<Longrightarrow> \<not> stored_in ops c h"
    "\<And>p b. (p, b) \<in> pool_blocks pool \<Longrightarrow> \<not> is_connected ops c p"
    "\<And>p b. (p, b) \<in> pool_blocks pool \<Longrightarrow> \<not> is_connected ops c (block_hash_of b)"
  shows "chain_part ops db_inv H c pool"
  unfolding chain_part_def by (intro conjI allI impI assms)

lemma stored_in_cong: "chain_storage c' = chain_storage c \<Longrightarrow> stored_in ops c' h = stored_in ops c h"
  by (simp add: stored_in_def)

lemma pool_size_mono: "pool_blocks pool' \<subseteq> pool_blocks pool \<Longrightarrow> pool_size pool' \<le> pool_size pool"
  unfolding pool_size_def by (rule card_mono) (auto intro: image_mono)

lemma connected_shrinks: "shrinks c c' \<Longrightarrow> is_connected ops c' h \<Longrightarrow> is_connected ops c h"
  unfolding is_connected_def shrinks_def stored_in_def by (elim conjE) (metis subsetD)

lemma chain_part_shrink:
  assumes c: "chain_part ops db_inv H c pool" and c': "chain_ok ops db_inv H c'" "shrinks c c'"
    and pool: "pool_inv pool'" "pool_blocks pool' \<subseteq> pool_blocks pool"
  shows "chain_part ops db_inv H c' pool'" "parts_size c' pool' \<le> parts_size c pool"
proof -
  have h: "header ` snd ` pool_blocks pool \<subseteq> H" using chain_partD(2) [OF c] by (simp add: pool_ok_def)
  have p: "pool_ok H pool'" unfolding pool_ok_def
    by (intro conjI pool(1) order_trans [OF image_mono [OF image_mono [OF pool(2)]] h])
  have st: "stored_in ops c' h = stored_in ops c h" for h using c'(2) by (simp add: shrinks_def stored_in_def)
  have fl: "set (flat (hash_chain c')) \<subseteq> set (flat (hash_chain c))" using c'(2) by (simp only: shrinks_def)
  show "chain_part ops db_inv H c' pool'"
  proof (rule chain_partI [OF c'(1) p])
    fix q b assume "(q, b) \<in> pool_blocks pool'"
    then have "(q, b) \<in> pool_blocks pool" by (rule subsetD [OF pool(2)])
    note n = chain_partD(4,5) [OF c this]
    show "\<not> is_connected ops c' q" by (rule contrapos_nn [OF n(1)]) (rule connected_shrinks [OF c'(2)])
    show "\<not> is_connected ops c' (block_hash_of b)" by (rule contrapos_nn [OF n(2)]) (rule connected_shrinks [OF c'(2)])
  next
    fix h assume "h \<in> set (flat (hash_chain c'))"
    then show "\<not> stored_in ops c' h" unfolding st by (intro chain_partD(3) [OF c] subsetD [OF fl])
  qed
  show "parts_size c' pool' \<le> parts_size c pool"
    using c'(2) pool_size_mono [OF pool(2)] by (simp add: shrinks_def parts_size_def)
qed

lemma chain_part_forget:
  assumes c: "chain_part ops db_inv H c pool" and c': "chain_ok ops db_inv H c'" "shrinks c c'"
  shows "chain_part ops db_inv H c' pool" "parts_size c' pool \<le> parts_size c pool"
proof -
  have "pool_inv pool" using chain_partD(2) [OF c] by (simp add: pool_ok_def)
  from chain_part_shrink [OF c c' this order_refl]
  show "chain_part ops db_inv H c' pool" "parts_size c' pool \<le> parts_size c pool" .
qed

lemma chain_part_adds:
  assumes c: "chain_part ops db_inv H c pool" and c': "chain_ok ops db_inv H c'" "adds K {} k c c'"
    and K: "\<And>h. h \<in> K \<Longrightarrow> \<not> stored_in ops c h"
  shows "chain_part ops db_inv H c' pool" "parts_size c' pool \<le> parts_size c pool + k"
proof -
  have st: "stored_in ops c' h = stored_in ops c h" for h using c'(2) by (simp add: adds_def stored_in_def)
  have con: "is_connected ops c' h = is_connected ops c h" for h using c'(2) by (simp add: is_connected_def adds_def stored_in_def)
  have fl: "set (flat (hash_chain c')) = set (flat (hash_chain c)) \<union> K" using c'(2) by (simp only: adds_def)
  show "chain_part ops db_inv H c' pool"
  proof (rule chain_partI [OF c'(1) chain_partD(2) [OF c]])
    fix h assume "h \<in> set (flat (hash_chain c'))"
    then show "\<not> stored_in ops c' h" unfolding st fl using chain_partD(3) [OF c, of h] K [of h] by blast
  next
    fix q b assume "(q, b) \<in> pool_blocks pool"
    from chain_partD(4,5) [OF c this] show "\<not> is_connected ops c' q" "\<not> is_connected ops c' (block_hash_of b)" unfolding con .
  qed
  show "parts_size c' pool \<le> parts_size c pool + k" using c'(2) by (simp add: adds_def parts_size_def)
qed

text \<open>An orphan enters the pool.\<close>

lemma Collect_case_prod_subset: "{(r, x). (r, x) \<in> A \<and> P r x} \<subseteq> A"
  by auto

lemma chain_part_orphan:
  assumes c: "chain_part ops db_inv H c pool" and b: "header b \<in> H" "\<not> is_connected ops c (block_hash_of b)" "\<not> is_connected ops c (parent_of (header b))"
    and pool: "pool_inv pool'" "pool_blocks pool' = pool_blocks (insert_orphaned_block pool b)"
  shows "chain_part ops db_inv H c pool'" "parts_size c pool' \<le> parts_size c pool + 2"
proof -
  have inv: "pool_inv pool" "header ` snd ` pool_blocks pool \<subseteq> H" using chain_partD(2) [OF c] by (simp_all add: pool_ok_def)
  have sub: "pool_blocks pool' \<subseteq> insert (parent_of (header b), b) (pool_blocks pool)"
    unfolding pool(2) pool_blocks_insert [OF inv(1) refl] by (rule insert_mono) (rule Collect_case_prod_subset)
  have "header ` snd ` pool_blocks pool' \<subseteq> insert (header b) (header ` snd ` pool_blocks pool)"
    using image_mono [OF image_mono [OF sub], of header snd] by simp
  also have "\<dots> \<subseteq> H" using inv(2) b(1) by simp
  finally have ok: "pool_ok H pool'" unfolding pool_ok_def by (intro conjI pool(1))
  show "chain_part ops db_inv H c pool'"
  proof (rule chain_partI [OF chain_partD(1) [OF c] ok])
    fix q x assume "(q, x) \<in> pool_blocks pool'"
    from subsetD [OF sub this] consider "q = parent_of (header b)" "x = b" | "(q, x) \<in> pool_blocks pool" by auto
    then have "\<not> is_connected ops c q \<and> \<not> is_connected ops c (block_hash_of x)"
    proof cases
      case 2
      from chain_partD(4,5) [OF c this] show ?thesis by (rule conjI)
    qed (simp only: b simp_thms)
    then show "\<not> is_connected ops c q" "\<not> is_connected ops c (block_hash_of x)" by simp_all
  qed (rule chain_partD(3) [OF c])
  have "snd ` pool_blocks pool' \<subseteq> insert b (snd ` pool_blocks pool)" using image_mono [OF sub, of snd] by simp
  then have "card (snd ` pool_blocks pool') \<le> card (insert b (snd ` pool_blocks pool))" by (intro card_mono) simp_all
  also have "\<dots> \<le> Suc (card (snd ` pool_blocks pool))" by (simp add: card_insert_if)
  finally show "parts_size c pool' \<le> parts_size c pool + 2" by (simp add: parts_size_def pool_size_def)
qed

text \<open>A block with a connected parent is connected, together with its descendants in the pool.\<close>

lemma not_descending:
  assumes H: "sound_headers rank H" and pool: "pool_ok H pool" and x: "(q, x) \<in> pool_blocks pool" "\<not> descends (pool_blocks pool) h x"
  shows "q \<noteq> h" "descends (pool_blocks pool) h d \<Longrightarrow> q \<noteq> block_hash_of d"
    "descends (pool_blocks pool) h d \<Longrightarrow> block_hash_of x \<noteq> block_hash_of d"
proof -
  show "q \<noteq> h" using x descends.child by metis
  show d: "q \<noteq> block_hash_of d" if "descends (pool_blocks pool) h d" for d using x that descends.below by metis
  assume desc: "descends (pool_blocks pool) h d"
  then obtain p where p: "(p, d) \<in> pool_blocks pool" "p = h \<or> (\<exists>e. descends (pool_blocks pool) h e \<and> p = block_hash_of e)"
    using descends_insert_child [of "pool_blocks pool" h d] by blast
  show "block_hash_of x \<noteq> block_hash_of d"
  proof
    assume "block_hash_of x = block_hash_of d"
    then have "q = p" using pool_ok_hash_parents [OF H pool] x(1) p(1) unfolding hash_parents_def by blast
    with p(2) d \<open>q \<noteq> h\<close> show False by blast
  qed
qed

lemma chain_part_connected:
  assumes H: "sound_headers rank H" and c: "chain_part ops db_inv H c pool" and b: "header b \<in> H"
    and con: "\<not> is_connected ops c (block_hash_of b)" "is_connected ops c (parent_of (header b))"
    and r: "remove_blocks_for_parent pool (block_hash_of b) = (orphans, pool')" and c': "chain_ok ops db_inv H c'"
    and st: "chain_storage c' = chain_storage c" and v: "verifying_in c' = verifying_in c \<union> block_hash_of ` set (b # orphans)"
    and fl: "set (flat (hash_chain c')) = set (flat (hash_chain c)) \<union> block_hash_of ` set (b # orphans)"
  shows "chain_part ops db_inv H c' pool'"
proof -
  have pool: "pool_ok H pool" "pool_inv pool" using chain_partD(2) [OF c] by (simp_all add: pool_ok_def)
  note rd = remove_descendants [OF H pool(1) r] and ok = remove_blocks_for_parent_ok [OF pool(2) r]
  let ?K = "block_hash_of ` set (b # orphans)"
  have con': "is_connected ops c' h \<longleftrightarrow> is_connected ops c h \<or> h \<in> ?K" for h
    unfolding is_connected_def stored_in_def st v by (simp only: Un_iff disj_assoc)
  have new: "\<not> is_connected ops c h" if "h \<in> ?K" for h
  proof -
    from that consider "h = block_hash_of b" | d where "d \<in> set orphans" "h = block_hash_of d" by auto
    then show ?thesis
    proof cases
      case 2
      from subsetD [OF rd(6) this(1)] obtain q where "(q, d) \<in> pool_blocks pool" by auto
      from chain_partD(5) [OF c this] 2(2) show ?thesis by simp
    qed (simp add: con)
  qed
  show ?thesis
  proof (rule chain_partI [OF c' rd(1)])
    fix h assume "h \<in> set (flat (hash_chain c'))"
    then show "\<not> stored_in ops c' h" using chain_partD(3) [OF c, of h] new [of h]
      unfolding fl is_connected_def stored_in_def st by blast
  next
    fix q x assume "(q, x) \<in> pool_blocks pool'"
    then have x: "(q, x) \<in> pool_blocks pool" "\<not> descends (pool_blocks pool) (block_hash_of b) x" unfolding ok(3) by simp_all
    note n = not_descending [OF H pool(1) x]
    have desc: "descends (pool_blocks pool) (block_hash_of b) d" if "d \<in> set orphans" for d using that unfolding ok(2) by simp
    have "q \<notin> ?K" using n(1,2) desc by auto
    then show "\<not> is_connected ops c' q" unfolding con' using chain_partD(4) [OF c x(1)] by simp
    have "header x \<in> H" "q = parent_of (header x)" using x(1) pool pool_blocks_parent unfolding pool_ok_def by force+
    then have "block_hash_of x \<noteq> block_hash_of b"
      using H b con(2) chain_partD(4) [OF c x(1)] unfolding sound_headers_def inj_on_def by metis
    then have "block_hash_of x \<notin> ?K" using n(3) desc by auto
    then show "\<not> is_connected ops c' (block_hash_of x)" unfolding con' using chain_partD(5) [OF c x(1)] by simp
  qed
qed

lemma chain_part_connect:
  assumes H: "sound_headers rank H" and c: "chain_part ops db_inv H c pool" and b: "header b \<in> H"
    and con: "\<not> is_connected ops c (block_hash_of b)" "is_connected ops c (parent_of (header b))"
    and r: "remove_blocks_for_parent pool (block_hash_of b) = (orphans, pool')" and len: "parts_size c pool + 2 < 2 ^ 32"
  shows "\<exists>c1 c2. forget_blocks_leave_header c (map block_hash_of (b # orphans)) = Some c1 \<and>
    chain_verify_blocks c1 (map header (b # orphans)) = Some c2 \<and> chain_part ops db_inv H c2 pool' \<and>
    parts_size c2 pool' \<le> parts_size c pool + 2 \<and> best_storage_block c2 = best_storage_block c \<and>
    verifying_in c2 = verifying_in c \<union> block_hash_of ` set (b # orphans) \<and> (all_verifying c \<longrightarrow> all_verifying c2)"
proof -
  let ?K = "block_hash_of ` set (b # orphans)"
  have pool: "pool_ok H pool" "pool_inv pool" using chain_partD(2) [OF c] by (simp_all add: pool_ok_def)
  note rd = remove_descendants [OF H pool(1) r] and ok = remove_blocks_for_parent_ok [OF pool(2) r]
  from leave_headers_chain [OF chain_partD(1) [OF c], of "map block_hash_of (b # orphans)"] obtain c1 where
    1: "forget_blocks_leave_header c (map block_hash_of (b # orphans)) = Some c1" "chain_ok ops db_inv H c1" "shrinks c c1"
      "set (flat (hash_chain c1)) = set (flat (hash_chain c)) - set (map block_hash_of (b # orphans))"
      "verifying_in c1 = verifying_in c - set (map block_hash_of (b # orphans))" by (elim exE conjE) (rule that)
  have K: "set (map block_hash_of (b # orphans)) = ?K" "hash ` set (map header (b # orphans)) = ?K" by (simp_all add: image_image)
  have "set (map header (b # orphans)) \<subseteq> H" using b rd(3) by simp
  moreover have "distinct (map hash (map header (b # orphans)))" using rd(2) by (simp add: comp_def)
  moreover have "hash ` set (map header (b # orphans)) \<inter> set (flat (hash_chain c1)) = {}" unfolding 1(4) K by (rule Diff_disjoint)
  moreover have size: "chain_size c1 + 2 * length (map header (b # orphans)) + 2 * pool_size pool' \<le> parts_size c pool + 2"
    using 1(3) rd(4) by (simp add: parts_size_def shrinks_def)
  then have "chain_size c1 + 2 * length (map header (b # orphans)) < 2 ^ 32" using len by linarith
  ultimately obtain c2 where
    2: "chain_verify_blocks c1 (map header (b # orphans)) = Some c2" "chain_ok ops db_inv H c2"
      "adds ?K ?K (2 * length (map header (b # orphans))) c1 c2"
    using verify_blocks_chain [OF H _ 1(2), of "map header (b # orphans)"] unfolding K by blast
  have st: "chain_storage c2 = chain_storage c" "best_storage_block c2 = best_storage_block c"
    using 1(3) 2(3) by (simp_all add: adds_def shrinks_def)
  have v: "verifying_in c2 = verifying_in c \<union> ?K" using 2(3) unfolding adds_def 1(5) K by blast
  have fl: "set (flat (hash_chain c2)) = set (flat (hash_chain c)) \<union> ?K" using 2(3) unfolding adds_def 1(4) K by blast
  have "chain_size c2 \<le> chain_size c1 + 2 * length (map header (b # orphans))" using 2(3) by (simp only: adds_def)
  with size have "parts_size c2 pool' \<le> parts_size c pool + 2" unfolding parts_size_def by linarith
  moreover have "all_verifying c \<longrightarrow> all_verifying c2" unfolding all_verifying_def v fl by blast
  ultimately show ?thesis using chain_part_connected [OF H c b con r 2(2) st(1) v fl] 1(1) 2(1) st(2) v by blast
qed

text \<open>A verified block moves from the verifying queue to the store.\<close>

lemma verifying_queued: "chain_ok ops db_inv H c \<Longrightarrow> h \<in> verifying_in c \<Longrightarrow> h \<in> set (flat (hash_chain c))"
  by (elim chain_okE) (simp add: three_queues_verifying three_queues_flat)

context block_database
begin

lemma chain_part_store:
  assumes c: "chain_part ops db_inv H c pool" and ok: "op_ok (Insert (BlockData (block_hash_of b) (to_raw_block b)))"
    and b: "block_hash_of b \<in> verifying_in c" "block_hash_of b \<noteq> 0" "block_origin ops (chain_storage c) (header b) = Some (Inr origin)"
    and len: "parts_size c pool + MAX_FORK_ROUTE_PRESET + 2 < 2 ^ 32"
  shows "\<exists>pos c1 c2 added. forget_block_with_state_leave_header c (block_hash_of b) Verifying = Some (pos, c1) \<and> pos \<noteq> Missing \<and>
    insert_best_block ops c1 b = Some (c2, Inr added) \<and> chain_part ops db_inv H c2 pool \<and>
    parts_size c2 pool \<le> parts_size c pool + MAX_FORK_ROUTE_PRESET \<and> (all_verifying c \<longrightarrow> all_verifying c2) \<and>
    stored_in ops c2 (block_hash_of b)"
proof -
  let ?h = "block_hash_of b"
  note cok = chain_partD(1) [OF c]
  from forget_verifying_chain [OF cok, of ?h] obtain pos c1 where
    1: "forget_block_with_state_leave_header c ?h Verifying = Some (pos, c1)" "chain_ok ops db_inv H c1" "shrinks c c1"
      "pos = Missing \<longleftrightarrow> ?h \<notin> verifying_in c" "verifying_in c1 = verifying_in c - {?h}"
      "?h \<in> verifying_in c \<longrightarrow> ?h \<notin> set (flat (hash_chain c1))" by (elim exE conjE) (rule that)
  have st1: "chain_storage c1 = chain_storage c" "chain_size c1 \<le> chain_size c" using 1(3) by (simp_all add: shrinks_def)
  have new: "\<not> stored_in ops c1 ?h"
    using chain_partD(3) [OF c verifying_queued [OF cok b(1)]] by (simp add: stored_in_def st1(1))
  have "chain_size c1 + MAX_FORK_ROUTE_PRESET + 2 < 2 ^ 32" using len st1(2) by (simp add: parts_size_def)
  from insert_chain [OF 1(2) ok new b(2) this] obtain c2 res where
    2: "insert_best_block ops c1 b = Some (c2, res)" "chain_ok ops db_inv H c2"
      "chain_size c2 \<le> chain_size c1 + MAX_FORK_ROUTE_PRESET" "hash_chain c2 = hash_chain c1"
    and res: "case res of Inl e \<Rightarrow> c2 = c1 \<and> block_origin ops (chain_storage c1) (header b) = Some (Inl e)
       | Inr _ \<Rightarrow> \<forall>h. stored_in ops c2 h \<longleftrightarrow> h = ?h \<or> stored_in ops c1 h" by (elim exE conjE) (rule that)
  from res b(3) obtain added where added: "res = Inr added" by (cases res) (simp_all add: st1(1))
  have st: "stored_in ops c2 h \<longleftrightarrow> h = ?h \<or> stored_in ops c h" for h
    using res by (simp add: added stored_in_def st1(1))
  have v: "verifying_in c2 = verifying_in c - {?h}" using 1(5) 2(4) by (simp add: verifying_in_def)
  then have con: "is_connected ops c2 h \<longleftrightarrow> is_connected ops c h" for h using b(1) by (auto simp: is_connected_def st)
  have "chain_part ops db_inv H c2 pool"
  proof (rule chain_partI [OF 2(2) chain_partD(2) [OF c]])
    fix h assume h: "h \<in> set (flat (hash_chain c2))"
    then have "h \<in> set (flat (hash_chain c))" using 1(3) unfolding 2(4) shrinks_def by blast
    moreover have "h \<noteq> ?h" using h 1(6) b(1) unfolding 2(4) by blast
    ultimately show "\<not> stored_in ops c2 h" unfolding st using chain_partD(3) [OF c, of h] by simp
  next
    fix q x assume "(q, x) \<in> pool_blocks pool"
    from chain_partD(4,5) [OF c this] show "\<not> is_connected ops c2 q" "\<not> is_connected ops c2 (block_hash_of x)" unfolding con .
  qed
  moreover have "parts_size c2 pool \<le> parts_size c pool + MAX_FORK_ROUTE_PRESET" using 2(3) st1(2) by (simp add: parts_size_def)
  moreover have "all_verifying c \<longrightarrow> all_verifying c2"
    using 1(3) 2(4) unfolding shrinks_def all_verifying_def verifying_in_def by simp
  ultimately show ?thesis using 1(1,4) b(1) 2(1) added st by blast
qed

end

end
