(* ===== verification/Sync_Manager.thy ===== *)
theory Sync_Manager
  imports Client_Core
begin

text \<open>
  The management worker of the synchronization (\<^verbatim>\<open>sync/src/synchronization_manager.rs\<close>), which punishes stalled peers,
  asks others for their blocks and limits the pool of unknown orphans. A round of its loop is one step; the thread,
  its timer and its stop flag are not modelled.
\<close>

section \<open>Configuration\<close>

definition DEFAULT_NEW_PEER_BLOCK_FAILURE_INTERVAL_MS :: u32 where
  "DEFAULT_NEW_PEER_BLOCK_FAILURE_INTERVAL_MS = 5 * 1000"
definition DEFAULT_NEW_PEER_HEADERS_FAILURE_INTERVAL_MS :: u32 where
  "DEFAULT_NEW_PEER_HEADERS_FAILURE_INTERVAL_MS = 5 * 1000"
definition DEFAULT_TRUSTED_PEER_BLOCK_FAILURE_INTERVAL_MS :: u32 where
  "DEFAULT_TRUSTED_PEER_BLOCK_FAILURE_INTERVAL_MS = 20 * 1000"
definition DEFAULT_TRUSTED_PEER_HEADERS_FAILURE_INTERVAL_MS :: u32 where
  "DEFAULT_TRUSTED_PEER_HEADERS_FAILURE_INTERVAL_MS = 20 * 1000"
definition DEFAULT_UNKNOWN_BLOCK_REMOVAL_TIME_MS :: u32 where
  "DEFAULT_UNKNOWN_BLOCK_REMOVAL_TIME_MS = 20 * 60 * 1000"
definition DEFAULT_UNKNOWN_BLOCKS_MAX_LEN :: nat where
  "DEFAULT_UNKNOWN_BLOCKS_MAX_LEN = 16"

record ManagePeersConfig =
  new_block_failure_interval_ms :: u32
  new_headers_failure_interval_ms :: u32
  trusted_block_failure_interval_ms :: u32
  trusted_headers_failure_interval_ms :: u32

definition manage_peers_default :: ManagePeersConfig where
  "manage_peers_default =
     \<lparr>new_block_failure_interval_ms = DEFAULT_NEW_PEER_BLOCK_FAILURE_INTERVAL_MS,
      new_headers_failure_interval_ms = DEFAULT_NEW_PEER_HEADERS_FAILURE_INTERVAL_MS,
      trusted_block_failure_interval_ms = DEFAULT_TRUSTED_PEER_BLOCK_FAILURE_INTERVAL_MS,
      trusted_headers_failure_interval_ms = DEFAULT_TRUSTED_PEER_HEADERS_FAILURE_INTERVAL_MS\<rparr>"

record ManageUnknownBlocksConfig =
  removal_time_ms :: u32
  max_number :: nat

definition manage_unknown_default :: ManageUnknownBlocksConfig where
  "manage_unknown_default =
     \<lparr>removal_time_ms = DEFAULT_UNKNOWN_BLOCK_REMOVAL_TIME_MS, max_number = DEFAULT_UNKNOWN_BLOCKS_MAX_LEN\<rparr>"

section \<open>Stalled peers\<close>

definition is_trusted :: "PeersTasks \<Rightarrow> PeerIndex \<Rightarrow> bool" where
  "is_trusted pt i = (case stats pt i of Some s \<Rightarrow> ps_trust s = Trusted | None \<Rightarrow> False)"

definition seconds :: "u32 \<Rightarrow> real" where
  "seconds ms = real (unat ms) / 1000"

text \<open>One stalled peer: its request is taken back, and its blocks are divided.\<close>

definition handle_stalled ::
  "PeerIndex \<Rightarrow> PeersImpl \<Rightarrow> PeersTasks \<Rightarrow> (h256 list \<times> h256 list \<times> wire \<times> PeersImpl \<times> PeersTasks) option" where
  "handle_stalled i ps pt =
     do { let (failed_blocks, pt) = reset_blocks_tasks pt i;
          let (pt, normal_blocks, failed_blocks) = on_blocks_failure pt failed_blocks;
          let (pt, bad) = on_peer_block_failure pt i;
          if bad then do { pt \<leftarrow> unuseful_peer pt i; let (ps, w) = peers_misbehaving ps i;
                           Some (normal_blocks, failed_blocks, w, ps, pt) }
          else Some (normal_blocks, failed_blocks, [], ps, pt) }"

fun manage_blocks_loop ::
  "ManagePeersConfig \<Rightarrow> real \<Rightarrow> (PeerIndex \<times> BlocksRequest) list \<Rightarrow> PeersImpl \<Rightarrow> PeersTasks \<Rightarrow>
   (h256 list \<times> h256 list \<times> wire \<times> PeersImpl \<times> PeersTasks) option" where
  "manage_blocks_loop cfg now [] ps pt = Some ([], [], [], ps, pt)"
| "manage_blocks_loop cfg now ((i, request) # rest) ps pt =
     (let interval = (if is_trusted pt i then trusted_block_failure_interval_ms cfg else new_block_failure_interval_ms cfg)
      in if now - br_timestamp request \<le> seconds interval then Some ([], [], [], ps, pt)
         else do {
           (normal_blocks, failed_blocks, w, ps, pt) \<leftarrow> handle_stalled i ps pt;
           (to_request, to_forget, w', ps, pt) \<leftarrow> manage_blocks_loop cfg now rest ps pt;
           Some (normal_blocks @ to_request, failed_blocks @ to_forget, w @ w', ps, pt) })"

definition manage_synchronization_peers_blocks ::
  "ManagePeersConfig \<Rightarrow> real \<Rightarrow> PeersImpl \<Rightarrow> PeersTasks \<Rightarrow>
   (h256 list \<times> h256 list \<times> wire \<times> PeersImpl \<times> PeersTasks) option" where
  "manage_synchronization_peers_blocks cfg now ps pt = manage_blocks_loop cfg now (blocks_requests pt) ps pt"

fun manage_headers_loop ::
  "ManagePeersConfig \<Rightarrow> real \<Rightarrow> (PeerIndex \<times> HeadersRequest) list \<Rightarrow> PeersImpl \<Rightarrow> PeersTasks \<Rightarrow> wire \<times> PeersImpl \<times> PeersTasks" where
  "manage_headers_loop cfg now [] ps pt = ([], ps, pt)"
| "manage_headers_loop cfg now ((i, request) # rest) ps pt =
     (let interval = (if is_trusted pt i then trusted_headers_failure_interval_ms cfg else new_headers_failure_interval_ms cfg)
      in if now - hr_timestamp request \<le> seconds interval then ([], ps, pt)
         else if (case get_blocks_tasks pt i of Some t \<Rightarrow> t \<noteq> [] | None \<Rightarrow> False)
         then manage_headers_loop cfg now rest ps pt
         else let (pt, bad) = on_peer_headers_failure pt i;
                  (ps, w) = (if bad then peers_misbehaving ps i else (ps, []));
                  (w', ps, pt) = manage_headers_loop cfg now rest ps pt
              in (w @ w', ps, pt))"

definition manage_synchronization_peers_headers ::
  "ManagePeersConfig \<Rightarrow> real \<Rightarrow> PeersImpl \<Rightarrow> PeersTasks \<Rightarrow> wire \<times> PeersImpl \<times> PeersTasks" where
  "manage_synchronization_peers_headers cfg now ps pt = manage_headers_loop cfg now (headers_requests pt) ps pt"

section \<open>Unknown orphans\<close>

fun unknown_to_remove_loop :: "real \<Rightarrow> real \<Rightarrow> nat \<Rightarrow> (h256 \<times> real) list \<Rightarrow> h256 list" where
  "unknown_to_remove_loop limit now remove_num [] = []"
| "unknown_to_remove_loop limit now remove_num ((h, t) # rest) =
     (if remove_num > 0 then h # unknown_to_remove_loop limit now (remove_num - 1) rest
      else if now - t \<le> limit then []
      else h # unknown_to_remove_loop limit now remove_num rest)"

definition manage_unknown_orphaned_blocks ::
  "ManageUnknownBlocksConfig \<Rightarrow> real \<Rightarrow> OrphanBlocksPool \<Rightarrow> h256 list option \<times> OrphanBlocksPool" where
  "manage_unknown_orphaned_blocks cfg now pool =
     (let to_remove = unknown_to_remove_loop (seconds (removal_time_ms cfg)) now
                        (length (unknown_blocks pool) - max_number cfg) (unknown_blocks pool);
          (removed, pool) = remove_blocks pool to_remove
      in (if removed = [] then None else Some removed, pool))"

section \<open>The worker\<close>

definition none_if_empty :: "'a list \<Rightarrow> 'a list option" where
  "none_if_empty xs = (if xs = [] then None else Some xs)"

definition manage_syncing :: "'d env \<Rightarrow> 'd Core \<Rightarrow> 'd Core option" where
  "manage_syncing E c =
     do { (to_request, to_forget, w, ps, pt) \<leftarrow>
            manage_synchronization_peers_blocks manage_peers_default (e_now E) (core_peers c) (peers_tasks c);
          let c = c\<lparr>core_peers := ps, peers_tasks := pt, log := (log c)\<lparr>closed := closed (log c) @ w\<rparr>\<rparr>;
          c \<leftarrow> forget_failed_blocks to_forget c;
          c \<leftarrow> execute_synchronization_tasks E (none_if_empty to_request) (none_if_empty to_forget) c;
          let (w, ps, pt) =
            manage_synchronization_peers_headers manage_peers_default (e_now E) (core_peers c) (peers_tasks c);
          Some (c\<lparr>core_peers := ps, peers_tasks := pt, log := (log c)\<lparr>closed := closed (log c) @ w\<rparr>\<rparr>) }"

definition manage_saturated :: "'d env \<Rightarrow> 'd Core \<Rightarrow> 'd Core option" where
  "manage_saturated E c =
     (let (orphans, pool) = manage_unknown_orphaned_blocks manage_unknown_default (e_now E) (orphaned_blocks_pool c);
          c = c\<lparr>orphaned_blocks_pool := pool\<rparr>
      in case orphans of
           None \<Rightarrow> Some c
         | Some hashes \<Rightarrow> do { chain \<leftarrow> forget_blocks (core_chain c) hashes; Some (c\<lparr>core_chain := chain\<rparr>) })"

definition manage_round :: "'d env \<Rightarrow> 'd Core \<Rightarrow> 'd Core option" where
  "manage_round E c =
     (let c = print_synchronization_information E c
      in if is_synchronizing_state (core_state c) \<or> is_nearly_saturated (core_state c)
         then manage_syncing E c else manage_saturated E c)"

section \<open>Stalled requests are taken back\<close>

definition stalled :: "ManagePeersConfig \<Rightarrow> real \<Rightarrow> PeersTasks \<Rightarrow> PeerIndex \<times> BlocksRequest \<Rightarrow> bool" where
  "stalled cfg now pt = (\<lambda>(i, request). now - br_timestamp request >
     seconds (if is_trusted pt i then trusted_block_failure_interval_ms cfg else new_block_failure_interval_ms cfg))"

lemma stalled_cong: "is_trusted a = is_trusted b \<Longrightarrow> stalled cfg now a = stalled cfg now b"
  by (simp add: stalled_def)

lemma is_trusted_cong: "stats a = stats b \<Longrightarrow> is_trusted a = is_trusted b"
  by (simp add: is_trusted_def fun_eq_iff)

lemma block_failed_frame:
  "block_failed p h = (p', b) \<Longrightarrow>
   stats p' = stats p \<and> blocks_requests p' = blocks_requests p \<and> all_peers p' = all_peers p"
  by (auto simp: block_failed_def Let_def split: if_splits)

lemma on_blocks_failure_frame:
  "on_blocks_failure p hs = (p', n, f) \<Longrightarrow>
   stats p' = stats p \<and> blocks_requests p' = blocks_requests p \<and> all_peers p' = all_peers p"
proof (induction hs arbitrary: p p' n f)
  case (Cons h hs)
  obtain p1 b where 1: "block_failed p h = (p1, b)" by force
  obtain p2 n' f' where 2: "on_blocks_failure p1 hs = (p2, n', f')" by (metis prod_cases3)
  have "p' = p2" using Cons.prems 1 2 by (auto split: if_splits)
  with Cons.IH [OF 2] block_failed_frame [OF 1] show ?case by simp
qed simp

lemma penalize_trust: "penalize p i = (p', b) \<Longrightarrow> is_trusted p' = is_trusted p"
  by (auto simp: penalize_def is_trusted_def fun_eq_iff split: option.splits if_splits)

lemma unuseful_peer_stats: "unuseful_peer p i = Some p' \<Longrightarrow> i \<in> set (all_peers p) \<Longrightarrow> stats p' = stats p"
  by (auto simp: unuseful_peer_def split: if_splits)

lemma delete_absent: "k \<notin> fst ` set xs \<Longrightarrow> AList.delete k xs = xs"
  unfolding AList.delete_eq by (rule filter_True) force

lemma handle_stalled_ok:
  assumes inv: "pt_inv pt" and r: "blocks_requests pt = (i, request) # rest"
  shows "\<exists>normal failed w ps' pt'. handle_stalled i ps pt = Some (normal, failed, w, ps', pt') \<and> pt_inv pt' \<and>
    blocks_requests pt' = rest \<and> is_trusted pt' = is_trusted pt \<and> mset normal + mset failed = mset (br_blocks request) \<and>
    fst ` set w \<subseteq> {i} \<and> set (all_peers pt') = set (all_peers pt)"
proof -
  obtain hashes pt1 where 1: "reset_blocks_tasks pt i = (hashes, pt1)" by force
  obtain pt2 normal failed where 2: "on_blocks_failure pt1 hashes = (pt2, normal, failed)" by (metis prod_cases3)
  obtain pt3 bad where 3: "penalize pt2 i = (pt3, bad)" by force
  note ok1 = reset_blocks_tasks_ok [OF inv 1] and f2 = on_blocks_failure_frame [OF 2]
  note ok2 = on_blocks_failure_ok [OF ok1(1) 2]
  note ok3 = penalize_ok [OF conjunct1 [OF ok2] 3] and t3 = penalize_trust [OF 3]
  have req: "requests_ok (set (all_peers pt) - set (unuseful pt) - set (idle_for_blocks pt)) ((i, request) # rest)"
    using inv unfolding pt_inv_def r by simp
  then have i: "i \<in> set (all_peers pt)" "i \<notin> fst ` set rest" by (auto simp: requests_ok_def)
  have rest: "blocks_requests pt3 = rest"
    using 1 f2 ok3 i(2) r by (auto simp: reset_blocks_tasks_def delete_absent)
  have hashes: "hashes = br_blocks request" using ok1(3) r by (simp add: get_blocks_tasks_def)
  have "stats pt1 = stats pt" using 1 by (auto simp: reset_blocks_tasks_def)
  then have "is_trusted pt2 = is_trusted pt" using f2 by (intro is_trusted_cong) simp
  with t3 have trust: "is_trusted pt3 = is_trusted pt" by simp
  have all: "all_peers pt3 = all_peers pt" using ok3 f2 ok1(4) by simp
  have none: "map_of (blocks_requests pt3) i = None" using rest i(2) by (simp add: map_of_eq_None_iff)
  obtain pt4 where 4: "unuseful_peer pt3 i = Some pt4" "pt_inv pt4" "blocks_requests pt4 = rest"
      "set (all_peers pt4) = set (all_peers pt)"
    using unuseful_peer_ok [OF conjunct1 [OF ok3], of i] none rest i(1) all by (auto simp: insert_absorb)
  have trust4: "is_trusted pt4 = is_trusted pt"
    using unuseful_peer_stats [OF 4(1)] i(1) all trust is_trusted_cong [of pt4 pt3] by simp
  obtain ps' w where m: "peers_misbehaving ps i = (ps', w)" by force
  then have w: "fst ` set w \<subseteq> {i}" by (auto simp: peers_misbehaving_def split: if_splits)
  note run = handle_stalled_def 1 2 on_peer_block_failure_def 3
  show ?thesis
  proof (cases bad)
    case True
    then have "handle_stalled i ps pt = Some (normal, failed, w, ps', pt4)" by (simp add: run 4(1) m)
    with 4 trust4 w ok2 hashes show ?thesis by blast
  next
    case False
    then have "handle_stalled i ps pt = Some (normal, failed, [], ps, pt3)" by (simp add: run)
    with ok3 rest trust ok2 hashes all show ?thesis by auto
  qed
qed

lemma manage_blocks_loop_ok:
  assumes "pt_inv pt" "blocks_requests pt = rs"
  shows "\<exists>to_request to_forget w ps' pt'. manage_blocks_loop cfg now rs ps pt = Some (to_request, to_forget, w, ps', pt') \<and>
    pt_inv pt' \<and> blocks_requests pt' = dropWhile (stalled cfg now pt) rs \<and>
    mset to_request + mset to_forget = mset (concat (map (\<lambda>(i, r). br_blocks r) (takeWhile (stalled cfg now pt) rs))) \<and>
    fst ` set w \<subseteq> fst ` set (takeWhile (stalled cfg now pt) rs) \<and> set (all_peers pt') = set (all_peers pt)"
  using assms
proof (induction rs arbitrary: ps pt)
  case (Cons x rest)
  obtain i request where x: "x = (i, request)" by force
  show ?case
  proof (cases "stalled cfg now pt (i, request)")
    case True
    from handle_stalled_ok [OF Cons.prems(1), of i request rest ps] Cons.prems(2) x obtain normal failed w ps1 pt1 where
      1: "handle_stalled i ps pt = Some (normal, failed, w, ps1, pt1)" "pt_inv pt1" "blocks_requests pt1 = rest"
        "is_trusted pt1 = is_trusted pt" "mset normal + mset failed = mset (br_blocks request)"
        "fst ` set w \<subseteq> {i}" "set (all_peers pt1) = set (all_peers pt)" by blast
    have st: "stalled cfg now pt1 = stalled cfg now pt" by (rule stalled_cong [OF 1(4)])
    from Cons.IH [OF 1(2,3), of ps1] obtain req forg w' ps2 pt2 where
      2: "manage_blocks_loop cfg now rest ps1 pt1 = Some (req, forg, w', ps2, pt2)" "pt_inv pt2"
        "blocks_requests pt2 = dropWhile (stalled cfg now pt) rest"
        "mset req + mset forg = mset (concat (map (\<lambda>(i, r). br_blocks r) (takeWhile (stalled cfg now pt) rest)))"
        "fst ` set w' \<subseteq> fst ` set (takeWhile (stalled cfg now pt) rest)" "set (all_peers pt2) = set (all_peers pt1)"
      unfolding st by blast
    have "manage_blocks_loop cfg now (x # rest) ps pt = Some (normal @ req, failed @ forg, w @ w', ps2, pt2)"
      using True 1(1) 2(1) by (simp add: x stalled_def not_le)
    moreover have "mset (normal @ req) + mset (failed @ forg) =
        mset (concat (map (\<lambda>(i, r). br_blocks r) (takeWhile (stalled cfg now pt) (x # rest))))"
      using True 1(5) 2(4) by (simp add: x flip: 1(5) 2(4))
    moreover have "fst ` set (w @ w') \<subseteq> fst ` set (takeWhile (stalled cfg now pt) (x # rest))"
      using True 1(6) 2(5) by (auto simp: x)
    ultimately show ?thesis using True 2(2,3,6) 1(7) by (simp add: x)
  next
    case False
    then have "manage_blocks_loop cfg now (x # rest) ps pt = Some ([], [], [], ps, pt)" by (simp add: x stalled_def)
    with False Cons.prems show ?thesis by (simp add: x)
  qed
qed simp

text \<open>C30: managing the peers never panics. It takes back the requests of the stalled peers at the front of the queue of
  requests and of no other peer; every block they were asked for is either asked for again or given up, none twice;
  only stalled peers are disconnected.\<close>

theorem stalled_requests_taken_back:
  assumes "peers_reachable pt"
  shows "\<exists>to_request to_forget w ps' pt'.
    manage_synchronization_peers_blocks cfg now ps pt = Some (to_request, to_forget, w, ps', pt') \<and> pt_inv pt' \<and>
    blocks_requests pt' = dropWhile (stalled cfg now pt) (blocks_requests pt) \<and>
    mset to_request + mset to_forget =
      mset (concat (map (\<lambda>(i, r). br_blocks r) (takeWhile (stalled cfg now pt) (blocks_requests pt)))) \<and>
    fst ` set w \<subseteq> {i. \<exists>r. (i, r) \<in> set (blocks_requests pt) \<and> stalled cfg now pt (i, r)}"
proof -
  have sub: "fst ` set (takeWhile (stalled cfg now pt) rs) \<subseteq> {i. \<exists>r. (i, r) \<in> set rs \<and> stalled cfg now pt (i, r)}" for rs
  proof
    fix i assume "i \<in> fst ` set (takeWhile (stalled cfg now pt) rs)"
    then obtain r where "(i, r) \<in> set (takeWhile (stalled cfg now pt) rs)" by (elim imageE) (metis prod.collapse)
    from set_takeWhileD [OF this] show "i \<in> {i. \<exists>r. (i, r) \<in> set rs \<and> stalled cfg now pt (i, r)}"
      by (intro CollectI exI)
  qed
  from manage_blocks_loop_ok [OF peers_reachable_inv [OF assms] refl, of cfg now ps] obtain to_request to_forget w ps' pt' where
    r: "manage_blocks_loop cfg now (blocks_requests pt) ps pt = Some (to_request, to_forget, w, ps', pt')" "pt_inv pt'"
      "blocks_requests pt' = dropWhile (stalled cfg now pt) (blocks_requests pt)"
      "mset to_request + mset to_forget =
        mset (concat (map (\<lambda>(i, r). br_blocks r) (takeWhile (stalled cfg now pt) (blocks_requests pt))))"
      "fst ` set w \<subseteq> fst ` set (takeWhile (stalled cfg now pt) (blocks_requests pt))" by (elim exE conjE) (rule that)
  show ?thesis
    unfolding manage_synchronization_peers_blocks_def r(1)
    by (intro exI conjI, rule refl, rule r(2), rule r(3), rule r(4), rule subset_trans [OF r(5) sub])
qed

lemma sample_peers_requests:
  "blocks_requests sample_peers = [(5, \<lparr>br_timestamp = 0, br_blocks = [12, 11]\<rparr>)]" "is_trusted sample_peers 5 = False"
  by (simp_all add: sample_peers_def useful_peer_def peers_tasks_default_def peer_stats_new_def is_trusted_def
      with_inspect_items_def BLOCKS_TO_INSPECT_def on_blocks_requested_def blocks_request_new_def update_stats_def
      List.insert_def)

lemma sample_stalled: "takeWhile (stalled manage_peers_default 6 sample_peers) (blocks_requests sample_peers) =
    [(5, \<lparr>br_timestamp = 0, br_blocks = [12, 11]\<rparr>)]"
proof -
  have "unat (5 * 1000 :: u32) = 5000" by simp
  then have "seconds (new_block_failure_interval_ms manage_peers_default) = 5"
    by (simp add: seconds_def manage_peers_default_def DEFAULT_NEW_PEER_BLOCK_FAILURE_INTERVAL_MS_def)
  then have "stalled manage_peers_default 6 sample_peers (5, \<lparr>br_timestamp = 0, br_blocks = [12, 11]\<rparr>)"
    by (simp add: stalled_def sample_peers_requests(2))
  then show ?thesis unfolding sample_peers_requests(1) by simp
qed

theorem stalled_requests_taken_back_witness:
  "\<exists>to_request to_forget w ps' pt'.
    manage_synchronization_peers_blocks manage_peers_default 6 [] sample_peers = Some (to_request, to_forget, w, ps', pt') \<and>
    mset to_request + mset to_forget = {#12, 11#}"
proof -
  have "mset (concat (map (\<lambda>(i, r). br_blocks r)
      (takeWhile (stalled manage_peers_default 6 sample_peers) (blocks_requests sample_peers)))) = {#12, 11#}"
    unfolding sample_stalled by simp
  note t = stalled_requests_taken_back [OF sample_peers_ok(1), of manage_peers_default 6 "[]", unfolded this]
  from t obtain to_request to_forget w ps' pt' where
    "manage_synchronization_peers_blocks manage_peers_default 6 [] sample_peers = Some (to_request, to_forget, w, ps', pt')"
    "mset to_request + mset to_forget = {#12, 11#}" by (elim exE conjE) (rule that)
  then show ?thesis by (intro exI conjI)
qed

text \<open>The requests are visited in the order of their times, but the allowed delay depends on the peer: a trusted peer that
  still has time keeps every later request from being looked at.\<close>

lemma trusted_peer_shields_stalled_peers:
  assumes "blocks_requests pt = (i, request) # rest" "is_trusted pt i"
    "now - br_timestamp request \<le> seconds (trusted_block_failure_interval_ms cfg)"
  shows "manage_synchronization_peers_blocks cfg now ps pt = Some ([], [], [], ps, pt)"
  using assms by (simp add: manage_synchronization_peers_blocks_def)

section \<open>The pool of unknown orphans is bounded\<close>

lemma unknown_to_remove_loop_eq:
  "unknown_to_remove_loop limit now n us =
   map fst (take n us) @ map fst (takeWhile (\<lambda>(h, t). now - t > limit) (drop n us))"
proof (induction us arbitrary: n)
  case (Cons u us)
  then show ?case by (cases u; cases n) (auto simp: not_le)
qed simp

lemma contains_unknown_iff: "contains_unknown_block pool k \<longleftrightarrow> k \<in> fst ` set (unknown_blocks pool)"
  unfolding contains_unknown_block_def map_of_eq_None_iff by simp

lemma remaining_unknown:
  assumes "pool_inv pool" "remove_blocks pool hashes = (removed, pool')"
  shows "fst ` set (unknown_blocks pool') \<subseteq> fst ` set (unknown_blocks pool) - set hashes"
proof
  fix k assume "k \<in> fst ` set (unknown_blocks pool')"
  then have k: "contains_unknown_block pool' k" unfolding contains_unknown_iff .
  note r = remove_blocks_ok [OF assms]
  have "k \<in> block_hash_of ` snd ` pool_blocks pool'" using r(1) k unfolding pool_inv_def by blast
  then obtain p b where b: "(p, b) \<in> pool_blocks pool'" "k = block_hash_of b" by (elim imageE) (metis prod.collapse)
  from b(1) have "b \<notin> doomed pool hashes" unfolding r(2) by simp
  then have "k \<notin> set hashes" unfolding doomed_def b(2) by simp
  with r(4) [OF k] show "k \<in> fst ` set (unknown_blocks pool) - set hashes" unfolding contains_unknown_iff by simp
qed

lemma sorted_tail_young:
  assumes "sorted (map snd us)" "(h, t) \<in> set (dropWhile (\<lambda>(h, t). now - t > limit) us)"
  shows "now - t \<le> (limit :: real)"
proof -
  let ?D = "dropWhile (\<lambda>(h, t). now - t > limit) us"
  from assms(2) obtain x xs where D: "?D = x # xs" by (cases ?D) auto
  then have x: "now - snd x \<le> limit" using hd_dropWhile [of "\<lambda>(h, t). now - t > limit" us] by (cases x) auto
  have "sorted (map snd ?D)" using assms(1) sorted_dropWhile [of "map snd us" "\<lambda>t. now - t > limit"]
    by (simp add: dropWhile_map comp_def case_prod_beta')
  then have "snd x \<le> t" using assms(2) D by auto
  with x show ?thesis by simp
qed

text \<open>C31: managing the pool of unknown orphans keeps its invariant, leaves at most the allowed number of unknown blocks and,
  when they are kept in the order of their arrival, none that is older than the allowed time; the hashes returned are
  those of the removed blocks.\<close>

theorem unknown_orphans_bounded:
  assumes inv: "pool_reachable pool" and r: "manage_unknown_orphaned_blocks cfg now pool = (removed, pool')"
  shows "pool_inv pool' \<and> length (unknown_blocks pool') \<le> max_number cfg \<and>
    (case removed of None \<Rightarrow> {} | Some hashes \<Rightarrow> set hashes) =
      block_hash_of ` (snd ` pool_blocks pool - snd ` pool_blocks pool') \<and>
    (sorted (map snd (unknown_blocks pool)) \<longrightarrow>
      (\<forall>h t. contains_unknown_block pool' h \<longrightarrow> map_of (unknown_blocks pool) h = Some t \<longrightarrow>
        now - t \<le> seconds (removal_time_ms cfg)))"
proof -
  note inv = pool_reachable_inv [OF inv]
  define us where "us = unknown_blocks pool"
  define n where "n = length us - max_number cfg"
  define old where "old = (\<lambda>(h :: h256, t). now - t > seconds (removal_time_ms cfg))"
  define hs where "hs = map fst (take n us) @ map fst (takeWhile old (drop n us))"
  define rest where "rest = dropWhile old (drop n us)"
  obtain rs where rs: "remove_blocks pool hs = (rs, pool')" "removed = (if rs = [] then None else Some rs)"
  proof -
    have "unknown_to_remove_loop (seconds (removal_time_ms cfg)) now n us = hs"
      unfolding hs_def old_def by (rule unknown_to_remove_loop_eq)
    then show ?thesis using r that unfolding manage_unknown_orphaned_blocks_def us_def [symmetric] n_def [symmetric]
      by (cases "remove_blocks pool hs") simp
  qed
  note ok = remove_blocks_ok [OF inv rs(1)] and left = remaining_unknown [OF inv rs(1)]
  have d: "distinct (map fst us)" "distinct (map fst (unknown_blocks pool'))"
    using inv ok(1) unfolding pool_inv_def us_def by simp_all
  have "us = take n us @ takeWhile old (drop n us) @ rest" unfolding rest_def by simp
  from arg_cong [OF this, of "\<lambda>xs. fst ` set xs"] have "fst ` set us = set hs \<union> fst ` set rest"
    unfolding hs_def by (simp add: image_Un Un_assoc)
  with left have sub: "fst ` set (unknown_blocks pool') \<subseteq> fst ` set rest" unfolding us_def by blast
  have "length (unknown_blocks pool') = card (fst ` set (unknown_blocks pool'))"
    using distinct_card [OF d(2)] by simp
  also have "\<dots> \<le> card (fst ` set rest)" by (rule card_mono [OF _ sub]) simp
  also have "\<dots> \<le> length rest" using card_length [of "map fst rest"] by simp
  also have "\<dots> \<le> max_number cfg" using length_dropWhile_le [of old "drop n us"] by (simp add: rest_def n_def)
  finally have len: "length (unknown_blocks pool') \<le> max_number cfg" .
  have young: "now - t \<le> seconds (removal_time_ms cfg)"
    if "sorted (map snd us)" "contains_unknown_block pool' h" "map_of us h = Some t" for h t
  proof -
    from that(2) sub have "h \<in> fst ` set rest" unfolding contains_unknown_iff by (rule subsetD [rotated])
    then obtain t' where t': "(h, t') \<in> set rest" by (elim imageE) (metis prod.collapse)
    then have "(h, t') \<in> set us" unfolding rest_def by (meson in_set_dropD set_dropWhileD)
    then have "t' = t" using that(3) d(1) by (simp add: map_of_eq_Some_iff)
    moreover have "sorted (map snd (drop n us))" using that(1) by (simp add: drop_map [symmetric] sorted_wrt_drop)
    from sorted_tail_young [OF this] t' have "now - t' \<le> seconds (removal_time_ms cfg)"
      unfolding rest_def old_def .
    ultimately show ?thesis by simp
  qed
  have "(p, b) \<in> pool_blocks pool \<Longrightarrow> b \<in> snd ` pool_blocks pool' \<longleftrightarrow> b \<notin> doomed pool hs" for p b
    unfolding ok(2) by (simp add: image_iff Bex_def) metis
  then have "{b \<in> snd ` pool_blocks pool. b \<in> doomed pool hs} = snd ` pool_blocks pool - snd ` pool_blocks pool'"
    by (simp add: set_eq_iff image_iff Bex_def) metis
  then have "(case removed of None \<Rightarrow> {} | Some hashes \<Rightarrow> set hashes) =
      block_hash_of ` (snd ` pool_blocks pool - snd ` pool_blocks pool')"
    using ok(3) rs(2) by (cases "rs = []") simp_all
  then show ?thesis using ok(1) len young unfolding us_def by simp
qed

definition sample_unknown_pool :: OrphanBlocksPool where
  "sample_unknown_pool = \<lparr>orphaned_blocks = [(2, [(3, chained_block 3 2)])], unknown_blocks = [(3, 0)]\<rparr>"

lemma sample_unknown_pool_reachable: "pool_reachable sample_unknown_pool"
proof -
  have "insert_unknown_block 0 pool_new (chained_block 3 2) = Some sample_unknown_pool"
    by (simp add: insert_unknown_block_def insert_orphaned_block_def pool_new_def chained_block_def sample_unknown_pool_def)
  then show ?thesis by (rule pool_reachable.intros(3) [OF pool_reachable.intros(1)])
qed

theorem unknown_orphans_bounded_witness:
  "manage_unknown_orphaned_blocks manage_unknown_default 2000 sample_unknown_pool = (Some [3], pool_new) \<and>
   {3} = block_hash_of ` (snd ` pool_blocks sample_unknown_pool - snd ` pool_blocks pool_new)"
proof -
  have "unat (20 * 60 * 1000 :: u32) = 1200000" by simp
  then have "seconds (removal_time_ms manage_unknown_default) = 1200"
    by (simp add: seconds_def manage_unknown_default_def DEFAULT_UNKNOWN_BLOCK_REMOVAL_TIME_MS_def)
  then have "unknown_to_remove_loop (seconds (removal_time_ms manage_unknown_default)) 2000
      (length (unknown_blocks sample_unknown_pool) - max_number manage_unknown_default) (unknown_blocks sample_unknown_pool) = [3]"
    by (simp add: sample_unknown_pool_def manage_unknown_default_def DEFAULT_UNKNOWN_BLOCKS_MAX_LEN_def)
  moreover have "remove_blocks sample_unknown_pool [3] = ([3], pool_new)"
    by (simp add: remove_blocks_def remove_listed_def sample_unknown_pool_def pool_new_def Let_def remove_blocks_for_parent_def)
  ultimately have r: "manage_unknown_orphaned_blocks manage_unknown_default 2000 sample_unknown_pool = (Some [3], pool_new)"
    by (simp add: manage_unknown_orphaned_blocks_def)
  from unknown_orphans_bounded [OF sample_unknown_pool_reachable r] r show ?thesis by simp
qed

end
