(* ===== verification/Client_Safety.thy ===== *)
theory Client_Safety
  imports Client_Invariant Sync_Manager
begin

text \<open>
  Every handler of the synchronization client, given an event that can occur, returns and keeps the invariant of the
  client. The invariant and its parts are in \<^verbatim>\<open>Client_Invariant\<close>; here are the steps of the handlers over it, and the
  theorem about sequences of events.
\<close>

section \<open>The invariant\<close>

definition core_inv :: "'d kv_ops \<Rightarrow> ('d \<Rightarrow> bool) \<Rightarrow> IndexedBlockHeader set \<Rightarrow> 'd Core \<Rightarrow> bool" where
  "core_inv ops db_inv H c \<longleftrightarrow>
     chain_part ops db_inv H (core_chain c) (orphaned_blocks_pool c) \<and> pt_inv (peers_tasks c) \<and>
     meter_inv (block_speed_meter c) \<and> meter_inv (sync_speed_meter c) \<and>
     is_synchronizing (shared_state c) = is_synchronizing_state (core_state c) \<and>
     best_storage_block_height (shared_state c) = unat (bb_number (best_storage_block (core_chain c))) \<and>
     (is_saturated (core_state c) \<longrightarrow> all_verifying (core_chain c))"

definition core_size :: "'d Core \<Rightarrow> nat" where
  "core_size c = parts_size (core_chain c) (orphaned_blocks_pool c)"

text \<open>The parts of the state that the invariant does not read.\<close>

definition same_parts :: "'d Core \<Rightarrow> 'd Core \<Rightarrow> bool" where
  "same_parts c c' \<longleftrightarrow> core_chain c' = core_chain c \<and> orphaned_blocks_pool c' = orphaned_blocks_pool c \<and>
     peers_tasks c' = peers_tasks c \<and> block_speed_meter c' = block_speed_meter c \<and> sync_speed_meter c' = sync_speed_meter c \<and>
     shared_state c' = shared_state c \<and> core_state c' = core_state c"

lemma same_parts_refl [simp]: "same_parts c c"
  by (simp add: same_parts_def)

lemma same_parts_inv: "same_parts c c' \<Longrightarrow> core_inv ops db_inv H c' = core_inv ops db_inv H c"
  "same_parts c c' \<Longrightarrow> core_size c' = core_size c"
  by (simp_all add: same_parts_def core_inv_def core_size_def)

lemma same_parts_trans: "same_parts c d \<Longrightarrow> same_parts d e \<Longrightarrow> same_parts c e"
  by (simp add: same_parts_def)

lemma same_parts_effects [simp]:
  "same_parts c (execute t c)" "same_parts c (misbehaving i c)" "same_parts c (dos i c)" "same_parts c (notify e c)"
  "same_parts c (wake fs c)"
  by (simp_all add: same_parts_def execute_def misbehaving_def dos_def notify_def wake_def Let_def split: prod.splits)

lemma same_parts_fold: "(\<And>x c. same_parts c (f x c)) \<Longrightarrow> same_parts c (fold f xs c)"
proof (induction xs arbitrary: c)
  case (Cons x xs)
  from same_parts_trans [OF Cons.prems Cons.IH [OF Cons.prems]] show ?case by simp
qed simp

lemma core_inv_effects [simp]:
  "core_inv ops db_inv H (execute t c) = core_inv ops db_inv H c" "core_inv ops db_inv H (misbehaving i c) = core_inv ops db_inv H c"
  "core_inv ops db_inv H (dos i c) = core_inv ops db_inv H c" "core_inv ops db_inv H (notify e c) = core_inv ops db_inv H c"
  "core_inv ops db_inv H (wake fs c) = core_inv ops db_inv H c"
  by (simp_all add: same_parts_inv)

lemma core_size_effects [simp]:
  "core_size (execute t c) = core_size c" "core_size (misbehaving i c) = core_size c" "core_size (dos i c) = core_size c"
  "core_size (notify e c) = core_size c" "core_size (wake fs c) = core_size c"
  by (simp_all add: same_parts_inv)

lemma core_invD:
  assumes "core_inv ops db_inv H c"
  shows "chain_part ops db_inv H (core_chain c) (orphaned_blocks_pool c)" "pt_inv (peers_tasks c)"
    "meter_inv (block_speed_meter c)" "meter_inv (sync_speed_meter c)" "chain_ok ops db_inv H (core_chain c)"
    "pool_inv (orphaned_blocks_pool c)" "pool_ok H (orphaned_blocks_pool c)"
  using assms chain_partD(1,2) [of ops db_inv H "core_chain c" "orphaned_blocks_pool c"] unfolding core_inv_def pool_ok_def by blast+

lemma core_inv_peers: "core_inv ops db_inv H c \<Longrightarrow> pt_inv pt \<Longrightarrow> core_inv ops db_inv H (c\<lparr>peers_tasks := pt\<rparr>)"
  "core_size (c\<lparr>peers_tasks := pt\<rparr>) = core_size c"
  by (simp_all add: core_inv_def core_size_def)

lemma core_inv_chain:
  assumes "core_inv ops db_inv H c" "chain_part ops db_inv H ch pool" "best_storage_block ch = best_storage_block (core_chain c)"
    "all_verifying (core_chain c) \<longrightarrow> all_verifying ch"
  shows "core_inv ops db_inv H (c\<lparr>core_chain := ch, orphaned_blocks_pool := pool\<rparr>)"
  using assms by (simp add: core_inv_def)

lemma core_inv_forget:
  assumes c: "core_inv ops db_inv H c" and f: "chain_ok ops db_inv H ch" "shrinks (core_chain c) ch"
  shows "core_inv ops db_inv H (c\<lparr>core_chain := ch\<rparr>)" "core_size (c\<lparr>core_chain := ch\<rparr>) \<le> core_size c"
  using chain_part_forget [OF core_invD(1) [OF c] f] c f(2) by (simp_all add: core_inv_def core_size_def shrinks_def)

lemma mark_dead_end_ok [simp]:
  "chain_part ops db_inv H (mark_dead_end_block c h) pool = chain_part ops db_inv H c pool"
  "parts_size (mark_dead_end_block c h) pool = parts_size c pool" "all_verifying (mark_dead_end_block c h) = all_verifying c"
  "best_storage_block (mark_dead_end_block c h) = best_storage_block c"
  by (simp_all add: mark_dead_end_block_def chain_part_def chain_ok_def sync_inv_def is_connected_def stored_in_def verifying_in_def
    parts_size_def chain_size_def all_verifying_def)

lemma core_inv_dead_end:
  "core_inv ops db_inv H (c\<lparr>core_chain := mark_dead_end_block (core_chain c) h\<rparr>) = core_inv ops db_inv H c"
  "core_size (c\<lparr>core_chain := mark_dead_end_block (core_chain c) h\<rparr>) = core_size c"
  by (simp_all add: core_inv_def core_size_def)

text \<open>What a block message leads to: nothing, or the block and its orphans, now in the verifying queue.\<close>

definition to_verify_ok :: "IndexedBlockHeader set \<Rightarrow> IndexedBlock \<Rightarrow> IndexedBlock list option \<Rightarrow> 'd Core \<Rightarrow> bool" where
  "to_verify_ok H b res c \<longleftrightarrow> (\<forall>bs. res = Some bs \<longrightarrow> bs \<noteq> [] \<and> hd bs = b \<and> header ` set bs \<subseteq> H \<and>
     block_hash_of ` set bs \<subseteq> verifying_in (core_chain c))"

lemma to_verify_None [simp]: "to_verify_ok H b None c"
  by (simp add: to_verify_ok_def)

text \<open>
  A verified block that is still in the verifying queue can be stored: the database takes it, its hash is not zero, and
  it has a place in the chain. Acceptance at the levels \<^verbatim>\<open>Full\<close> and \<^verbatim>\<open>Header\<close> finds this place, by lemma
  \<open>verified_storable\<close>, and the thread that verifies a block is the one that then stores it. At the level \<^verbatim>\<open>NoVerification\<close> a block is accepted without looking for its place
  (\<^verbatim>\<open>chain_verifier.rs\<close>, line 32), and for a block without one the client panics when it stores it
  (\<^verbatim>\<open>synchronization_client_core.rs\<close>, line 1229); there \<open>storable\<close> is an assumption.
\<close>

definition storable :: "'d kv_ops \<Rightarrow> (Operation \<Rightarrow> bool) \<Rightarrow> 'd Chain \<Rightarrow> IndexedBlock \<Rightarrow> bool" where
  "storable ops op_ok ch b \<longleftrightarrow> block_hash_of b \<in> verifying_in ch \<longrightarrow>
     op_ok (Insert (BlockData (block_hash_of b) (to_raw_block b))) \<and> block_hash_of b \<noteq> 0 \<and>
     (\<exists>origin. block_origin ops (chain_storage ch) (header b) = Some (Inr origin))"

lemma verified_storable:
  assumes "verify_block X u256_mul ops (chain_storage ch) network now level b = Some (Inr ())" "level \<noteq> NoVerification"
    and "op_ok (Insert (BlockData (block_hash_of b) (to_raw_block b)))" "block_hash_of b \<noteq> 0"
  shows "storable ops op_ok ch b"
proof -
  let ?o = "block_origin ops (chain_storage ch) (header b)"
  have "\<exists>origin. ?o = Some (Inr origin)"
  proof (cases ?o)
    case None
    with assms(1,2) show ?thesis by (simp add: verify_block_def and_then_ok split: if_splits)
  next
    case (Some res)
    with assms(1,2) show ?thesis by (cases res) (simp_all add: verify_block_def and_then_ok split: if_splits)
  qed
  with assms(3,4) show ?thesis by (simp add: storable_def)
qed

section \<open>Switching between states\<close>

lemma print_information_ok [simp]:
  "core_inv ops db_inv H (print_synchronization_information E c) = core_inv ops db_inv H c"
  "core_size (print_synchronization_information E c) = core_size c"
  by (cases "core_state c"; simp add: print_synchronization_information_def core_inv_def core_size_def Let_def)+

lemma switch_to_synchronization_ok:
  "core_inv ops db_inv H c \<Longrightarrow> core_inv ops db_inv H (switch_to_synchronization_state E c)"
  "core_size (switch_to_synchronization_state E c) = core_size c"
  by (simp_all add: switch_to_synchronization_state_def core_inv_def core_size_def notify_def update_synchronizing_def)

lemma switch_to_nearly_saturated_ok:
  "core_inv ops db_inv H c \<Longrightarrow> core_inv ops db_inv H (switch_to_nearly_saturated_state c)"
  "core_size (switch_to_nearly_saturated_state c) = core_size c"
  by (cases "core_state c"; simp add: switch_to_nearly_saturated_state_def core_inv_def core_size_def notify_def update_synchronizing_def)+

section \<open>Requests for blocks\<close>

definition limits_ok :: "BlocksRequestLimits \<Rightarrow> bool" where
  "limits_ok l \<longleftrightarrow> 0 < min_blocks_in_request l \<and> 0 < max_blocks_in_request l"

lemma request_limits_ok: "chain_ok ops db_inv H (core_chain c) \<Longrightarrow> \<exists>l. request_limits c = Some l \<and> limits_ok l"
  using length_of_state_chain [of ops db_inv H "core_chain c" Stored]
  by (auto simp: request_limits_def limits_ok_def limits_default_def MIN_BLOCKS_IN_REQUEST_def MAX_BLOCKS_IN_REQUEST_def)

text \<open>The blocks that a task asks for.\<close>

fun asked_blocks :: "Task \<Rightarrow> h256 list" where
  "asked_blocks (GetDataTask i m) = map inv_hash (gd_inventory m)"
| "asked_blocks _ = []"

fun asked_peer :: "Task \<Rightarrow> PeerIndex option" where
  "asked_peer (GetDataTask i m) = Some i"
| "asked_peer _ = None"

lemma inventory_hashes: "map inv_hash (map inventory_block hs) = hs"
  by (induction hs) (simp_all add: inventory_block_def)

lemma prepare_loop_ok:
  "pt_inv pt \<Longrightarrow> 0 < n \<Longrightarrow> hashes = [] \<or> ps \<noteq> [] \<Longrightarrow>
   \<exists>tasks pt'. prepare_loop now n ps hashes pt = Some ([], tasks, pt') \<and> pt_inv pt' \<and> concat (map asked_blocks tasks) = hashes \<and>
     (\<exists>k. map asked_peer tasks = map Some (take k ps)) \<and> (\<forall>t \<in> set tasks. asked_blocks t \<noteq> []) \<and>
     (\<forall>t \<in> set (butlast tasks). length (asked_blocks t) \<le> n)"
proof (induction ps arbitrary: hashes pt)
  case (Cons peer ps)
  define m where "m = (if ps = [] then length hashes else min (length hashes) n)"
  show ?case
  proof (cases "m = 0")
    case True
    then have "hashes = []" using Cons.prems(2) by (cases hashes) (auto simp: m_def split: if_splits)
    then show ?thesis using Cons.prems(1) by (intro exI [of _ "[]"] exI [of _ pt]) (auto simp: Let_def intro: exI [of _ 0])
  next
    case False
    from on_blocks_requested_ok [OF Cons.prems(1), of now peer "take m hashes"] obtain pt1 where
      1: "on_blocks_requested now pt peer (take m hashes) = Some pt1" "pt_inv pt1" by (elim exE conjE) (rule that)
    have "drop m hashes = [] \<or> ps \<noteq> []" by (simp add: m_def)
    from Cons.IH [OF 1(2) Cons.prems(2) this] obtain tasks pt2 k where
      2: "prepare_loop now n ps (drop m hashes) pt1 = Some ([], tasks, pt2)" "pt_inv pt2"
        "concat (map asked_blocks tasks) = drop m hashes" "map asked_peer tasks = map Some (take k ps)"
        "\<forall>t \<in> set tasks. asked_blocks t \<noteq> []" "\<forall>t \<in> set (butlast tasks). length (asked_blocks t) \<le> n" by (elim exE conjE) (rule that)
    let ?t = "GetDataTask peer \<lparr>gd_inventory = map inventory_block (take m hashes)\<rparr>"
    have b: "asked_blocks ?t = take m hashes" by (simp add: inventory_hashes del: map_map)
    have "take m hashes \<noteq> []" using False by (auto simp: m_def split: if_splits)
    moreover have "prepare_loop now n (peer # ps) hashes pt = Some ([], ?t # tasks, pt2)"
      using False 1(1) 2(1) by (simp add: Let_def m_def [symmetric])
    moreover have "map asked_peer (?t # tasks) = map Some (take (Suc k) (peer # ps))" using 2(4) by simp
    moreover have "concat (map asked_blocks (?t # tasks)) = hashes" using 2(3) b by simp
    moreover have "length (asked_blocks ?t) \<le> n" if "tasks \<noteq> []" using that 2(4) unfolding b by (cases "ps = []") (auto simp: m_def)
    ultimately show ?thesis using 2(2,5,6) b by (intro exI [of _ "?t # tasks"] exI [of _ pt2] conjI exI [of _ "Suc k"]) simp_all
  qed
qed simp

lemma prepare_requests_ok:
  assumes c: "pt_inv (peers_tasks c)" and l: "limits_ok l" and ps: "ps \<noteq> []"
  shows "\<exists>tasks pt. prepare_blocks_requests_tasks E l ps hashes c = Some (tasks, c\<lparr>peers_tasks := pt\<rparr>) \<and> pt_inv pt \<and>
    concat (map asked_blocks tasks) = hashes \<and>
    (\<exists>k. map asked_peer tasks = map Some (take k (sort_peers_for_blocks (peers_tasks c) ps))) \<and>
    (\<forall>t \<in> set tasks. asked_blocks t \<noteq> []) \<and> (\<forall>t \<in> set (butlast tasks). length (asked_blocks t) \<le> unat (max_blocks_in_request l))"
proof -
  let ?n = "min (max_blocks_in_request l) (max (of_nat (length hashes)) (min_blocks_in_request l))"
  have "0 < ?n" using l by (simp add: limits_ok_def less_max_iff_disj)
  then have n: "0 < unat ?n" by (simp only: unat_gt_0 word_gt_0 simp_thms)
  have s: "sort_peers_for_blocks (peers_tasks c) ps \<noteq> []"
    using ps length_sort [of "\<lambda>i. - peer_speed (peers_tasks c) i" ps] unfolding sort_peers_for_blocks_def by force
  have le: "unat ?n \<le> unat (max_blocks_in_request l)" by (simp add: word_le_nat_alt [symmetric])
  from prepare_loop_ok [OF c n, of hashes "sort_peers_for_blocks (peers_tasks c) ps" "e_now E"] s
  obtain tasks pt k where x: "prepare_loop (e_now E) (unat ?n) (sort_peers_for_blocks (peers_tasks c) ps) hashes (peers_tasks c) =
      Some ([], tasks, pt)" "pt_inv pt" "concat (map asked_blocks tasks) = hashes"
      "map asked_peer tasks = map Some (take k (sort_peers_for_blocks (peers_tasks c) ps))"
      "\<forall>t \<in> set tasks. asked_blocks t \<noteq> []" "\<forall>t \<in> set (butlast tasks). length (asked_blocks t) \<le> unat ?n" by blast
  have "prepare_blocks_requests_tasks E l ps hashes c = Some (tasks, c\<lparr>peers_tasks := pt\<rparr>)"
    using x(1) by (simp add: prepare_blocks_requests_tasks_def Let_def)
  moreover have "\<forall>t \<in> set (butlast tasks). length (asked_blocks t) \<le> unat (max_blocks_in_request l)"
    using x(6) le order_trans by blast
  ultimately show ?thesis using x(2-5) by blast
qed

section \<open>Synchronization tasks\<close>

lemma headers_requested_all_ok: "pt_inv pt \<Longrightarrow> \<exists>pt'. headers_requested_all now is pt = Some pt' \<and> pt_inv pt'"
proof (induction "is" arbitrary: pt)
  case (Cons i "is")
  from on_headers_requested_ok [OF Cons.prems, of now i] obtain pt1 where
    1: "on_headers_requested now pt i = Some pt1" "pt_inv pt1" by (elim exE conjE) (rule that)
  from Cons.IH [OF 1(2)] 1(1) show ?case by simp
qed simp

lemma duplicate_requests_ok:
  assumes c: "core_inv ops db_inv H c"
  shows "\<exists>hashes c'. duplicate_requests E verifying requested c = Some (hashes, c') \<and> core_inv ops db_inv H c' \<and> core_size c' = core_size c"
proof -
  have same: "same_parts c (c\<lparr>last_dup_time := t\<rparr>)" for t by (simp add: same_parts_def)
  define n where "n = max MIN_BLOCKS_IN_DUPLICATE_REQUEST (min requested (min MAX_BLOCKS_IN_DUPLICATE_REQUEST
    (float_to_u32 (meter_speed (sync_speed_meter c) *
      (synchronization_queue_full_in c requested - verification_queue_empty_in c verifying)))))"
  from best_requested_chain [OF core_invD(5) [OF c], of n] obtain hashes where
    "best_n_of_blocks_state (core_chain c) Requested n = Some hashes" by blast
  then have "duplicate_requests E verifying requested c \<in> {Some (Some hashes, c\<lparr>last_dup_time := e_now E\<rparr>), Some (None, c)}"
    by (simp add: duplicate_requests_def Let_def n_def)
  with c show ?thesis using same_parts_inv [OF same] by auto
qed

lemma request_scheduled_ok:
  assumes c: "core_inv ops db_inv H c"
  shows "\<exists>hashes c'. request_scheduled l idle verifying requested c = Some (hashes, c') \<and> core_inv ops db_inv H c' \<and> core_size c' \<le> core_size c"
proof -
  note ok = core_invD(5) [OF c]
  from length_of_state_chain [OF ok, of Scheduled] obtain n where n: "length_of_blocks_state (core_chain c) Scheduled = Some n"
    by auto
  define k where "k = min (max_blocks_in_request l) (max (n div idle) (min_blocks_in_request l)) * idle"
  from request_chain [OF ok, of k] obtain hashes ch where
    1: "request_blocks_hashes (core_chain c) k = Some (hashes, ch)" "chain_ok ops db_inv H ch" "adds {} {} 0 (core_chain c) ch"
    by (elim exE conjE) (rule that)
  have "best_storage_block ch = best_storage_block (core_chain c)" "all_verifying ch = all_verifying (core_chain c)"
    using 1(3) by (simp_all add: adds_def all_verifying_def)
  with chain_part_adds [OF core_invD(1) [OF c] 1(2,3)] c
  have "core_inv ops db_inv H (c\<lparr>core_chain := ch\<rparr>)" "core_size (c\<lparr>core_chain := ch\<rparr>) \<le> core_size c"
    by (simp_all add: core_inv_def core_size_def)
  moreover have "request_scheduled l idle verifying requested c \<in> {Some (Some hashes, c\<lparr>core_chain := ch\<rparr>), Some (None, c)}"
    using 1(1) by (simp add: request_scheduled_def n Let_def k_def)
  ultimately show ?thesis using c by auto
qed

lemma request_blocks_ok:
  assumes c: "core_inv ops db_inv H c" and l: "limits_ok l"
  shows "\<exists>tasks c'. request_blocks E l verifying idle c = Some (tasks, c') \<and> core_inv ops db_inv H c' \<and> core_size c' \<le> core_size c"
proof (cases "(of_nat (length idle) :: u32) = 0")
  case False
  then have idle: "idle \<noteq> []" by auto
  from length_of_state_chain [OF core_invD(5) [OF c], of Requested] obtain n where
    n: "length_of_blocks_state (core_chain c) Requested = Some n" by auto
  from duplicate_requests_ok [OF c, of E verifying n] obtain d c1 where
    1: "duplicate_requests E verifying n c = Some (d, c1)" "core_inv ops db_inv H c1" "core_size c1 = core_size c"
    by (elim exE conjE) (rule that)
  from request_scheduled_ok [OF 1(2), of l "of_nat (length idle)" verifying n] obtain s c2 where
    2: "request_scheduled l (of_nat (length idle)) verifying n c1 = Some (s, c2)" "core_inv ops db_inv H c2"
      "core_size c2 \<le> core_size c1" by (elim exE conjE) (rule that)
  have run: "request_blocks E l verifying idle c = (case join_requests d s of None \<Rightarrow> Some ([], c2)
      | Some hashes \<Rightarrow> prepare_blocks_requests_tasks E l idle hashes c2)"
    using False n 1(1) 2(1) by (simp add: request_blocks_def)
  show ?thesis
  proof (cases "join_requests d s")
    case None
    with run 1(3) 2 show ?thesis by simp
  next
    case (Some hashes)
    from prepare_requests_ok [OF core_invD(2) [OF 2(2)] l idle, of E hashes] obtain tasks pt where
      "prepare_blocks_requests_tasks E l idle hashes c2 = Some (tasks, c2\<lparr>peers_tasks := pt\<rparr>)" "pt_inv pt"
      by (elim exE conjE) (rule that)
    with run Some 1(3) 2(3) core_inv_peers(1) [OF 2(2)] show ?thesis by (simp add: core_inv_peers(2))
  qed
qed (use c in \<open>simp add: request_blocks_def\<close>)

lemma request_final_ok:
  assumes c: "core_inv ops db_inv H c" and l: "limits_ok l"
  shows "\<exists>tasks c'. request_final E l final c = Some (tasks, c') \<and> core_inv ops db_inv H c' \<and> core_size c' = core_size c"
proof (cases "final = None \<or> useful_peers (peers_tasks c) = []")
  case False
  then obtain hashes where f: "final = Some hashes" "useful_peers (peers_tasks c) \<noteq> []" by auto
  from prepare_requests_ok [OF core_invD(2) [OF c] l f(2), of E hashes] obtain tasks pt where
    "prepare_blocks_requests_tasks E l (useful_peers (peers_tasks c)) hashes c = Some (tasks, c\<lparr>peers_tasks := pt\<rparr>)" "pt_inv pt"
    by (elim exE conjE) (rule that)
  with f core_inv_peers(1) [OF c] show ?thesis by (simp add: request_final_def Let_def core_inv_peers(2))
qed (use c in \<open>auto simp: request_final_def Let_def split: option.splits\<close>)

lemma fold_map_upd: "h \<in> set hs \<Longrightarrow> fold (\<lambda>h m. m(h \<mapsto> i)) hs m h = Some i"
proof (induction hs rule: rev_induct)
  case (snoc x hs)
  then show ?case by (cases "h = x") simp_all
qed simp

context block_database
begin

lemma request_headers_ok:
  assumes E: "e_ops E = ops" and c: "core_inv ops db_inv H c" and len: "core_size c + 1 < 2 ^ 31"
  shows "\<exists>tasks c'. request_headers E c = Some (tasks, c') \<and> core_inv ops db_inv H c' \<and> core_size c' = core_size c"
proof -
  note ok = core_invD(5) [OF c]
  from length_of_state_chain [OF ok, of Scheduled] obtain n where n: "length_of_blocks_state (core_chain c) Scheduled = Some n" by auto
  from headers_requested_all_ok [OF core_invD(2) [OF c]] obtain pt where
    pt: "headers_requested_all (e_now E) (idle_for_headers (peers_tasks c)) (peers_tasks c) = Some pt" "pt_inv pt" by blast
  have "chain_size (core_chain c) + 1 < 2 ^ 31" using len by (simp add: core_size_def parts_size_def)
  from locator_chain [OF ok this] obtain locator where l: "block_locator_hashes ops (core_chain c) = Some locator" by blast
  show ?thesis using core_inv_peers(1) [OF c pt(2)] c
    by (simp add: request_headers_def Let_def n pt(1) l E core_inv_peers(2))
qed

lemma execute_remaining_ok:
  assumes E: "e_ops E = ops" and c: "core_inv ops db_inv H c" and l: "limits_ok l" and len: "core_size c + 1 < 2 ^ 31"
  shows "\<exists>c'. execute_remaining_tasks E l verifying final forced c = Some c' \<and> core_inv ops db_inv H c' \<and> core_size c' \<le> core_size c"
proof -
  from request_final_ok [OF c l, of E final] obtain t1 c1 where
    1: "request_final E l final c = Some (t1, c1)" "core_inv ops db_inv H c1" "core_size c1 = core_size c" by (elim exE conjE) (rule that)
  have "core_size c1 + 1 < 2 ^ 31" using 1(3) len by simp
  from request_headers_ok [OF E 1(2) this] obtain t2 c2 where
    2: "request_headers E c1 = Some (t2, c2)" "core_inv ops db_inv H c2" "core_size c2 = core_size c1" by (elim exE conjE) (rule that)
  from request_blocks_ok [OF 2(2) l, of E verifying "idle_for_blocks (peers_tasks c1)"] obtain t3 c3 where
    3: "request_blocks E l verifying (idle_for_blocks (peers_tasks c1)) c2 = Some (t3, c3)" "core_inv ops db_inv H c3"
      "core_size c3 \<le> core_size c2" by (elim exE conjE) (rule that)
  have same: "same_parts c3 (fold execute (forced @ t1 @ t2 @ t3) c3)" by (rule same_parts_fold) simp
  have "execute_remaining_tasks E l verifying final forced c = Some (fold execute (forced @ t1 @ t2 @ t3) c3)"
    using 1(1) 2(1) 3(1) by (simp add: execute_remaining_tasks_def Let_def)
  with same_parts_inv [OF same] 1(3) 2(3) 3(2,3) show ?thesis by simp
qed

lemma switch_to_saturated_ok:
  assumes E: "e_ops E = ops" and c: "core_inv ops db_inv H c" and len: "core_size c + 1 < 2 ^ 31"
  shows "\<exists>c'. switch_to_saturated_state E c = Some c' \<and> core_inv ops db_inv H c' \<and> core_size c' \<le> core_size c"
proof (cases "is_saturated (core_state c)")
  case False
  obtain removed pool where pool: "remove_known_blocks (orphaned_blocks_pool c) = (removed, pool)" by force
  note po = remove_known_ok [OF core_invD(6) [OF c] pool]
  from forget_blocks_chain [OF core_invD(5) [OF c], of removed] obtain c1 where
    1: "forget_blocks (core_chain c) removed = Some c1" "chain_ok ops db_inv H c1" "shrinks (core_chain c) c1" by blast
  from 1(2) obtain v r t where q: "three_queues (hash_chain c1) v r t" by (rule chain_okE)
  from forget_all_chain(1) [OF 1(2) q] obtain c2 where
    2: "forget_all_blocks_with_state c1 Requested = Some c2" "chain_ok ops db_inv H c2" "shrinks c1 c2"
      "hash_chain c2 = \<lparr>queues = [v, empty_queue r, t]\<rparr>" by blast
  have q2: "three_queues (hash_chain c2) v (empty_queue r) t" unfolding 2(4) by (rule remove_all_queue(2) [OF q])
  from forget_all_chain(2) [OF 2(2) q2] obtain c3 where
    3: "forget_all_blocks_with_state c2 Scheduled = Some c3" "chain_ok ops db_inv H c3" "shrinks c2 c3"
      "hash_chain c3 = \<lparr>queues = [v, empty_queue r, empty_queue t]\<rparr>" by blast
  have sh: "shrinks (core_chain c) c3" by (rule shrinks_trans [OF shrinks_trans [OF 1(3) 2(3)] 3(3)])
  have "pool_blocks pool \<subseteq> pool_blocks (orphaned_blocks_pool c)" unfolding po(3) by (rule Collect_case_prod_subset)
  note part = chain_part_shrink [OF core_invD(1) [OF c] 3(2) sh po(1) this]
  have av: "all_verifying c3" unfolding all_verifying_def verifying_in_def 3(4) by (simp add: flat_def VERIFYING_QUEUE_def)
  define d where "d = (notify (StateSwitched False) c)\<lparr>shared_state := update_synchronizing False (shared_state c),
    core_state := Saturated, peers_tasks := peers_reset (peers_tasks c), orphaned_blocks_pool := pool, core_chain := c3\<rparr>"
  have d: "core_inv ops db_inv H d" "core_size d \<le> core_size c"
    using c part av sh peers_reset_ok [of "peers_tasks c"]
    by (simp_all add: d_def core_inv_def core_size_def update_synchronizing_def notify_def shrinks_def)
  have "chain_size c3 + 1 < 2 ^ 31" using part(2) len by (simp add: core_size_def parts_size_def)
  from locator_chain [OF 3(2) this] obtain locator where l: "block_locator_hashes ops c3 = Some locator" by blast
  let ?f = "\<lambda>i. execute (GetHeadersTask i (with_block_locator_hashes locator))"
  have "switch_to_saturated_state E c = Some (fold ?f (all_peers (peers_tasks d)) d)"
    using False pool 1(1) 2(1) 3(1) l by (simp add: switch_to_saturated_state_def Let_def E d_def notify_def)
  moreover have "same_parts d (fold ?f (all_peers (peers_tasks d)) d)" by (rule same_parts_fold) simp
  ultimately show ?thesis using d by (simp add: same_parts_inv)
qed (use c in \<open>simp add: switch_to_saturated_state_def\<close>)

lemma execute_synchronization_ok:
  assumes E: "e_ops E = ops" and c: "core_inv ops db_inv H c" and len: "core_size c + 1 < 2 ^ 31"
  shows "\<exists>c'. execute_synchronization_tasks E forced final c = Some c' \<and> core_inv ops db_inv H c' \<and> core_size c' \<le> core_size c"
proof -
  let ?c = "print_synchronization_information E c"
  have c0: "core_inv ops db_inv H ?c" "core_size ?c + 1 < 2 ^ 31" using c len by simp_all
  from request_limits_ok [OF core_invD(5) [OF c0(1)]] obtain l where l: "request_limits ?c = Some l" "limits_ok l" by blast
  from length_of_state_chain [OF core_invD(5) [OF c0(1)], of Verifying] obtain n where
    n: "length_of_blocks_state (core_chain ?c) Verifying = Some n" by auto
  show ?thesis
  proof (cases forced)
    case None
    with execute_remaining_ok [OF E c0(1) l(2) c0(2)] l(1) n show ?thesis by (simp add: execute_synchronization_tasks_def Let_def)
  next
    case (Some hashes)
    show ?thesis
    proof (cases "useful_peers (peers_tasks ?c) = []")
      case True
      with switch_to_saturated_ok [OF E c0] l(1) n Some show ?thesis by (simp add: execute_synchronization_tasks_def Let_def)
    next
      case False
      from prepare_requests_ok [OF core_invD(2) [OF c0(1)] l(2) False, of E hashes] obtain tasks pt where
        1: "prepare_blocks_requests_tasks E l (useful_peers (peers_tasks ?c)) hashes ?c = Some (tasks, ?c\<lparr>peers_tasks := pt\<rparr>)" "pt_inv pt"
        by (elim exE conjE) (rule that)
      have "core_size (?c\<lparr>peers_tasks := pt\<rparr>) + 1 < 2 ^ 31" using len by (simp add: core_inv_peers(2))
      from execute_remaining_ok [OF E core_inv_peers(1) [OF c0(1) 1(2)] l(2) this, of n final tasks] l(1) n 1(1) Some False
      show ?thesis by (simp add: execute_synchronization_tasks_def Let_def core_inv_peers(2))
    qed
  qed
qed

lemma try_switch_ok:
  assumes E: "e_ops E = ops" and c: "core_inv ops db_inv H c" and len: "core_size c + 1 < 2 ^ 31"
  shows "\<exists>b c'. try_switch_to_saturated_state E c = Some (b, c') \<and> core_inv ops db_inv H c' \<and> core_size c' \<le> core_size c"
proof -
  from length_of_state_chain [OF core_invD(5) [OF c], of Scheduled] length_of_state_chain [OF core_invD(5) [OF c], of Requested]
  obtain n m where "length_of_blocks_state (core_chain c) Scheduled = Some n" "length_of_blocks_state (core_chain c) Requested = Some m"
    by auto
  with switch_to_saturated_ok [OF E c len] c show ?thesis by (auto simp: try_switch_to_saturated_state_def)
qed

section \<open>Connections and inventory\<close>

lemma on_connect_ok:
  assumes E: "e_ops E = ops" and c: "core_inv ops db_inv H c" and len: "core_size c + 1 < 2 ^ 31"
    and new: "i \<notin> set (all_peers (peers_tasks c))"
  shows "\<exists>c'. on_connect E i c = Some c' \<and> core_inv ops db_inv H c' \<and> core_size c' \<le> core_size c"
proof -
  have "chain_size (core_chain c) + 1 < 2 ^ 31" using len by (simp add: core_size_def parts_size_def)
  from locator_chain [OF core_invD(5) [OF c] this] obtain locator where l: "block_locator_hashes ops (core_chain c) = Some locator" by blast
  let ?c = "execute (GetHeadersTask i (with_block_locator_hashes locator)) c"
  have pt: "peers_tasks ?c = peers_tasks c" by (simp add: execute_def)
  have "map_of (blocks_requests (peers_tasks c)) i = None"
    using core_invD(2) [OF c] new by (auto simp: pt_inv_def requests_ok_def map_of_eq_None_iff)
  with unuseful_peer_ok [OF core_invD(2) [OF c], of i] obtain p1 where
    1: "unuseful_peer (peers_tasks c) i = Some p1" "pt_inv p1" by auto
  from on_headers_requested_ok [OF 1(2), of "e_now E" i] obtain p2 where
    2: "on_headers_requested (e_now E) p1 i = Some p2" "pt_inv p2" by (elim exE conjE) (rule that)
  have "core_inv ops db_inv H (?c\<lparr>peers_tasks := p2\<rparr>)" by (rule core_inv_peers(1) [OF _ 2(2)]) (simp add: c)
  with l 1(1) 2(1) pt show ?thesis by (simp add: on_connect_def E core_inv_peers(2))
qed

lemma on_disconnect_ok:
  assumes E: "e_ops E = ops" and c: "core_inv ops db_inv H c" and len: "core_size c + 1 < 2 ^ 31"
  shows "\<exists>c'. on_disconnect E i c = Some c' \<and> core_inv ops db_inv H c' \<and> core_size c' \<le> core_size c"
proof -
  obtain hashes p1 where 1: "reset_blocks_tasks (peers_tasks c) i = (hashes, p1)" by force
  note r = reset_blocks_tasks_ok [OF core_invD(2) [OF c] 1]
  from disconnect_peer_ok [OF r(1), of i] r(2) obtain p2 where 2: "disconnect_peer p1 i = Some p2" "pt_inv p2" by auto
  have "core_size (c\<lparr>peers_tasks := p2\<rparr>) + 1 < 2 ^ 31" using len by (simp add: core_inv_peers(2))
  from execute_synchronization_ok [OF E core_inv_peers(1) [OF c 2(2)] this, of "Some hashes" None] 1 2(1)
  show ?thesis by (simp add: on_disconnect_def core_inv_peers(2))
qed

lemma inventory_unknown_ok:
  assumes E: "e_ops E = ops" and c: "core_inv ops db_inv H c"
  shows "\<exists>b c'. inventory_unknown E i item c = Some (b, c') \<and> same_parts c c'"
proof (cases "inv_type item")
  case MessageBlock
  from block_state_chain [OF core_invD(5) [OF c], of "inv_hash item"] obtain st where
    "block_state ops (core_chain c) (inv_hash item) = Some st" by blast
  with MessageBlock show ?thesis by (cases st) (auto simp: inventory_unknown_def E)
qed (auto simp: inventory_unknown_def)

lemma filter_inventory_ok:
  assumes E: "e_ops E = ops"
  shows "core_inv ops db_inv H c \<Longrightarrow> \<exists>items' c'. filter_inventory E i items c = Some (items', c') \<and> same_parts c c'"
proof (induction items arbitrary: c)
  case (Cons item items)
  from inventory_unknown_ok [OF E Cons.prems, of i item] obtain b c1 where
    1: "inventory_unknown E i item c = Some (b, c1)" "same_parts c c1" by blast
  have "core_inv ops db_inv H c1" using same_parts_inv(1) [OF 1(2)] Cons.prems by blast
  from Cons.IH [OF this] obtain rest c2 where 2: "filter_inventory E i items c1 = Some (rest, c2)" "same_parts c1 c2" by blast
  from 1(1) 2(1) same_parts_trans [OF 1(2) 2(2)] show ?case by simp
qed simp

lemma on_inventory_ok:
  assumes E: "e_ops E = ops" and c: "core_inv ops db_inv H c"
  shows "\<exists>c'. on_inventory E i m c = Some c' \<and> core_inv ops db_inv H c' \<and> core_size c' \<le> core_size c"
proof -
  from filter_inventory_ok [OF E c, of i "inv_inventory m"] obtain items c1 where
    1: "filter_inventory E i (inv_inventory m) c = Some (items, c1)" "same_parts c c1" by blast
  from same_parts_inv [OF 1(2)] c have "core_inv ops db_inv H c1" "core_size c1 = core_size c" by blast+
  with 1(1) show ?thesis by (simp add: on_inventory_def)
qed

section \<open>Headers\<close>

lemma verify_block_header_total: "\<exists>r. verify_block_header network t h x = Some r"
proof -
  have "\<exists>mb. network_max_bits network = Some mb"
    by (cases network) (simp_all add: network_max_bits_def from_u256_eq compact_max_value_def)
  moreover have "\<exists>r. and_then (Some a) (Some b) = Some r" for a b :: "VError + unit" by (cases a) simp_all
  ultimately show ?thesis by (auto simp: verify_block_header_def header_verifier_check_def check_proof_of_work_def)
qed

lemma verify_headers_loop_ok:
  assumes E: "e_ops E = ops"
  shows "core_inv ops db_inv H c \<Longrightarrow>
    \<exists>res c'. verify_headers_loop E i index known headers c = Some (res, c') \<and> core_inv ops db_inv H c' \<and> core_size c' = core_size c \<and>
      (res = Success \<longrightarrow> c' = c \<and> headers_linked headers \<and> (headers \<noteq> [] \<longrightarrow> parent_of (hd headers) = known) \<and>
        (\<forall>h \<in> set headers. block_state ops (core_chain c) (hash h) = Some UnknownState)) \<and>
      (\<forall>k. res = HeaderError k \<longrightarrow> k < index + length headers)"
proof (induction headers arbitrary: index known)
  case (Cons h hs)
  from block_state_chain [OF core_invD(5) [OF Cons.prems], of "hash h"] obtain st where
    st: "block_state ops (core_chain c) (hash h) = Some st" by blast
  from useful_peer_ok [OF core_invD(2) [OF Cons.prems], of i] obtain pt where
    pt: "useful_peer (peers_tasks c) i = Some pt" "pt_inv pt" by (elim exE conjE) (rule that)
  note peers = core_inv_peers(1) [OF Cons.prems pt(2)] core_inv_peers(2) [where c = c and pt = pt]
  obtain r where r: "(if verify_headers_flag c then verify_block_header (e_network E) (e_time E) (hash h) (raw h) else Some (Inr ())) = Some r"
    using verify_block_header_total [of "e_network E" "e_time E" "hash h" "raw h"] by (cases "verify_headers_flag c") auto
  consider "parent_of h \<noteq> known \<or> st \<noteq> UnknownState" | e where "parent_of h = known" "st = UnknownState" "r = Inl e"
    | "parent_of h = known" "st = UnknownState" "r = Inr ()" by (cases r) auto
  then show ?case
  proof cases
    case 3
    from Cons.IH [OF Cons.prems, of "Suc index" "hash h"] obtain res c' where
      x: "verify_headers_loop E i (Suc index) (hash h) hs c = Some (res, c')" "core_inv ops db_inv H c'" "core_size c' = core_size c"
        "res = Success \<longrightarrow> c' = c \<and> headers_linked hs \<and> (hs \<noteq> [] \<longrightarrow> parent_of (hd hs) = hash h) \<and>
          (\<forall>h \<in> set hs. block_state ops (core_chain c) (hash h) = Some UnknownState)"
        "\<forall>k. res = HeaderError k \<longrightarrow> k < Suc index + length hs" by (elim exE conjE) (rule that)
    have "verify_headers_loop E i index known (h # hs) c = Some (res, c')" using 3 st r x(1) by (simp add: E)
    with x(2-5) 3 st show ?thesis by (cases hs) (auto simp: headers_linked_def)
  qed (use Cons.prems st r pt(1) peers in \<open>auto simp: E\<close>)
qed (simp add: headers_linked_def)

lemma find_unknown_ok:
  assumes c: "chain_ok ops db_inv H c"
  shows "(\<exists>h \<in> set hs. block_state ops c (hash h) = Some UnknownState) \<Longrightarrow> \<exists>k. find_unknown ops c hs = Some (Some k) \<and> k < length hs"
proof (induction hs)
  case (Cons h hs)
  from block_state_chain [OF c, of "hash h"] obtain st where st: "block_state ops c (hash h) = Some st" by blast
  show ?case
  proof (cases "st = UnknownState")
    case False
    then have "\<exists>h \<in> set hs. block_state ops c (hash h) = Some UnknownState" using Cons.prems st by auto
    from Cons.IH [OF this] st False show ?thesis by auto
  qed (simp add: st)
qed simp

lemma first_unknown_ok:
  assumes c: "chain_ok ops db_inv H c" and ne: "headers \<noteq> []"
  shows "\<exists>r. first_unknown_index ops c headers = Some r \<and> (\<forall>k. r = Some k \<longrightarrow> k < length headers)"
proof -
  from block_state_chain [OF c, of "hash (hd headers)"] obtain s0 where s0: "block_state ops c (hash (hd headers)) = Some s0" by blast
  from block_state_chain [OF c, of "hash (last headers)"] obtain s1 where s1: "block_state ops c (hash (last headers)) = Some s1" by blast
  show ?thesis
  proof (cases "s0 \<noteq> UnknownState \<and> s1 = UnknownState")
    case True
    then have "hd headers \<noteq> last headers" using s0 s1 by auto
    with ne have "last headers \<in> set (tl headers)" by (cases headers) (auto split: if_splits)
    then obtain k where k: "find_unknown ops c (tl headers) = Some (Some k)" "k < length (tl headers)"
      using find_unknown_ok [OF c, of "tl headers"] s1 True by blast
    with True s0 s1 show ?thesis by (auto simp: first_unknown_index_def)
  qed (use ne s0 s1 in \<open>auto simp: first_unknown_index_def\<close>)
qed

lemma schedule_headers_ok:
  assumes E: "e_ops E = ops" and H: "sound_headers rank H" "set hs \<subseteq> H" and c: "core_inv ops db_inv H c"
    and len: "core_size c + 2 * length hs + 1 < 2 ^ 31"
    and new: "headers_linked hs" "\<forall>h \<in> set hs. block_state ops (core_chain c) (hash h) = Some UnknownState"
  shows "\<exists>c'. schedule_headers E i hs c = Some c' \<and> core_inv ops db_inv H c' \<and> core_size c' \<le> core_size c + 2 * length hs"
proof -
  note ok = core_invD(5) [OF c]
  have unknown: "hash h \<notin> set (flat (hash_chain (core_chain c))) \<and> \<not> stored_in ops (core_chain c) (hash h)" if "h \<in> set hs" for h
    using block_state_chain [OF ok, of "hash h"] new(2) that by auto
  have dist: "distinct (map hash hs)" by (rule linked_distinct_hashes [OF H new(1)])
  have disj: "hash ` set hs \<inter> set (flat (hash_chain (core_chain c))) = {}" using unknown by blast
  have "chain_size (core_chain c) + length hs < 2 ^ 32" using len by (simp add: core_size_def parts_size_def)
  from schedule_chain [OF H ok dist disj this] obtain ch where
    1: "schedule_blocks_headers (core_chain c) hs = Some ch" "chain_ok ops db_inv H ch" "adds (hash ` set hs) {} (2 * length hs) (core_chain c) ch"
    by (elim exE conjE) (rule that)
  have part: "chain_part ops db_inv H ch (orphaned_blocks_pool c)"
    "parts_size ch (orphaned_blocks_pool c) \<le> parts_size (core_chain c) (orphaned_blocks_pool c) + 2 * length hs"
    using chain_part_adds [OF core_invD(1) [OF c] 1(2,3)] unknown by blast+
  have best: "best_storage_block ch = best_storage_block (core_chain c)" using 1(3) by (simp add: adds_def)
  from length_of_state_chain [OF 1(2), of Scheduled] length_of_state_chain [OF 1(2), of Requested] obtain n m where
    2: "length_of_blocks_state ch Scheduled = Some n" "length_of_blocks_state ch Requested = Some m" by auto
  let ?c = "c\<lparr>core_chain := ch\<rparr>"
  define d where "d = (if is_synchronizing_state (core_state ?c) then ?c
    else if n + m = 1 then switch_to_nearly_saturated_state ?c else switch_to_synchronization_state E ?c)"
  note switches = switch_to_nearly_saturated_state_def switch_to_synchronization_state_def notify_def update_synchronizing_def
  have d: "core_inv ops db_inv H d" "core_size d \<le> core_size c + 2 * length hs"
    using c part best by (cases "core_state c"; simp add: d_def core_inv_def core_size_def switches)+
  from useful_peer_ok [OF core_invD(2) [OF d(1)], of i] obtain pt where
    pt: "useful_peer (peers_tasks d) i = Some pt" "pt_inv pt" by (elim exE conjE) (rule that)
  have "core_size (d\<lparr>peers_tasks := pt\<rparr>) + 1 < 2 ^ 31" using len d(2) by (simp add: core_inv_peers(2))
  from execute_synchronization_ok [OF E core_inv_peers(1) [OF d(1) pt(2)] this, of None None] obtain c' where
    "execute_synchronization_tasks E None None (d\<lparr>peers_tasks := pt\<rparr>) = Some c'" "core_inv ops db_inv H c'" "core_size c' \<le> core_size d"
    by (auto simp: core_inv_peers(2))
  moreover have "schedule_headers E i hs c =
      do { pt \<leftarrow> useful_peer (peers_tasks d) i; execute_synchronization_tasks E None None (d\<lparr>peers_tasks := pt\<rparr>) }"
    using 1(1) 2 by (simp add: schedule_headers_def Let_def d_def)
  ultimately show ?thesis using pt(1) d(2) by simp
qed

lemma on_unknown_headers_ok:
  assumes E: "e_ops E = ops" and H: "sound_headers rank H" "set headers \<subseteq> H" and c: "core_inv ops db_inv H c"
    and len: "core_size c + 2 * length headers + 1 < 2 ^ 31" and k: "k < length headers"
  shows "\<exists>c'. on_unknown_headers E i headers k c = Some c' \<and> core_inv ops db_inv H c' \<and> core_size c' \<le> core_size c + 2 * length headers"
proof -
  define known where "known = (if k > 0 then hash (headers ! (k - 1)) else parent_of (hd headers))"
  from block_state_chain [OF core_invD(5) [OF c], of known] obtain st where st: "block_state ops (core_chain c) known = Some st" by blast
  show ?thesis
  proof (cases "close_connection_on_bad_block c \<and> st = DeadEnd")
    case True
    then show ?thesis using st c by (simp add: on_unknown_headers_def known_def E)
  next
    case False
    from best_header_chain [OF core_invD(5) [OF c]] obtain b where b: "best_block_header (core_chain c) = Some b" by blast
    from verify_headers_loop_ok [OF E c, of i 0 known "drop k headers"] obtain res c1 where
      1: "verify_headers_loop E i 0 known (drop k headers) c = Some (res, c1)" "core_inv ops db_inv H c1" "core_size c1 = core_size c"
        "res = Success \<longrightarrow> c1 = c \<and> headers_linked (drop k headers) \<and> (drop k headers \<noteq> [] \<longrightarrow> parent_of (hd (drop k headers)) = known) \<and>
          (\<forall>h \<in> set (drop k headers). block_state ops (core_chain c) (hash h) = Some UnknownState)" by (elim exE conjE) (rule that)
    have run: "on_unknown_headers E i headers k c = (case res of
        HeaderError n \<Rightarrow> Some (c1\<lparr>core_chain := mark_dead_end_block (core_chain c1) (hash (headers ! (k + n)))\<rparr>)
      | Skip \<Rightarrow> Some c1 | Success \<Rightarrow> schedule_headers E i (drop k headers) c1)"
      using st False 1(1) b
      by (cases "close_connection_on_bad_block c") (simp_all add: on_unknown_headers_def known_def E verify_headers_def)
    show ?thesis
    proof (cases res)
      case Success
      have "set (drop k headers) \<subseteq> H" using H(2) set_drop_subset [of k headers] by blast
      moreover have "core_size c + 2 * length (drop k headers) + 1 < 2 ^ 31" using len by simp
      ultimately obtain c' where "schedule_headers E i (drop k headers) c = Some c'" "core_inv ops db_inv H c'"
          "core_size c' \<le> core_size c + 2 * length (drop k headers)"
        using schedule_headers_ok [OF E H(1) _ c, of "drop k headers" i] 1(4) Success by blast
      with run Success 1(4) show ?thesis by simp
    next
      case (HeaderError n)
      with run 1(2,3) show ?thesis by (simp add: core_inv_dead_end)
    qed (use run 1(2,3) in simp)
  qed
qed

lemma on_headers_ok:
  assumes E: "e_ops E = ops" and H: "sound_headers rank H" "set headers \<subseteq> H" and c: "core_inv ops db_inv H c"
    and len: "core_size c + 2 * length headers + 1 < 2 ^ 31" and ne: "headers \<noteq> []"
  shows "\<exists>c'. on_headers E i headers c = Some c' \<and> core_inv ops db_inv H c' \<and> core_size c' \<le> core_size c + 2 * length headers"
proof -
  let ?c = "c\<lparr>peers_tasks := on_headers_received (peers_tasks c) i\<rparr>"
  have c0: "core_inv ops db_inv H ?c" "core_size ?c = core_size c"
    using core_inv_peers(1) [OF c on_headers_received_ok [OF core_invD(2) [OF c]]] by (simp_all add: core_inv_peers(2))
  from block_state_chain [OF core_invD(5) [OF c], of "parent_of (hd headers)"] obtain st where
    st: "block_state ops (core_chain c) (parent_of (hd headers)) = Some st" by blast
  from first_unknown_ok [OF core_invD(5) [OF c] ne] obtain r where
    r: "first_unknown_index ops (core_chain c) headers = Some r" "\<forall>k. r = Some k \<longrightarrow> k < length headers" by blast
  consider "st = UnknownState" | "st \<noteq> UnknownState" "r = None" | k where "st \<noteq> UnknownState" "r = Some k" by (cases r) auto
  then show ?thesis
  proof cases
    case 1
    obtain pt bad where p: "penalize (on_headers_received (peers_tasks c) i) i = (pt, bad)" by force
    have "pt_inv pt" using penalize_ok [OF core_invD(2) [OF c0(1)], of i pt bad] p by simp
    from core_inv_peers(1) [OF c this] ne 1 st p show ?thesis by (simp add: on_headers_def E Let_def core_inv_peers(2))
  next
    case 2
    from useful_peer_ok [OF core_invD(2) [OF c0(1)], of i] obtain pt where
      pt: "useful_peer (peers_tasks ?c) i = Some pt" "pt_inv pt" by (elim exE conjE) (rule that)
    from core_inv_peers(1) [OF c pt(2)] ne 2 st r(1) pt(1) show ?thesis by (simp add: on_headers_def E core_inv_peers(2))
  next
    case 3
    have "core_size ?c + 2 * length headers + 1 < 2 ^ 31" "k < length headers" using len c0(2) 3 r(2) by simp_all
    from on_unknown_headers_ok [OF E H c0(1) this, of i] ne 3 st r(1) c0(2) show ?thesis by (simp add: on_headers_def E)
  qed
qed

section \<open>Blocks\<close>

lemma on_orphan_block_ok:
  assumes H: "sound_headers rank H" and c: "core_inv ops db_inv H c" and b: "header b \<in> H"
    "\<not> is_connected ops (core_chain c) (block_hash_of b)" "\<not> is_connected ops (core_chain c) (parent_of (header b))"
  shows "\<exists>c'. on_orphan_block E b c = Some c' \<and> core_inv ops db_inv H c' \<and> core_size c' \<le> core_size c + 2"
proof (cases "is_synchronizing_state (core_state c)")
  case True
  from forget_block_chain [OF core_invD(5) [OF c], of "block_hash_of b"] obtain pos c1 where
    1: "forget_block (core_chain c) (block_hash_of b) = Some (pos, c1)" "chain_ok ops db_inv H c1" "shrinks (core_chain c) c1" by blast
  obtain removed pool where r: "remove_blocks_for_parent (orphaned_blocks_pool c) (block_hash_of b) = (removed, pool)" by force
  from leave_headers_chain [OF 1(2), of "map block_hash_of removed"] obtain c2 where
    2: "forget_blocks_leave_header c1 (map block_hash_of removed) = Some c2" "chain_ok ops db_inv H c2" "shrinks c1 c2"
    by (elim exE conjE) (rule that)
  have sh: "shrinks (core_chain c) c2" by (rule shrinks_trans [OF 1(3) 2(3)])
  note rd = remove_descendants [OF H core_invD(7) [OF c] r]
  have "pool_inv pool" using rd(1) by (simp add: pool_ok_def)
  note part = chain_part_shrink [OF core_invD(1) [OF c] 2(2) sh this rd(5)]
  have "core_inv ops db_inv H (c\<lparr>core_chain := c2, orphaned_blocks_pool := pool\<rparr>)"
    using core_inv_chain [OF c part(1)] sh by (simp add: shrinks_def)
  moreover have "on_orphan_block E b c = Some (c\<lparr>core_chain := c2, orphaned_blocks_pool := pool\<rparr>)"
    using True 1(1) r 2(1) by (simp add: on_orphan_block_def Let_def)
  ultimately show ?thesis using part(2) by (simp add: core_size_def)
next
  case False
  let ?pool = "orphaned_blocks_pool c"
  from leave_header_chain [OF core_invD(5) [OF c], of "block_hash_of b"] obtain pos c1 where
    1: "forget_block_leave_header (core_chain c) (block_hash_of b) = Some (pos, c1)" "chain_ok ops db_inv H c1" "shrinks (core_chain c) c1"
    by (elim exE conjE) (rule that)
  note part = chain_part_forget [OF core_invD(1) [OF c] 1(2,3)]
  have keep: "best_storage_block c1 = best_storage_block (core_chain c)" "all_verifying (core_chain c) \<longrightarrow> all_verifying c1"
    using 1(3) by (simp_all add: shrinks_def)
  show ?thesis
  proof (cases "contains_unknown_block ?pool (block_hash_of b)")
    case True
    with False 1(1) core_inv_chain [OF c part(1) keep] part(2) show ?thesis
      by (simp add: on_orphan_block_def Let_def core_size_def)
  next
    case n: False
    then obtain pool where p: "insert_unknown_block (e_now E) ?pool b = Some pool"
      by (simp add: insert_unknown_block_def contains_unknown_block_def)
    then have blocks: "pool_blocks pool = pool_blocks (insert_orphaned_block ?pool b)"
      by (intro pool_blocks_cong) (auto simp: insert_unknown_block_def insert_orphaned_block_def Let_def split: if_splits)
    have con: "\<not> is_connected ops c1 (block_hash_of b)" "\<not> is_connected ops c1 (parent_of (header b))"
      using b(2,3) connected_shrinks [OF 1(3)] by blast+
    note part' = chain_part_orphan [OF part(1) b(1) con insert_block_inv(2) [OF core_invD(6) [OF c] p] blocks]
    from False n 1(1) p core_inv_chain [OF c part'(1) keep] part(2) part'(2) show ?thesis
      by (simp add: on_orphan_block_def Let_def core_size_def)
  qed
qed

lemma on_connected_block_ok:
  assumes H: "sound_headers rank H" and c: "core_inv ops db_inv H c" and b: "header b \<in> H"
    "\<not> is_connected ops (core_chain c) (block_hash_of b)" "is_connected ops (core_chain c) (parent_of (header b))"
    and len: "core_size c + 2 < 2 ^ 31"
  shows "\<exists>bs c'. on_connected_block E i b c = Some (b # bs, c') \<and> core_inv ops db_inv H c' \<and> core_size c' \<le> core_size c + 2 \<and>
    header ` set bs \<subseteq> H \<and> block_hash_of ` set (b # bs) \<subseteq> verifying_in (core_chain c') \<and>
    set bs = {x. descends (pool_blocks (orphaned_blocks_pool c)) (block_hash_of b) x} \<and> distinct (map block_hash_of (b # bs)) \<and>
    pool_blocks (orphaned_blocks_pool c') =
      {(p, x) \<in> pool_blocks (orphaned_blocks_pool c). \<not> descends (pool_blocks (orphaned_blocks_pool c)) (block_hash_of b) x} \<and>
    (\<forall>h \<in> block_hash_of ` set (b # bs). verifying_blocks_by_peer c' h = Some i)"
proof -
  let ?pool = "orphaned_blocks_pool c"
  from meter_checkpoint_inv [OF core_invD(4) [OF c], of "e_now E"] obtain meter where
    m: "meter_checkpoint (e_now E) (sync_speed_meter c) = Some meter" "meter_inv meter" by (elim exE conjE) (rule that)
  from useful_peer_ok [OF core_invD(2) [OF c], of i] obtain pt where
    pt: "useful_peer (peers_tasks c) i = Some pt" "pt_inv pt" by (elim exE conjE) (rule that)
  obtain bs pool where r: "remove_blocks_for_parent ?pool (block_hash_of b) = (bs, pool)" by force
  have "parts_size (core_chain c) ?pool + 2 < 2 ^ 32" using len by (simp add: core_size_def)
  from chain_part_connect [OF H core_invD(1) [OF c] b r this] obtain c1 c2 where
    x: "forget_blocks_leave_header (core_chain c) (map block_hash_of (b # bs)) = Some c1"
      "chain_verify_blocks c1 (map header (b # bs)) = Some c2" "chain_part ops db_inv H c2 pool"
      "parts_size c2 pool \<le> parts_size (core_chain c) ?pool + 2" "best_storage_block c2 = best_storage_block (core_chain c)"
      "verifying_in c2 = verifying_in (core_chain c) \<union> block_hash_of ` set (b # bs)"
      "all_verifying (core_chain c) \<longrightarrow> all_verifying c2"
    by (elim exE conjE) (rule that)
  define d where "d = c\<lparr>sync_speed_meter := meter, peers_tasks := pt, orphaned_blocks_pool := pool, core_chain := c2\<rparr>"
  let ?d = "remember_verifying i (map block_hash_of (b # bs)) d"
  have run: "on_connected_block E i b c = Some (b # bs, ?d)"
    using m(1) pt(1) r x(1,2)
    by (simp add: on_connected_block_def Let_def d_def del: list.map forget_blocks_leave_header.simps chain_verify_blocks.simps)
  have same: "same_parts d ?d" by (simp add: same_parts_def remember_verifying_def)
  have "core_inv ops db_inv H d" "core_size d \<le> core_size c + 2"
    using c m(2) pt(2) x(3,4,5,7) by (simp_all add: d_def core_inv_def core_size_def)
  then have inv: "core_inv ops db_inv H ?d" "core_size ?d \<le> core_size c + 2" using same_parts_inv [OF same] by simp_all
  have "core_chain ?d = c2" by (simp add: remember_verifying_def d_def)
  with x(6) have "block_hash_of ` set (b # bs) \<subseteq> verifying_in (core_chain ?d)" by (simp only: Un_upper2)
  moreover have "orphaned_blocks_pool ?d = pool" by (simp add: remember_verifying_def d_def)
  moreover have "\<forall>h \<in> block_hash_of ` set (b # bs). verifying_blocks_by_peer ?d h = Some i"
    using fold_map_upd [of _ "map block_hash_of (b # bs)" i] by (simp add: remember_verifying_def del: list.map)
  moreover note remove_descendants(2,3) [OF H core_invD(7) [OF c] r] remove_blocks_for_parent_ok(2,3) [OF core_invD(6) [OF c] r]
  ultimately show ?thesis using run inv by blast
qed

lemma on_new_block_ok:
  assumes E: "e_ops E = ops" and H: "sound_headers rank H" and c: "core_inv ops db_inv H c" and b: "header b \<in> H"
    "\<not> is_connected ops (core_chain c) (block_hash_of b)" and len: "core_size c + 2 < 2 ^ 31"
  shows "\<exists>res c'. on_new_block E i b c = Some (res, c') \<and> core_inv ops db_inv H c' \<and> core_size c' \<le> core_size c + 2 \<and> to_verify_ok H b res c'"
proof -
  let ?p = "parent_of (header b)" let ?ch = "core_chain c"
  from block_state_chain [OF core_invD(5) [OF c], of ?p] obtain st where
    st: "block_state ops ?ch ?p = Some st" "st = Verifying \<longleftrightarrow> ?p \<in> verifying_in ?ch"
      "st = Stored \<longleftrightarrow> ?p \<notin> set (flat (hash_chain ?ch)) \<and> stored_in ops ?ch ?p"
      "st = UnknownState \<or> st = DeadEnd \<longleftrightarrow> ?p \<notin> set (flat (hash_chain ?ch)) \<and> \<not> stored_in ops ?ch ?p"
    by (elim exE conjE) (rule that)
  have queued: "?p \<in> set (flat (hash_chain ?ch)) \<Longrightarrow> \<not> stored_in ops ?ch ?p" by (rule chain_partD(3) [OF core_invD(1) [OF c]])
  have verifying: "?p \<in> verifying_in ?ch \<Longrightarrow> ?p \<in> set (flat (hash_chain ?ch))" by (rule verifying_queued [OF core_invD(5) [OF c]])
  consider "st = UnknownState \<or> st = DeadEnd" | "st = Verifying \<or> st = Stored" | "st = Requested \<or> st = Scheduled" by (cases st) auto
  then show ?thesis
  proof cases
    case 1
    then have "\<not> is_connected ops ?ch ?p" using st(4) verifying by (auto simp: is_connected_def)
    from on_orphan_block_ok [OF H c b this, of E] obtain c' where
      "on_orphan_block E b c = Some c'" "core_inv ops db_inv H c'" "core_size c' \<le> core_size c + 2" by (elim exE conjE) (rule that)
    with 1 st(1) c show ?thesis by (simp add: on_new_block_def E)
  next
    case 2
    then have "is_connected ops ?ch ?p" using st(2,3) by (auto simp: is_connected_def)
    from on_connected_block_ok [OF H c b this len, of E i] obtain bs c' where
      x: "on_connected_block E i b c = Some (b # bs, c')" "core_inv ops db_inv H c'" "core_size c' \<le> core_size c + 2"
        "header ` set bs \<subseteq> H" "block_hash_of ` set (b # bs) \<subseteq> verifying_in (core_chain c')" by (elim exE conjE) (rule that)
    have "to_verify_ok H b (Some (b # bs)) c'" using x(4,5) b(1) by (simp add: to_verify_ok_def)
    moreover have "on_new_block E i b c = Some (Some (b # bs), c')" using 2 st(1) x(1) by (auto simp: on_new_block_def E)
    ultimately show ?thesis using x(2,3) by blast
  next
    case 3
    then have "\<not> is_connected ops ?ch ?p" using st queued by (auto simp: is_connected_def)
    note part = chain_part_orphan [OF core_invD(1) [OF c] b this insert_block_inv(1) [OF core_invD(6) [OF c]] refl]
    from useful_peer_ok [OF core_invD(2) [OF c], of i] obtain pt where
      pt: "useful_peer (peers_tasks c) i = Some pt" "pt_inv pt" by (elim exE conjE) (rule that)
    let ?c = "c\<lparr>peers_tasks := pt, orphaned_blocks_pool := insert_orphaned_block (orphaned_blocks_pool c) b\<rparr>"
    have "core_inv ops db_inv H ?c" "core_size ?c \<le> core_size c + 2"
      using c pt(2) part by (simp_all add: core_inv_def core_size_def)
    moreover have "on_new_block E i b c = Some (None, ?c)" using 3 st(1) pt(1) by (auto simp: on_new_block_def E)
    ultimately show ?thesis by simp
  qed
qed

lemma on_block_ok:
  assumes E: "e_ops E = ops" and H: "sound_headers rank H" and c: "core_inv ops db_inv H c" and b: "header b \<in> H"
    and len: "core_size c + 2 < 2 ^ 31"
  shows "\<exists>res c'. on_block E i b c = Some (res, c') \<and> core_inv ops db_inv H c' \<and> core_size c' \<le> core_size c + 2 \<and> to_verify_ok H b res c'"
proof -
  let ?h = "block_hash_of b"
  from on_block_received_ok [OF core_invD(2) [OF c], of "e_now E" i ?h] obtain p1 where
    1: "on_block_received (e_now E) (peers_tasks c) i ?h = Some p1" "pt_inv p1" by blast
  let ?c = "c\<lparr>peers_tasks := p1\<rparr>"
  note c1 = core_inv_peers(1) [OF c 1(2)]
  have size: "core_size ?c = core_size c" by (rule core_inv_peers(2))
  from block_state_chain [OF core_invD(5) [OF c], of ?h] obtain st where
    st: "block_state ops (core_chain c) ?h = Some st" "st = Verifying \<longleftrightarrow> ?h \<in> verifying_in (core_chain c)"
      "st = Stored \<longleftrightarrow> ?h \<notin> set (flat (hash_chain (core_chain c))) \<and> stored_in ops (core_chain c) ?h" by (elim exE conjE) (rule that)
  show ?thesis
  proof (cases "st = Verifying \<or> st = Stored")
    case True
    from useful_peer_ok [OF 1(2), of i] obtain pt where pt: "useful_peer p1 i = Some pt" "pt_inv pt" by (elim exE conjE) (rule that)
    with True st(1) 1(1) core_inv_peers(1) [OF c pt(2)] show ?thesis by (auto simp: on_block_def E core_inv_peers(2))
  next
    case False
    show ?thesis
    proof (cases "st = DeadEnd \<and> close_connection_on_bad_block c")
      case True
      with st(1) 1(1) c1 show ?thesis by (simp add: on_block_def E core_inv_peers(2))
    next
      case bad: False
      have "\<not> is_connected ops (core_chain ?c) ?h"
        using False st(2,3) chain_partD(3) [OF core_invD(1) [OF c], of ?h] by (auto simp: is_connected_def)
      moreover have "core_size ?c + 2 < 2 ^ 31" using len size by simp
      ultimately obtain res c' where "on_new_block E i b ?c = Some (res, c')" "core_inv ops db_inv H c'" "core_size c' \<le> core_size ?c + 2"
          "to_verify_ok H b res c'" using on_new_block_ok [OF E H c1 b, of i] by blast
      moreover have "on_block E i b c = on_new_block E i b ?c" using False bad st(1) 1(1) by (auto simp: on_block_def E)
      ultimately show ?thesis using size by simp
    qed
  qed
qed

lemma on_notfound_ok:
  assumes E: "e_ops E = ops" and c: "core_inv ops db_inv H c" and len: "core_size c + 1 < 2 ^ 31"
  shows "\<exists>c'. on_notfound E i m c = Some c' \<and> core_inv ops db_inv H c' \<and> core_size c' \<le> core_size c"
proof -
  obtain hashes p1 where 1: "reset_blocks_tasks (peers_tasks c) i = (hashes, p1)" by force
  note r = reset_blocks_tasks_ok [OF core_invD(2) [OF c] 1]
  from unuseful_peer_ok [OF r(1), of i] r(2) obtain p2 where 2: "unuseful_peer p1 i = Some p2" "pt_inv p2" by auto
  define d where "d = (if is_synchronizing_state (core_state c) then misbehaving i (c\<lparr>peers_tasks := p2\<rparr>) else c\<lparr>peers_tasks := p2\<rparr>)"
  have d: "core_inv ops db_inv H d" "core_size d = core_size c"
    using core_inv_peers(1) [OF c 2(2)] by (simp_all add: d_def core_inv_peers(2))
  then have "core_size d + 1 < 2 ^ 31" using len by simp
  from execute_synchronization_ok [OF E d(1) this, of "Some hashes" None] d(2) obtain c' where
    c': "execute_synchronization_tasks E (Some hashes) None d = Some c'" "core_inv ops db_inv H c'" "core_size c' \<le> core_size c" by auto
  then have "on_notfound E i m c \<in> {Some c, Some c'}"
    using 1 2(1) by (auto simp: on_notfound_def Let_def d_def split: option.splits)
  then show ?thesis using c c'(2,3) by auto
qed

section \<open>Results of verification\<close>

lemma awake_same_parts: "same_parts c (awake_waiting_threads h c)"
  by (auto simp: same_parts_def awake_waiting_threads_def wake_def Let_def split: option.splits)

lemma relay_blocks_ok:
  assumes E: "e_ops E = ops"
  shows "core_inv ops db_inv H c \<Longrightarrow> \<exists>c'. relay_blocks E hashes c = Some c' \<and> same_parts c c'"
proof (induction hashes arbitrary: c)
  case (Cons h hs)
  from core_invD(5) [OF Cons.prems] obtain x where "stored_chain ops db_inv (chain_storage (core_chain c)) x" by (rule chain_okE)
  then have i: "db_inv (bdb (chain_storage (core_chain c)))" by (simp add: stored_chain_def chain_inv_def)
  then obtain found where f: "db_block ops (chain_storage (core_chain c)) (RefHash h) = Some found"
    using db_block_view [OF i, of h] by (cases "prev_of (kv_view ops (bdb (chain_storage (core_chain c)))) h") auto
  define d where "d = (case found of None \<Rightarrow> c | Some b \<Rightarrow> execute (RelayNewBlock b) c)"
  have same: "same_parts c d" by (simp add: d_def split: option.splits)
  then have "core_inv ops db_inv H d" using Cons.prems same_parts_inv(1) by blast
  from Cons.IH [OF this] obtain c' where "relay_blocks E hs d = Some c'" "same_parts d c'" by blast
  moreover have "relay_blocks E (h # hs) c = relay_blocks E hs d" using f by (simp add: relay_blocks_def E d_def)
  ultimately show ?case using same_parts_trans [OF same] by auto
qed (simp add: relay_blocks_def)

lemma on_verification_error_ok:
  assumes E: "e_ops E = ops" and c: "core_inv ops db_inv H c" and len: "core_size c + 1 < 2 ^ 31"
  shows "\<exists>c'. on_block_verification_error E h c = Some c' \<and> core_inv ops db_inv H c' \<and> core_size c' \<le> core_size c"
proof -
  define d where "d = (let c = c\<lparr>do_not_relay := do_not_relay c - {h}\<rparr> in case verifying_blocks_by_peer c h of
    Some i \<Rightarrow> if close_connection_on_bad_block c then dos i c else c | None \<Rightarrow> c)"
  have "same_parts c d"
    by (auto simp: d_def same_parts_def dos_def Let_def split: option.splits prod.splits)
  note same = same_parts_inv [OF this]
  have d: "core_inv ops db_inv H d" "core_size d = core_size c" using c same by blast+
  from forget_children_chain [OF core_invD(5) [OF d(1)], of h] obtain ch where
    1: "forget_block_with_children (core_chain d) h = Some ch" "chain_ok ops db_inv H ch" "shrinks (core_chain d) ch" by blast
  note f = core_inv_forget [OF d(1) 1(2,3)]
  let ?e = "d\<lparr>core_chain := mark_dead_end_block ch h\<rparr>"
  have "core_inv ops db_inv H ?e" "core_size ?e \<le> core_size c"
    using f d(2) core_inv_dead_end [where c = "d\<lparr>core_chain := ch\<rparr>" and h = h] by simp_all
  then have e: "core_inv ops db_inv H (awake_waiting_threads h ?e)" "core_size (awake_waiting_threads h ?e) \<le> core_size c"
    by (simp_all add: same_parts_inv [OF awake_same_parts])
  then have "core_size (awake_waiting_threads h ?e) + 1 < 2 ^ 31" using len by simp
  from execute_synchronization_ok [OF E e(1) this, of None None] e(2) 1(1) show ?thesis
    by (auto simp: on_block_verification_error_def d_def Let_def cong: option.case_cong)
qed

lemma store_verified_ok:
  assumes c: "chain_part ops db_inv H ch pool" and len: "parts_size ch pool + MAX_FORK_ROUTE_PRESET + 2 < 2 ^ 32"
    and b: "storable ops op_ok ch b"
  shows "\<exists>pos c1 c2 added. forget_block_with_state_leave_header ch (block_hash_of b) Verifying = Some (pos, c1) \<and>
    (if pos \<noteq> Missing then insert_best_block ops c1 b else Some (c1, Inr [])) = Some (c2, Inr added) \<and>
    chain_part ops db_inv H c2 pool \<and> parts_size c2 pool \<le> parts_size ch pool + MAX_FORK_ROUTE_PRESET \<and>
    (all_verifying ch \<longrightarrow> all_verifying c2) \<and> (block_hash_of b \<in> verifying_in ch \<longrightarrow> stored_in ops c2 (block_hash_of b))"
proof (cases "block_hash_of b \<in> verifying_in ch")
  case True
  with b obtain origin where o: "op_ok (Insert (BlockData (block_hash_of b) (to_raw_block b)))" "block_hash_of b \<noteq> 0"
    "block_origin ops (chain_storage ch) (header b) = Some (Inr origin)"
    unfolding storable_def by blast
  from chain_part_store [OF c o(1) True o(2,3) len] obtain pos c1 c2 added where
    x: "forget_block_with_state_leave_header ch (block_hash_of b) Verifying = Some (pos, c1)" "pos \<noteq> Missing"
      "insert_best_block ops c1 b = Some (c2, Inr added)" "chain_part ops db_inv H c2 pool"
      "parts_size c2 pool \<le> parts_size ch pool + MAX_FORK_ROUTE_PRESET" "all_verifying ch \<longrightarrow> all_verifying c2"
      "stored_in ops c2 (block_hash_of b)" by (elim exE conjE) (rule that)
  then show ?thesis by auto
next
  case False
  from forget_verifying_chain [OF chain_partD(1) [OF c], of "block_hash_of b"] obtain pos c1 where
    1: "forget_block_with_state_leave_header ch (block_hash_of b) Verifying = Some (pos, c1)" "chain_ok ops db_inv H c1" "shrinks ch c1"
      "pos = Missing \<longleftrightarrow> block_hash_of b \<notin> verifying_in ch" by (elim exE conjE) (rule that)
  note f = chain_part_forget [OF c 1(2,3)]
  have "all_verifying ch \<longrightarrow> all_verifying c1" using 1(3) by (simp add: shrinks_def)
  with False 1(1,4) f show ?thesis by (intro exI [of _ pos] exI [of _ c1] exI [of _ "[]"]) simp
qed

lemma on_verification_success_ok:
  assumes E: "e_ops E = ops" and c: "core_inv ops db_inv H c" and len: "core_size c + MAX_FORK_ROUTE_PRESET + 2 < 2 ^ 31"
    and b: "storable ops op_ok (core_chain c) b"
  shows "\<exists>c'. on_block_verification_success E b c = Some c' \<and> core_inv ops db_inv H c' \<and> core_size c' \<le> core_size c + MAX_FORK_ROUTE_PRESET"
proof -
  let ?h = "block_hash_of b"
  from meter_checkpoint_inv [OF core_invD(3) [OF c], of "e_now E"] obtain meter where
    m: "meter_checkpoint (e_now E) (block_speed_meter c) = Some meter" "meter_inv meter" by (elim exE conjE) (rule that)
  have "parts_size (core_chain c) (orphaned_blocks_pool c) + MAX_FORK_ROUTE_PRESET + 2 < 2 ^ 32" using len by (simp add: core_size_def)
  from store_verified_ok [OF core_invD(1) [OF c] this b] obtain pos c1 c2 added where
    x: "forget_block_with_state_leave_header (core_chain c) ?h Verifying = Some (pos, c1)"
      "(if pos \<noteq> Missing then insert_best_block ops c1 b else Some (c1, Inr [])) = Some (c2, Inr added)"
      "chain_part ops db_inv H c2 (orphaned_blocks_pool c)"
      "parts_size c2 (orphaned_blocks_pool c) \<le> parts_size (core_chain c) (orphaned_blocks_pool c) + MAX_FORK_ROUTE_PRESET"
      "all_verifying (core_chain c) \<longrightarrow> all_verifying c2" by (elim exE conjE) (rule that)
  define d where "d = c\<lparr>block_speed_meter := meter, do_not_relay := do_not_relay c - {?h}, core_chain := c2,
    shared_state := update_best_storage_block_height (bb_number (best_storage_block c2)) (shared_state c)\<rparr>"
  have d: "core_inv ops db_inv H d" "core_size d \<le> core_size c + MAX_FORK_ROUTE_PRESET"
    using c m(2) x(3-5) by (simp_all add: d_def core_inv_def core_size_def update_best_storage_block_height_def)
  define e where "e = awake_waiting_threads ?h (if added = [] then d else notify (BestBlockInserted (last added)) d)"
  have e: "core_inv ops db_inv H e" "core_size e \<le> core_size c + MAX_FORK_ROUTE_PRESET"
    using d by (simp_all add: e_def same_parts_inv [OF awake_same_parts])
  then have "core_size e + 1 < 2 ^ 31" using len by simp
  from execute_synchronization_ok [OF E e(1) this, of None None] obtain f where
    f: "execute_synchronization_tasks E None None e = Some f" "core_inv ops db_inv H f" "core_size f \<le> core_size e" by blast
  from relay_blocks_ok [OF E f(2), of added] obtain g where g: "relay_blocks E added f = Some g" "same_parts f g" by blast
  have "on_block_verification_success E b c = do { c' \<leftarrow> execute_synchronization_tasks E None None e;
      if ?h \<notin> do_not_relay c \<and> (is_saturated (core_state c') \<or> is_nearly_saturated (core_state c'))
      then relay_blocks E added c' else Some c' }"
    using m(1) x(1,2) by (cases "pos = Missing") (auto simp: on_block_verification_success_def Let_def E d_def e_def)
  then have "on_block_verification_success E b c \<in> {Some f, Some g}" using f(1) g(1) by simp
  then show ?thesis using f(2,3) e(2) same_parts_inv [OF g(2)] by auto
qed

section \<open>Management rounds\<close>

lemma forget_failed_ok:
  "core_inv ops db_inv H c \<Longrightarrow> \<exists>c'. forget_failed_blocks hs c = Some c' \<and> core_inv ops db_inv H c' \<and> core_size c' \<le> core_size c"
proof (induction hs arbitrary: c)
  case (Cons h hs)
  from forget_children_chain [OF core_invD(5) [OF Cons.prems], of h] obtain ch where
    1: "forget_block_with_children (core_chain c) h = Some ch" "chain_ok ops db_inv H ch" "shrinks (core_chain c) ch" by blast
  note f = core_inv_forget [OF Cons.prems 1(2,3)]
  from Cons.IH [OF f(1)] f(2) 1(1) show ?case by auto
qed simp

lemma manage_headers_ok: "pt_inv pt \<Longrightarrow> manage_headers_loop cfg now rs ps pt = (w, ps', pt') \<Longrightarrow> pt_inv pt'"
proof (induction cfg now rs ps pt arbitrary: w ps' pt' rule: manage_headers_loop.induct)
  case (2 cfg now i request rest ps pt)
  obtain p1 bad where 1: "on_peer_headers_failure pt i = (p1, bad)" by force
  have "pt_inv p1" by (rule on_peer_headers_failure_ok [OF "2.prems"(1) 1])
  with 2 1 show ?case by (auto simp: Let_def split: if_splits prod.splits)
qed simp

lemma manage_syncing_ok:
  assumes E: "e_ops E = ops" and c: "core_inv ops db_inv H c" and len: "core_size c + 1 < 2 ^ 31"
  shows "\<exists>c'. manage_syncing E c = Some c' \<and> core_inv ops db_inv H c' \<and> core_size c' \<le> core_size c"
proof -
  from manage_blocks_loop_ok [OF core_invD(2) [OF c] refl, of manage_peers_default "e_now E" "core_peers c"] obtain rq fg w ps pt where
    1: "manage_blocks_loop manage_peers_default (e_now E) (blocks_requests (peers_tasks c)) (core_peers c) (peers_tasks c) =
        Some (rq, fg, w, ps, pt)" "pt_inv pt" by (elim exE conjE) (rule that)
  define d where "d = c\<lparr>core_peers := ps, peers_tasks := pt, log := (log c)\<lparr>closed := closed (log c) @ w\<rparr>\<rparr>"
  have d: "core_inv ops db_inv H d" "core_size d = core_size c" using c 1(2) by (simp_all add: d_def core_inv_def core_size_def)
  from forget_failed_ok [OF d(1), of fg] obtain e where
    e: "forget_failed_blocks fg d = Some e" "core_inv ops db_inv H e" "core_size e \<le> core_size d" by blast
  have "core_size e + 1 < 2 ^ 31" using e(3) d(2) len by simp
  from execute_synchronization_ok [OF E e(2) this] obtain f where
    f: "execute_synchronization_tasks E (none_if_empty rq) (none_if_empty fg) e = Some f" "core_inv ops db_inv H f" "core_size f \<le> core_size e"
    by blast
  obtain w' ps' pt' where h: "manage_headers_loop manage_peers_default (e_now E) (headers_requests (peers_tasks f)) (core_peers f) (peers_tasks f) =
      (w', ps', pt')" by (rule prod_cases3)
  note p = manage_headers_ok [OF core_invD(2) [OF f(2)] h]
  have "manage_syncing E c = Some (f\<lparr>core_peers := ps', peers_tasks := pt', log := (log f)\<lparr>closed := closed (log f) @ w'\<rparr>\<rparr>)"
    using 1(1) e(1) f(1) h
    by (simp add: manage_syncing_def manage_synchronization_peers_blocks_def manage_synchronization_peers_headers_def d_def Let_def)
  then show ?thesis using f(2,3) e(3) d(2) p by (simp add: core_inv_def core_size_def)
qed

lemma manage_saturated_ok:
  assumes c: "core_inv ops db_inv H c"
  shows "\<exists>c'. manage_saturated E c = Some c' \<and> core_inv ops db_inv H c' \<and> core_size c' \<le> core_size c"
proof -
  define hs where "hs = unknown_to_remove_loop (seconds (removal_time_ms manage_unknown_default)) (e_now E)
    (length (unknown_blocks (orphaned_blocks_pool c)) - max_number manage_unknown_default) (unknown_blocks (orphaned_blocks_pool c))"
  obtain removed pool where r: "remove_blocks (orphaned_blocks_pool c) hs = (removed, pool)" by force
  note ok = remove_blocks_ok [OF core_invD(6) [OF c] r]
  have sub: "pool_blocks pool \<subseteq> pool_blocks (orphaned_blocks_pool c)" unfolding ok(2) by (rule Collect_case_prod_subset)
  from forget_blocks_chain [OF core_invD(5) [OF c], of removed] obtain ch where
    1: "forget_blocks (core_chain c) removed = Some ch" "chain_ok ops db_inv H ch" "shrinks (core_chain c) ch" by blast
  note p0 = chain_part_shrink [OF core_invD(1,5) [OF c] shrinks_refl ok(1) sub]
    and p1 = chain_part_shrink [OF core_invD(1) [OF c] 1(2,3) ok(1) sub]
  have c0: "core_inv ops db_inv H (c\<lparr>orphaned_blocks_pool := pool\<rparr>)" "core_size (c\<lparr>orphaned_blocks_pool := pool\<rparr>) \<le> core_size c"
    using core_inv_chain [OF c p0(1)] p0(2) by (simp_all add: core_size_def)
  have c1: "core_inv ops db_inv H (c\<lparr>core_chain := ch, orphaned_blocks_pool := pool\<rparr>)"
    "core_size (c\<lparr>core_chain := ch, orphaned_blocks_pool := pool\<rparr>) \<le> core_size c"
    using core_inv_chain [OF c p1(1)] p1(2) 1(3) by (simp_all add: core_size_def shrinks_def)
  have "manage_saturated E c = (if removed = [] then Some (c\<lparr>orphaned_blocks_pool := pool\<rparr>)
      else Some (c\<lparr>core_chain := ch, orphaned_blocks_pool := pool\<rparr>))"
    using r 1(1) by (simp add: manage_saturated_def manage_unknown_orphaned_blocks_def hs_def Let_def)
  then show ?thesis using c0 c1 by simp
qed

lemma manage_round_ok:
  assumes E: "e_ops E = ops" and c: "core_inv ops db_inv H c" and len: "core_size c + 1 < 2 ^ 31"
  shows "\<exists>c'. manage_round E c = Some c' \<and> core_inv ops db_inv H c' \<and> core_size c' \<le> core_size c"
  using manage_syncing_ok [OF E, of H "print_synchronization_information E c"]
    manage_saturated_ok [of H "print_synchronization_information E c" E] c len
  by (simp add: manage_round_def Let_def)

end

end
