(* ===== verification/Client_Events.thy ===== *)
theory Client_Events
  imports Client_Safety
begin

text \<open>
  The synchronization client as a machine that takes events: messages of peers, results of the verification thread and
  rounds of the management thread, each under the lock of the client. An event that can occur never makes the client
  panic, and the states that sequences of events reach are consistent.
\<close>

section \<open>Events\<close>

datatype ClientEvent =
    PeerConnected PeerIndex
  | PeerDisconnected PeerIndex
  | InventoryArrived PeerIndex Inv
  | HeadersArrived PeerIndex "IndexedBlockHeader list"
  | BlockArrived PeerIndex IndexedBlock
  | BlockHandled
  | NotFoundArrived PeerIndex NotFound
  | PeerWaits PeerIndex nat
  | BlockVerified IndexedBlock
  | BlockFailed h256
  | ManagementRound

text \<open>
  Each event is one critical section under the lock of the core. \<^verbatim>\<open>SynchronizationClient::on_block\<close> takes the lock twice: to
  handle the block, and, after the blocks to verify were given to the verifier, to try to leave synchronization or to
  execute the synchronization tasks. These are the events \<open>BlockArrived\<close> and \<open>BlockHandled\<close>; events of other threads can
  come between them, and \<open>BlockHandled\<close> may occur in any state.
\<close>

fun client_step :: "'d env \<Rightarrow> ClientEvent \<Rightarrow> 'd Core \<Rightarrow> 'd Core option" where
  "client_step E (PeerConnected i) c = on_connect E i c"
| "client_step E (PeerDisconnected i) c = on_disconnect E i c"
| "client_step E (InventoryArrived i m) c = on_inventory E i m c"
| "client_step E (HeadersArrived i hs) c = on_headers E i hs c"
| "client_step E (BlockArrived i b) c = do { (blocks_to_verify, c) \<leftarrow> on_block E i b c; Some c }"
| "client_step E BlockHandled c =
     do { (switched, c) \<leftarrow> try_switch_to_saturated_state E c;
          if switched then Some c else execute_synchronization_tasks E None None c }"
| "client_step E (NotFoundArrived i m) c = on_notfound E i m c"
| "client_step E (PeerWaits i future) c = Some (after_peer_nearly_blocks_verified i future c)"
| "client_step E (BlockVerified b) c = on_block_verification_success E b c"
| "client_step E (BlockFailed h) c = on_block_verification_error E h c"
| "client_step E ManagementRound c = manage_round E c"

text \<open>
  Which events can occur: the index of a connecting peer is new, a headers message is not empty, and headers of messages
  are among those that exist; a verified block that is still queued can be stored (\<open>storable\<close>), which full verification
  and header verification establish and the level \<^verbatim>\<open>NoVerification\<close> does not.
\<close>

fun event_ok :: "'d kv_ops \<Rightarrow> (Operation \<Rightarrow> bool) \<Rightarrow> IndexedBlockHeader set \<Rightarrow> ClientEvent \<Rightarrow> 'd Core \<Rightarrow> bool" where
  "event_ok ops op_ok H (PeerConnected i) c = (i \<notin> set (all_peers (peers_tasks c)))"
| "event_ok ops op_ok H (HeadersArrived i hs) c = (hs \<noteq> [] \<and> set hs \<subseteq> H)"
| "event_ok ops op_ok H (BlockArrived i b) c = (header b \<in> H)"
| "event_ok ops op_ok H (BlockVerified b) c = storable ops op_ok (core_chain c) b"
| "event_ok ops op_ok H _ c = True"

text \<open>By how much an event can make the chain and the pool grow.\<close>

fun event_size :: "ClientEvent \<Rightarrow> nat" where
  "event_size (HeadersArrived i hs) = 2 * length hs"
| "event_size (BlockArrived i b) = 2"
| "event_size (BlockVerified b) = MAX_FORK_ROUTE_PRESET"
| "event_size _ = 0"

context block_database
begin

lemma client_step_ok:
  assumes E: "e_ops E = ops" and H: "sound_headers rank H" and c: "core_inv ops db_inv H c" and ev: "event_ok ops op_ok H ev c"
    and len: "core_size c + event_size ev + 2 < 2 ^ 31"
  shows "\<exists>c'. client_step E ev c = Some c' \<and> core_inv ops db_inv H c' \<and> core_size c' \<le> core_size c + event_size ev"
proof (cases ev)
  case (BlockArrived i b)
  have "header b \<in> H" "core_size c + 2 < 2 ^ 31" using BlockArrived ev len by simp_all
  from on_block_ok [OF E H c this, of i] obtain res c1 where
    "on_block E i b c = Some (res, c1)" "core_inv ops db_inv H c1" "core_size c1 \<le> core_size c + 2" by (elim exE conjE) (rule that)
  with BlockArrived show ?thesis by simp
next
  case BlockHandled
  have "core_size c + 1 < 2 ^ 31" using len by simp
  from try_switch_ok [OF E c this] obtain sw c1 where
    1: "try_switch_to_saturated_state E c = Some (sw, c1)" "core_inv ops db_inv H c1" "core_size c1 \<le> core_size c"
    by (elim exE conjE) (rule that)
  have "core_size c1 + 1 < 2 ^ 31" using 1(3) len by simp
  from execute_synchronization_ok [OF E 1(2) this, of None None] 1 BlockHandled show ?thesis by (cases sw) auto
next
  case (PeerWaits i future)
  have "same_parts c (after_peer_nearly_blocks_verified i future c)"
    by (auto simp: after_peer_nearly_blocks_verified_def same_parts_def wake_def split: option.splits)
  with c PeerWaits show ?thesis by (simp add: same_parts_inv)
next
  case (HeadersArrived i hs)
  with on_headers_ok [OF E H _ c, of hs i] ev len show ?thesis by simp
next
  case (BlockVerified b)
  with on_verification_success_ok [OF E c, of b] ev len show ?thesis by simp
qed (use on_connect_ok [OF E c] on_disconnect_ok [OF E c] on_inventory_ok [OF E c] on_notfound_ok [OF E c]
  on_verification_error_ok [OF E c] manage_round_ok [OF E c] ev len in simp_all)

lemma core_new_ok:
  assumes s: "stored_chain ops db_inv s hs" and ch: "chain_new ops s = Some ch" and c: "core_new bad ps ch = Some c"
  shows "core_inv ops db_inv H c" "orphaned_blocks_pool c = pool_new" "core_chain c = ch"
proof -
  note inv = sync_inv_new [OF s ch]
  have ch': "flat (hash_chain ch) = []" "verifying_in ch = {}" "best_storage_block ch = best (chain_storage ch)"
    using ch by (auto simp: chain_new_def hqc_with_number_of_queues_def NUMBER_OF_QUEUES_def flat_def hq_new_def verifying_in_def
      VERIFYING_QUEUE_def numeral_3_eq_3 split: bind_splits)
  have pool: "pool_inv pool_new" "pool_blocks pool_new = {}" using pool_new_inv by (simp_all add: pool_blocks_def pool_new_def)
  have ok: "chain_ok ops db_inv H ch" by (rule chain_okI [OF inv]) simp
  have part: "chain_part ops db_inv H ch pool_new" by (rule chain_partI [OF ok]) (simp_all add: pool_ok_def pool ch')
  from with_inspect_items_inv [of 512] obtain m where m: "with_inspect_items 512 = Some m" "meter_inv m" by auto
  show "core_inv ops db_inv H c" "orphaned_blocks_pool c = pool_new" "core_chain c = ch"
    using c m part pt_inv_default ch'
    by (auto simp: core_new_def SYNC_SPEED_BLOCKS_TO_INSPECT_def BLOCKS_SPEED_BLOCKS_TO_INSPECT_def core_inv_def
      state_with_storage_def all_verifying_def)
qed

end

section \<open>Reachable states\<close>

inductive client_reachable ::
  "'d kv_ops \<Rightarrow> ('d \<Rightarrow> bool) \<Rightarrow> (Operation \<Rightarrow> bool) \<Rightarrow> IndexedBlockHeader set \<Rightarrow> 'd Core \<Rightarrow> bool"
  for ops db_inv op_ok H where
  client_start: "stored_chain ops db_inv s hs \<Longrightarrow> chain_new ops s = Some ch \<Longrightarrow> core_new bad ps ch = Some c \<Longrightarrow>
    client_reachable ops db_inv op_ok H c"
| client_event: "client_reachable ops db_inv op_ok H c \<Longrightarrow> e_ops E = ops \<Longrightarrow> event_ok ops op_ok H ev c \<Longrightarrow>
    core_size c + event_size ev + 2 < 2 ^ 31 \<Longrightarrow> client_step E ev c = Some c' \<Longrightarrow> client_reachable ops db_inv op_ok H c'"
| client_listener: "client_reachable ops db_inv op_ok H c \<Longrightarrow> install_sync_listener c = Some c' \<Longrightarrow>
    client_reachable ops db_inv op_ok H c'"

lemma client_reachable_inv:
  assumes db: "block_database ops db_inv op_ok" and H: "sound_headers rank H"
  shows "client_reachable ops db_inv op_ok H c \<Longrightarrow> core_inv ops db_inv H c"
proof (induction rule: client_reachable.induct)
  case (client_start s hs ch bad ps c)
  then show ?case using block_database.core_new_ok(1) [OF db] by blast
next
  case (client_event c E ev c')
  with block_database.client_step_ok [OF db client_event.hyps(2) H client_event.IH client_event.hyps(3,4)] show ?case by auto
next
  case (client_listener c c')
  then have "same_parts c c'" by (auto simp: install_sync_listener_def same_parts_def split: if_splits)
  then show ?case using client_listener.IH same_parts_inv(1) by blast
qed

lemma all_verifying_lengths:
  assumes c: "chain_ok ops db_inv H c" and v: "all_verifying c"
  shows "length_of_blocks_state c Scheduled = Some 0" "length_of_blocks_state c Requested = Some 0"
proof -
  from c obtain v' r t where q: "three_queues (hash_chain c) v' r t" by (rule chain_okE)
  then have "set (queue v') \<inter> (set (queue r) \<union> set (queue t)) = {}" by (simp add: three_queues_def)
  moreover have "set (queue r) \<union> set (queue t) \<subseteq> set (queue v')"
    using v three_queues_flat [OF q] three_queues_verifying [OF q] by (simp add: all_verifying_def)
  ultimately have "set (queue r) \<union> set (queue t) = {}" by (simp only: Int_absorb1)
  then have "queue r = []" "queue t = []" by simp_all
  then show "length_of_blocks_state c Scheduled = Some 0" "length_of_blocks_state c Requested = Some 0"
    using three_queues_get(2,3) [OF q] by (simp_all add: length_of_blocks_state_def hqc_len_of_def hq_len_def)
qed

section \<open>Properties\<close>

text \<open>C3: the client never panics and its parts stay consistent. In every state that events have led to, any further
  event that can occur is handled: the handler returns. That a verified block has a place in the chain is part of what can
  occur (\<open>event_ok\<close>): full and header verification establish it, and without verification it is assumed. The flag and the height that other threads read agree with the
  state of the client and with the best stored block; a saturated client waits for no block; no queued block is stored;
  and no orphan of the pool is stored or being verified, nor is its parent, so that no orphan is left behind.\<close>

theorem client_never_panics:
  assumes db: "block_database ops db_inv op_ok" and H: "sound_headers rank H"
    and c: "client_reachable ops db_inv op_ok H c" and E: "e_ops E = ops" and ev: "event_ok ops op_ok H ev c"
    and len: "core_size c + event_size ev + 2 < 2 ^ 31"
  shows "(\<exists>c'. client_step E ev c = Some c' \<and> client_reachable ops db_inv op_ok H c') \<and>
    (is_synchronizing (shared_state c) \<longleftrightarrow> is_synchronizing_state (core_state c)) \<and>
    best_storage_block_height (shared_state c) = unat (bb_number (best (chain_storage (core_chain c)))) \<and>
    (is_saturated (core_state c) \<longrightarrow>
      length_of_blocks_state (core_chain c) Scheduled = Some 0 \<and> length_of_blocks_state (core_chain c) Requested = Some 0) \<and>
    (\<forall>h. h \<in> set (flat (hash_chain (core_chain c))) \<longrightarrow> \<not> stored_in ops (core_chain c) h) \<and>
    (\<forall>p b. (p, b) \<in> pool_blocks (orphaned_blocks_pool c) \<longrightarrow>
      \<not> is_connected ops (core_chain c) p \<and> \<not> is_connected ops (core_chain c) (block_hash_of b))"
proof -
  note inv = client_reachable_inv [OF db H c]
  note part = core_invD(1) [OF inv] and ok = core_invD(5) [OF inv]
  from block_database.client_step_ok [OF db E H inv ev len] obtain c' where c': "client_step E ev c = Some c'" by blast
  have "client_reachable ops db_inv op_ok H c'" by (rule client_event [OF c E ev len c'])
  moreover from ok have "best_storage_block (core_chain c) = best (chain_storage (core_chain c))"
    by (auto simp: chain_ok_def sync_inv_def)
  moreover have "\<not> is_connected ops (core_chain c) p \<and> \<not> is_connected ops (core_chain c) (block_hash_of b)"
    if "(p, b) \<in> pool_blocks (orphaned_blocks_pool c)" for p b
    using chain_partD(4,5) [OF part that] by simp
  moreover note c' inv chain_partD(3) [OF part] all_verifying_lengths [OF ok]
  ultimately show ?thesis unfolding core_inv_def by simp
qed

definition sample_env :: "MemoryDatabase env" where
  "sample_env = \<lparr>e_ops = memory_ops, e_network = Unitest, e_now = 5, e_time = 100\<rparr>"

definition sample_core :: "MemoryDatabase Core" where
  "sample_core = the (core_new False [] (the (chain_new memory_ops sample_db)))"

lemma sample_core_ok:
  "client_reachable memory_ops memory_inv (\<lambda>_. True) H sample_core" "core_size sample_core = 1"
  "orphaned_blocks_pool sample_core = pool_new" "chain_storage (core_chain sample_core) = sample_db"
  "flat (hash_chain (core_chain sample_core)) = []" "\<not> close_connection_on_bad_block sample_core"
  "peers_tasks sample_core = peers_tasks_default"
proof -
  have "db_block_hash memory_ops sample_db 0 = Some (Some 7)"
    using memory_blocks.db_block_hash_chain [OF sample_db_ok(1), of 0] by simp
  define ch where "ch = \<lparr>genesis_block_hash = 7, best_storage_block = best sample_db, chain_storage = sample_db,
    hash_chain = \<lparr>queues = [hq_new, hq_new, hq_new]\<rparr>, headers_chain = bhc_new (bb_hash (best sample_db)), dead_end_blocks = {}\<rparr>"
  have ch: "chain_new memory_ops sample_db = Some ch" "flat (hash_chain ch) = []" "chain_storage ch = sample_db"
      "best_storage_block ch = best sample_db" "queue (bh_best (headers_chain ch)) = []"
    using \<open>db_block_hash memory_ops sample_db 0 = Some (Some 7)\<close>
    by (simp_all add: ch_def chain_new_def hqc_with_number_of_queues_def NUMBER_OF_QUEUES_def numeral_3_eq_3 flat_def hq_new_def bhc_new_def)
  obtain c where c: "core_new False [] ch = Some c"
    using with_inspect_items_inv [of 512]
    by (auto simp: core_new_def SYNC_SPEED_BLOCKS_TO_INSPECT_def BLOCKS_SPEED_BLOCKS_TO_INSPECT_def)
  then have eq: "sample_core = c" by (simp add: sample_core_def ch(1))
  note new = memory_blocks.core_new_ok [OF sample_stored ch(1) c]
  show "client_reachable memory_ops memory_inv (\<lambda>_. True) H sample_core"
    unfolding eq by (rule client_start [OF sample_stored ch(1) c])
  show "\<not> close_connection_on_bad_block sample_core" "peers_tasks sample_core = peers_tasks_default"
    unfolding eq using c by (auto simp: core_new_def split: bind_splits)
  have "best sample_db = best_of [7, 8]" using sample_db_ok(1) by (simp add: chain_inv_def)
  then show "core_size sample_core = 1" "orphaned_blocks_pool sample_core = pool_new"
    "chain_storage (core_chain sample_core) = sample_db" "flat (hash_chain (core_chain sample_core)) = []"
    using ch(2-5) new(2,3)
    by (simp_all add: eq core_size_def parts_size_def pool_size_def pool_blocks_def pool_new_def chain_size_def best_of_def)
qed

lemma sample_headers_sound: "sound_headers unat (set sample_headers)"
  by (simp add: sound_headers_def sample_headers_def link_block_def)

theorem client_never_panics_witness:
  "\<exists>c'. client_step sample_env (HeadersArrived 3 sample_headers) sample_core = Some c' \<and>
     client_reachable memory_ops memory_inv (\<lambda>_. True) (set sample_headers) c'"
proof -
  have ev: "event_ok memory_ops (\<lambda>_. True) (set sample_headers) (HeadersArrived 3 sample_headers) sample_core"
    by (simp add: sample_headers_def)
  have len: "core_size sample_core + event_size (HeadersArrived 3 sample_headers) + 2 < 2 ^ 31"
    by (simp add: sample_core_ok(2) sample_headers_simps(5))
  have E: "e_ops sample_env = memory_ops" by (simp add: sample_env_def)
  from client_never_panics [OF memory_blocks.block_database_axioms sample_headers_sound sample_core_ok(1) E ev len]
  show ?thesis by (rule conjunct1)
qed

text \<open>C4: a new block whose parent is stored or being verified is handed to verification together with all its
  descendants among the orphans: the block first, every descendant exactly once and nothing else. They leave the pool, the
  other orphans stay, all are in the verifying queue, and the sender is remembered for each of them.\<close>

theorem block_verified_with_descendants:
  assumes db: "block_database ops db_inv op_ok" and H: "sound_headers rank H" "header b \<in> H"
    and c: "client_reachable ops db_inv op_ok H c" and E: "e_ops E = ops" and len: "core_size c + 4 < 2 ^ 31"
    and con: "\<not> is_connected ops (core_chain c) (block_hash_of b)" "is_connected ops (core_chain c) (parent_of (header b))"
    and net: "\<not> close_connection_on_bad_block c"
  shows "\<exists>bs c'. on_block E i b c = Some (Some (b # bs), c') \<and>
    set bs = {x. descends (pool_blocks (orphaned_blocks_pool c)) (block_hash_of b) x} \<and> distinct (map block_hash_of (b # bs)) \<and>
    pool_blocks (orphaned_blocks_pool c') =
      {(p, x) \<in> pool_blocks (orphaned_blocks_pool c). \<not> descends (pool_blocks (orphaned_blocks_pool c)) (block_hash_of b) x} \<and>
    block_hash_of ` set (b # bs) \<subseteq> verifying_in (core_chain c') \<and>
    (\<forall>h \<in> block_hash_of ` set (b # bs). verifying_blocks_by_peer c' h = Some i)"
proof -
  note inv = client_reachable_inv [OF db H(1) c]
  from on_block_received_ok [OF core_invD(2) [OF inv], of "e_now E" i "block_hash_of b"] obtain pt where
    1: "on_block_received (e_now E) (peers_tasks c) i (block_hash_of b) = Some pt" "pt_inv pt" by blast
  let ?c = "c\<lparr>peers_tasks := pt\<rparr>"
  have con': "\<not> is_connected ops (core_chain ?c) (block_hash_of b)" "is_connected ops (core_chain ?c) (parent_of (header b))"
    using con by simp_all
  have "core_size ?c + 2 < 2 ^ 31" using len by (simp add: core_inv_peers(2))
  from block_database.on_connected_block_ok [OF db H(1) core_inv_peers(1) [OF inv 1(2)] H(2) con' this, of E i]
  obtain bs c' where x: "on_connected_block E i b ?c = Some (b # bs, c')"
    "block_hash_of ` set (b # bs) \<subseteq> verifying_in (core_chain c')"
    "set bs = {x. descends (pool_blocks (orphaned_blocks_pool ?c)) (block_hash_of b) x}" "distinct (map block_hash_of (b # bs))"
    "pool_blocks (orphaned_blocks_pool c') =
      {(p, x) \<in> pool_blocks (orphaned_blocks_pool ?c). \<not> descends (pool_blocks (orphaned_blocks_pool ?c)) (block_hash_of b) x}"
    "\<forall>h \<in> block_hash_of ` set (b # bs). verifying_blocks_by_peer c' h = Some i" by (elim exE conjE) (rule that)
  note ch = core_invD(5) [OF inv] and part = core_invD(1) [OF inv]
  from block_database.block_state_chain [OF db ch, of "block_hash_of b"] obtain st where
    st: "block_state ops (core_chain c) (block_hash_of b) = Some st" "st \<noteq> Verifying" "st \<noteq> Stored"
    using con(1) by (auto simp: is_connected_def)
  from block_database.block_state_chain [OF db ch, of "parent_of (header b)"] obtain sp where
    sp: "block_state ops (core_chain c) (parent_of (header b)) = Some sp" "sp = Verifying \<or> sp = Stored"
    using con(2) chain_partD(3) [OF part, of "parent_of (header b)"] by (auto simp: is_connected_def)
  have "on_block E i b c = Some (Some (b # bs), c')"
    using 1(1) st sp x(1) net by (auto simp: on_block_def on_new_block_def E)
  with x(2-6) show ?thesis by simp
qed

theorem block_verified_with_descendants_witness:
  "\<exists>c'. on_block sample_env 3 (link_block 21 8) sample_core = Some (Some [link_block 21 8], c') \<and> 21 \<in> verifying_in (core_chain c')"
proof -
  let ?b = "link_block 21 8"
  have b: "header ?b \<in> set sample_headers" "block_hash_of ?b = 21" "parent_of (header ?b) = 8"
    by (simp_all add: sample_headers_def link_block_def)
  have "verifying_in (core_chain sample_core) \<subseteq> set (flat (hash_chain (core_chain sample_core)))"
    using verifying_queued [OF core_invD(5) [OF client_reachable_inv [OF memory_blocks.block_database_axioms sample_headers_sound
      sample_core_ok(1)]]] by blast
  then have con: "\<not> is_connected memory_ops (core_chain sample_core) (block_hash_of ?b)"
      "is_connected memory_ops (core_chain sample_core) (parent_of (header ?b))"
    by (simp_all add: b(2,3) is_connected_def stored_in_def sample_core_ok(4,5) sample_db_prev)
  have "pool_blocks (orphaned_blocks_pool sample_core) = {}" by (simp add: sample_core_ok(3) pool_blocks_def pool_new_def)
  then have none: "{x. descends (pool_blocks (orphaned_blocks_pool sample_core)) (block_hash_of ?b) x} = {}"
    using descends_block by fastforce
  have "core_size sample_core + 4 < 2 ^ 31" "e_ops sample_env = memory_ops" by (simp_all add: sample_core_ok(2) sample_env_def)
  from block_verified_with_descendants [OF memory_blocks.block_database_axioms sample_headers_sound b(1) sample_core_ok(1) this(2,1)
      con sample_core_ok(6), of 3] none b(2) show ?thesis by auto
qed

text \<open>C15: blocks move through the queues of a reachable client in order, and nothing is lost or duplicated. Requesting
  takes the first scheduled hashes and puts them, in this order, behind the requested ones. Blocks that arrive for
  verification leave the queues they are in and are put, in the given order, behind the ones being verified; every queue
  keeps its other hashes in order. Neither panics.\<close>

theorem queues_keep_order:
  assumes db: "block_database ops db_inv op_ok" and H: "sound_headers rank H" "set headers \<subseteq> H"
    and c: "client_reachable ops db_inv op_ok H c" and new: "distinct (map hash headers)"
    and len: "core_size c + 2 * length headers < 2 ^ 31"
  shows "\<exists>v r t. hash_chain (core_chain c) = \<lparr>queues = [v, r, t]\<rparr> \<and>
    (\<exists>c' r' t'. request_blocks_hashes (core_chain c) n = Some (take (unat n) (queue t), c') \<and>
       hash_chain c' = \<lparr>queues = [v, r', t']\<rparr> \<and> queue r' = queue r @ take (unat n) (queue t) \<and> queue t' = drop (unat n) (queue t)) \<and>
    (\<exists>c1 c' v' r' t'. forget_blocks_leave_header (core_chain c) (map hash headers) = Some c1 \<and>
       chain_verify_blocks c1 headers = Some c' \<and> hash_chain c' = \<lparr>queues = [v', r', t']\<rparr> \<and>
       queue v' = filter (\<lambda>h. h \<notin> hash ` set headers) (queue v) @ map hash headers \<and>
       queue r' = filter (\<lambda>h. h \<notin> hash ` set headers) (queue r) \<and> queue t' = filter (\<lambda>h. h \<notin> hash ` set headers) (queue t))"
proof -
  note inv = client_reachable_inv [OF db H(1) c]
  note ok = core_invD(5) [OF inv]
  from ok obtain v r t where q: "three_queues (hash_chain (core_chain c)) v r t" by (rule chain_okE)
  from request_blocks_hashes_ok [OF q, of n] obtain r' t' where
    1: "request_blocks_hashes (core_chain c) n =
        Some (take (unat n) (queue t), (core_chain c)\<lparr>hash_chain := \<lparr>queues = [v, r', t']\<rparr>\<rparr>)"
      "queue r' = queue r @ take (unat n) (queue t)" "queue r' @ queue t' = queue r @ queue t" by blast
  have "queue r @ take (unat n) (queue t) @ queue t' = queue r @ take (unat n) (queue t) @ drop (unat n) (queue t)"
    using 1(2,3) by simp
  then have t': "queue t' = drop (unat n) (queue t)" by (simp only: append_same_eq same_append_eq)
  from leave_headers_chain [OF ok, of "map hash headers"] obtain c1 where
    2: "forget_blocks_leave_header (core_chain c) (map hash headers) = Some c1" "chain_ok ops db_inv H c1" "shrinks (core_chain c) c1"
      "set (flat (hash_chain c1)) = set (flat (hash_chain (core_chain c))) - set (map hash headers)" by blast
  have s: "chain_size c1 + 2 * length headers < 2 ^ 32"
    using 2(3) len by (simp add: shrinks_def core_size_def parts_size_def)
  have d: "hash ` set headers \<inter> set (flat (hash_chain c1)) = {}" using 2(4) by auto
  from verify_blocks_chain [OF H 2(2) new d s] obtain c' where c': "chain_verify_blocks c1 headers = Some c'" by blast
  from leave_headers_queues [OF q, of "map hash headers"] 2(1) obtain v1 r1 t1 where
    3: "three_queues (hash_chain c1) v1 r1 t1" "queue v1 = filter (\<lambda>h. h \<notin> hash ` set headers) (queue v)"
      "queue r1 = filter (\<lambda>h. h \<notin> hash ` set headers) (queue r)" "queue t1 = filter (\<lambda>h. h \<notin> hash ` set headers) (queue t)" by auto
  from verify_blocks_queues [OF 3(1) c' new d] obtain v' where
    "hash_chain c' = \<lparr>queues = [v', r1, t1]\<rparr>" "queue v' = queue v1 @ map hash headers" by blast
  moreover have "hash_chain (core_chain c) = \<lparr>queues = [v, r, t]\<rparr>" using q by (simp add: three_queues_def)
  moreover have "hash_chain ((core_chain c)\<lparr>hash_chain := \<lparr>queues = [v, r', t']\<rparr>\<rparr>) = \<lparr>queues = [v, r', t']\<rparr>" by simp
  ultimately show ?thesis using 1(1,2) t' 2(1) c' 3(2-4) by metis
qed

theorem queues_keep_order_witness:
  "\<exists>c1 c' v' r' t'. forget_blocks_leave_header (core_chain sample_core) (map hash sample_headers) = Some c1 \<and>
     chain_verify_blocks c1 sample_headers = Some c' \<and> hash_chain c' = \<lparr>queues = [v', r', t']\<rparr> \<and> queue v' = map hash sample_headers"
proof -
  have len: "core_size sample_core + 2 * length sample_headers < 2 ^ 31"
    by (simp add: sample_core_ok(2) sample_headers_simps(5))
  have "distinct (map hash sample_headers)" by (simp add: sample_headers_def link_block_def)
  from queues_keep_order [OF memory_blocks.block_database_axioms sample_headers_sound order_refl sample_core_ok(1) this len, of 1]
  show ?thesis using sample_core_ok(5) by (auto simp: flat_def)
qed

text \<open>C32: the blocks to request are divided among peers without loss or repetition: the getdata messages, read in order,
  name exactly the given hashes, each message is for another of the given peers and names at least one block, and only the
  last message can name more than the limit.\<close>

theorem block_requests_partition:
  assumes pt: "peers_reachable (peers_tasks c)" and ps: "ps \<noteq> []" "distinct ps"
    and l: "request_limits c = Some l"
  shows "\<exists>tasks c'. prepare_blocks_requests_tasks E l ps hashes c = Some (tasks, c') \<and> concat (map asked_blocks tasks) = hashes \<and>
    (\<exists>qs. map asked_peer tasks = map Some qs \<and> distinct qs \<and> set qs \<subseteq> set ps) \<and> (\<forall>t \<in> set tasks. asked_blocks t \<noteq> []) \<and>
    (\<forall>t \<in> set (butlast tasks). length (asked_blocks t) \<le> unat (max_blocks_in_request l))"
proof -
  have "limits_ok l" using l by (auto simp: request_limits_def limits_ok_def limits_default_def MIN_BLOCKS_IN_REQUEST_def
      MAX_BLOCKS_IN_REQUEST_def split: bind_splits if_splits)
  from prepare_requests_ok [OF peers_reachable_inv [OF pt] this ps(1), of E hashes] obtain tasks pt' k where
    x: "prepare_blocks_requests_tasks E l ps hashes c = Some (tasks, c\<lparr>peers_tasks := pt'\<rparr>)" "concat (map asked_blocks tasks) = hashes"
      "map asked_peer tasks = map Some (take k (sort_peers_for_blocks (peers_tasks c) ps))" "\<forall>t \<in> set tasks. asked_blocks t \<noteq> []"
      "\<forall>t \<in> set (butlast tasks). length (asked_blocks t) \<le> unat (max_blocks_in_request l)" by (elim exE conjE) (rule that)
  have "distinct (take k (sort_peers_for_blocks (peers_tasks c) ps))" "set (take k (sort_peers_for_blocks (peers_tasks c) ps)) \<subseteq> set ps"
    using ps(2) set_take_subset [of k "sort_peers_for_blocks (peers_tasks c) ps"] by (simp_all add: sort_peers_for_blocks_def)
  with x show ?thesis by blast
qed

theorem block_requests_partition_witness:
  "\<exists>l tasks c'. prepare_blocks_requests_tasks sample_env l [5, 3] [31, 32] sample_core = Some (tasks, c') \<and>
     concat (map asked_blocks tasks) = [31, 32]"
proof -
  from request_limits_ok [OF core_invD(5) [OF client_reachable_inv [OF memory_blocks.block_database_axioms sample_headers_sound
      sample_core_ok(1)]]] obtain l where l: "request_limits sample_core = Some l" by blast
  have "peers_reachable (peers_tasks sample_core)" unfolding sample_core_ok(7) by (rule peers_start)
  from block_requests_partition [OF this _ _ l, of "[5, 3]" sample_env "[31, 32]"] show ?thesis by auto
qed

end
