(* ===== verification/Sync_Server.thy ===== *)
theory Sync_Server
  imports Client_Core Sync_Invariant
begin

text \<open>
  The synchronization server (\<^verbatim>\<open>sync/src/synchronization_server.rs\<close>): the queue of the tasks of the peers, and how
  requests for data, inventory and headers are answered from the storage. Shown: the queue never panics, serves
  the peers in turn and the tasks of a peer in their order, a request for data is answered item by item in the order of the request, and the answer to
  a request for headers continues the best chain after the newest block both sides have.

  The worker thread is the step \<open>server_step\<close>: it takes a task, executes it and puts back what remains of it. The
  stop flag and the condition variable are not modelled. What the executor is given and which peers are reported
  as misbehaving is the result of executing a task.
\<close>

section \<open>ServerQueue\<close>

type_synonym RequestId = u32

datatype ServerTask =
    ServeGetData PeerIndex GetData
  | ServeReversedGetData PeerIndex GetData NotFound
  | ServeGetBlocks PeerIndex GetBlocks
  | ServeGetHeaders PeerIndex GetHeaders RequestId
  | ServeMempool PeerIndex

fun task_peer_index :: "ServerTask \<Rightarrow> PeerIndex" where
  "task_peer_index (ServeGetData i _) = i"
| "task_peer_index (ServeReversedGetData i _ _) = i"
| "task_peer_index (ServeGetBlocks i _) = i"
| "task_peer_index (ServeGetHeaders i _ _) = i"
| "task_peer_index (ServeMempool i) = i"

record ServerQueue =
  peers_queue :: "PeerIndex list"
  tasks_queue :: "PeerIndex \<rightharpoonup> ServerTask list"

definition server_queue_new :: ServerQueue where
  "server_queue_new = \<lparr>peers_queue = [], tasks_queue = Map.empty\<rparr>"

definition next_task :: "ServerQueue \<Rightarrow> (ServerTask option \<times> ServerQueue) option" where
  "next_task q =
     (case peers_queue q of
        [] \<Rightarrow> Some (None, q)
      | i # ps \<Rightarrow>
          (case tasks_queue q i of
             Some (task # rest) \<Rightarrow>
               Some (Some task,
                     if rest \<noteq> [] then q\<lparr>peers_queue := ps @ [i], tasks_queue := (tasks_queue q)(i \<mapsto> rest)\<rparr>
                     else q\<lparr>peers_queue := ps, tasks_queue := (tasks_queue q)(i := None)\<rparr>)
           | _ \<Rightarrow> None))"

definition add_task :: "ServerTask \<Rightarrow> ServerQueue \<Rightarrow> ServerQueue" where
  "add_task task q =
     (let i = task_peer_index task in
      case tasks_queue q i of
        Some tasks \<Rightarrow> q\<lparr>tasks_queue := (tasks_queue q)(i \<mapsto> tasks @ [task]),
                        peers_queue := (if tasks = [] then peers_queue q @ [i] else peers_queue q)\<rparr>
      | None \<Rightarrow> q\<lparr>tasks_queue := (tasks_queue q)(i \<mapsto> [task]), peers_queue := peers_queue q @ [i]\<rparr>)"

definition add_task_front :: "ServerTask \<Rightarrow> ServerQueue \<Rightarrow> ServerQueue" where
  "add_task_front task q =
     (let i = task_peer_index task in
      case tasks_queue q i of
        Some tasks \<Rightarrow> q\<lparr>tasks_queue := (tasks_queue q)(i \<mapsto> task # tasks),
                        peers_queue := (if tasks = [] then peers_queue q @ [i] else peers_queue q)\<rparr>
      | None \<Rightarrow> q\<lparr>tasks_queue := (tasks_queue q)(i \<mapsto> [task]), peers_queue := peers_queue q @ [i]\<rparr>)"

definition remove_peer_tasks :: "PeerIndex \<Rightarrow> ServerQueue \<Rightarrow> ServerQueue option" where
  "remove_peer_tasks i q =
     (if tasks_queue q i = None then Some q
      else if i \<notin> set (peers_queue q) then None
      else Some (q\<lparr>tasks_queue := (tasks_queue q)(i := None), peers_queue := remove1 i (peers_queue q)\<rparr>))"

section \<open>ServerTaskExecutor\<close>

definition GETBLOCKS_MAX_RESPONSE_HASHES :: nat where "GETBLOCKS_MAX_RESPONSE_HASHES = 500"
definition GETHEADERS_MAX_RESPONSE_HEADERS :: nat where "GETHEADERS_MAX_RESPONSE_HEADERS = 2000"

text \<open>What remains of a task, what the executor was given, and the peers reported as misbehaving.\<close>

type_synonym served = "ServerTask option \<times> Task list \<times> PeerIndex list"

definition serve_get_data :: "PeerIndex \<Rightarrow> GetData \<Rightarrow> served" where
  "serve_get_data i message =
     (Some (ServeReversedGetData i (message\<lparr>gd_inventory := rev (gd_inventory message)\<rparr>) \<lparr>nf_inventory = []\<rparr>), [], [])"

definition serve_reversed_get_data ::
  "'d kv_ops \<Rightarrow> 'd BlockChainDatabase \<Rightarrow> PeerIndex \<Rightarrow> GetData \<Rightarrow> NotFound \<Rightarrow> served option" where
  "serve_reversed_get_data ops s i message notfound =
     (case gd_inventory message of
        [] \<Rightarrow> Some (None, if nf_inventory notfound \<noteq> [] then [NotFoundTask i notfound] else [], [])
      | _ \<Rightarrow>
          (let next_item = last (gd_inventory message);
               message = message\<lparr>gd_inventory := butlast (gd_inventory message)\<rparr>
           in case inv_type next_item of
                MessageBlock \<Rightarrow>
                  do { found \<leftarrow> db_block ops s (RefHash (inv_hash next_item));
                       Some (case found of
                               Some b \<Rightarrow> (Some (ServeReversedGetData i message notfound), [BlockTask i b], [])
                             | None \<Rightarrow> (Some (ServeReversedGetData i message
                                          (notfound\<lparr>nf_inventory := nf_inventory notfound @ [next_item]\<rparr>)), [], [])) }
              | InvError \<Rightarrow> Some (Some (ServeReversedGetData i message notfound), [], [])))"

partial_function (option) locate_in_fork :: "'d kv_ops \<Rightarrow> 'd BlockChainDatabase \<Rightarrow> h256 \<Rightarrow> u32 option option" where
  "locate_in_fork ops s h =
     do { found \<leftarrow> db_block_header ops s (RefHash h);
          case found of
            None \<Rightarrow> Some None
          | Some x \<Rightarrow>
              do { number \<leftarrow> db_block_number ops s (previous_header_hash (raw x));
                   case number of
                     Some n \<Rightarrow> Some (Some n)
                   | None \<Rightarrow> locate_in_fork ops s (previous_header_hash (raw x)) } }"

fun locate_loop :: "'d kv_ops \<Rightarrow> 'd BlockChainDatabase \<Rightarrow> h256 list \<Rightarrow> u32 option option" where
  "locate_loop ops s [] = Some None"
| "locate_loop ops s (h # hs) =
     do { number \<leftarrow> db_block_number ops s h;
          case number of
            Some n \<Rightarrow> Some (Some n)
          | None \<Rightarrow>
              do { found \<leftarrow> locate_in_fork ops s h;
                   case found of Some n \<Rightarrow> Some (Some n) | None \<Rightarrow> locate_loop ops s hs } }"

definition locate_best_common_block ::
  "'d kv_ops \<Rightarrow> 'd BlockChainDatabase \<Rightarrow> h256 \<Rightarrow> h256 list \<Rightarrow> u32 option option" where
  "locate_best_common_block ops s hash_stop locator = locate_loop ops s (locator @ [hash_stop])"

text \<open>The numbers after \<open>n\<close>, at most \<open>k\<close> of them: a range of \<^verbatim>\<open>u32\<close>, empty when its end wraps around.\<close>

definition numbers_after :: "u32 \<Rightarrow> nat \<Rightarrow> u32 list" where
  "numbers_after n k = map of_nat [unat (n + 1) ..< unat (n + 1 + of_nat k)]"

fun hashes_at :: "'d kv_ops \<Rightarrow> 'd BlockChainDatabase \<Rightarrow> h256 \<Rightarrow> u32 list \<Rightarrow> h256 list option" where
  "hashes_at ops s hash_stop [] = Some []"
| "hashes_at ops s hash_stop (n # ns) =
     do { found \<leftarrow> db_block_hash ops s n;
          case found of
            None \<Rightarrow> Some []
          | Some h \<Rightarrow> if h = hash_stop then Some []
                      else do { rest \<leftarrow> hashes_at ops s hash_stop ns; Some (h # rest) } }"

fun headers_at :: "'d kv_ops \<Rightarrow> 'd BlockChainDatabase \<Rightarrow> h256 \<Rightarrow> u32 list \<Rightarrow> BlockHeader list option" where
  "headers_at ops s hash_stop [] = Some []"
| "headers_at ops s hash_stop (n # ns) =
     do { found \<leftarrow> db_block_hash ops s n;
          case found of
            None \<Rightarrow> Some []
          | Some h \<Rightarrow>
              if h = hash_stop then Some []
              else do { x \<leftarrow> db_block_header ops s (RefHash h);
                        case x of
                          None \<Rightarrow> Some []
                        | Some x \<Rightarrow> do { rest \<leftarrow> headers_at ops s hash_stop ns; Some (raw x # rest) } } }"

definition serve_get_blocks ::
  "'d kv_ops \<Rightarrow> 'd BlockChainDatabase \<Rightarrow> PeerIndex \<Rightarrow> GetBlocks \<Rightarrow> served option" where
  "serve_get_blocks ops s i message =
     do { common \<leftarrow> locate_best_common_block ops s (gb_hash_stop message) (gb_locator message);
          case common of
            None \<Rightarrow> Some (None, [], [i])
          | Some n \<Rightarrow>
              do { hashes \<leftarrow> hashes_at ops s (gb_hash_stop message) (numbers_after n GETBLOCKS_MAX_RESPONSE_HASHES);
                   Some (None, if hashes = [] then []
                               else [InventoryTask i \<lparr>inv_inventory = map inventory_block hashes\<rparr>], []) } }"

definition serve_get_headers ::
  "'d kv_ops \<Rightarrow> 'd BlockChainDatabase \<Rightarrow> PeerIndex \<Rightarrow> GetHeaders \<Rightarrow> RequestId \<Rightarrow> served option" where
  "serve_get_headers ops s i message request_id =
     do { common \<leftarrow> locate_best_common_block ops s (gh_hash_stop message) (gh_locator message);
          case common of
            None \<Rightarrow> Some (None, [], [i])
          | Some n \<Rightarrow>
              do { hs \<leftarrow> headers_at ops s (gh_hash_stop message) (numbers_after n GETHEADERS_MAX_RESPONSE_HEADERS);
                   Some (None, [HeadersTask i \<lparr>headers_list = hs\<rparr> (Some request_id)], []) } }"

definition execute_server_task :: "'d kv_ops \<Rightarrow> 'd BlockChainDatabase \<Rightarrow> ServerTask \<Rightarrow> served option" where
  "execute_server_task ops s task =
     (case task of
        ServeGetData i message \<Rightarrow> Some (serve_get_data i message)
      | ServeReversedGetData i message notfound \<Rightarrow> serve_reversed_get_data ops s i message notfound
      | ServeGetBlocks i message \<Rightarrow> serve_get_blocks ops s i message
      | ServeGetHeaders i message request_id \<Rightarrow> serve_get_headers ops s i message request_id
      | ServeMempool i \<Rightarrow> Some (None, [], []))"

definition server_step ::
  "'d kv_ops \<Rightarrow> 'd BlockChainDatabase \<Rightarrow> ServerQueue \<Rightarrow> (Task list \<times> PeerIndex list \<times> ServerQueue) option" where
  "server_step ops s q =
     do { (task, q) \<leftarrow> next_task q;
          case task of
            None \<Rightarrow> Some ([], [], q)
          | Some task \<Rightarrow>
              do { (remaining, tasks, bad) \<leftarrow> execute_server_task ops s task;
                   Some (tasks, bad, case remaining of None \<Rightarrow> q | Some task \<Rightarrow> add_task_front task q) } }"

section \<open>The queue serves the peers in turn\<close>

definition server_queue_inv :: "ServerQueue \<Rightarrow> bool" where
  "server_queue_inv q \<longleftrightarrow> distinct (peers_queue q) \<and> set (peers_queue q) = dom (tasks_queue q) \<and>
     (\<forall>i ts. tasks_queue q i = Some ts \<longrightarrow> ts \<noteq> [] \<and> (\<forall>t \<in> set ts. task_peer_index t = i))"

datatype ServerOp = AddTask ServerTask | AddTaskFront ServerTask | RemovePeer PeerIndex | TakeTask

fun run_op :: "ServerOp \<Rightarrow> ServerQueue \<Rightarrow> (ServerTask list \<times> ServerQueue) option" where
  "run_op (AddTask t) q = Some ([], add_task t q)"
| "run_op (AddTaskFront t) q = Some ([], add_task_front t q)"
| "run_op (RemovePeer i) q = map_option (Pair []) (remove_peer_tasks i q)"
| "run_op TakeTask q = map_option (\<lambda>(t, q). (case t of None \<Rightarrow> [] | Some t \<Rightarrow> [t], q)) (next_task q)"

fun run_ops :: "ServerOp list \<Rightarrow> ServerQueue \<Rightarrow> (ServerTask list \<times> ServerQueue) option" where
  "run_ops [] q = Some ([], q)"
| "run_ops (x # xs) q = do { (a, q) \<leftarrow> run_op x q; (b, q) \<leftarrow> run_ops xs q; Some (a @ b, q) }"

lemma server_queue_new_inv: "server_queue_inv server_queue_new"
  by (simp add: server_queue_inv_def server_queue_new_def)

lemma add_task_ok:
  assumes "server_queue_inv q"
  shows "server_queue_inv (add_task t q)" "\<exists>ys. peers_queue (add_task t q) = peers_queue q @ ys"
    "server_queue_inv (add_task_front t q)" "\<exists>ys. peers_queue (add_task_front t q) = peers_queue q @ ys"
  using assms unfolding server_queue_inv_def add_task_def add_task_front_def Let_def
  by (auto split: option.splits)

lemma remove_peer_tasks_ok:
  assumes "server_queue_inv q"
  shows "\<exists>q'. remove_peer_tasks i q = Some q' \<and> server_queue_inv q' \<and> peers_queue q' = removeAll i (peers_queue q)"
  using assms unfolding server_queue_inv_def remove_peer_tasks_def
  by (auto simp: distinct_remove1_removeAll distinct_removeAll split: if_splits)

lemma next_task_ok:
  assumes inv: "server_queue_inv q" and q: "peers_queue q = i # ps"
  shows "\<exists>t q' ys. next_task q = Some (Some t, q') \<and> task_peer_index t = i \<and> server_queue_inv q' \<and> peers_queue q' = ps @ ys"
proof -
  have "i \<in> dom (tasks_queue q)" using inv q by (auto simp: server_queue_inv_def)
  then obtain us where us: "tasks_queue q i = Some us" by blast
  then have "us \<noteq> [] \<and> (\<forall>t \<in> set us. task_peer_index t = i)" using inv by (simp add: server_queue_inv_def)
  with us obtain t ts where t: "tasks_queue q i = Some (t # ts)" "task_peer_index t = i" by (cases us) auto
  with inv q show ?thesis
    by (cases "ts = []") (auto simp: next_task_def server_queue_inv_def)
qed

lemma next_task_empty: "peers_queue q = [] \<Longrightarrow> next_task q = Some (None, q)"
  by (simp add: next_task_def)

lemma run_op_inv:
  assumes "server_queue_inv q"
  shows "\<exists>ts q'. run_op x q = Some (ts, q') \<and> server_queue_inv q'"
proof (cases x)
  case (RemovePeer i)
  then show ?thesis using remove_peer_tasks_ok [OF assms, of i] by auto
next
  case TakeTask
  then show ?thesis
    using next_task_ok [OF assms] next_task_empty [of q] assms by (cases "peers_queue q") fastforce+
qed (simp_all add: add_task_ok [OF assms])

lemma run_ops_inv: "server_queue_inv q \<Longrightarrow> \<exists>ts q'. run_ops xs q = Some (ts, q') \<and> server_queue_inv q'"
proof (induction xs arbitrary: q)
  case (Cons x xs)
  from run_op_inv [OF Cons.prems, of x] obtain a q1 where 1: "run_op x q = Some (a, q1)" "server_queue_inv q1" by blast
  from Cons.IH [OF 1(2)] obtain b q2 where "run_ops xs q1 = Some (b, q2)" "server_queue_inv q2" by blast
  with 1(1) show ?case by simp
qed simp

definition ahead_of :: "PeerIndex \<Rightarrow> ServerQueue \<Rightarrow> nat" where
  "ahead_of i q = length (takeWhile ((\<noteq>) i) (peers_queue q))"

text \<open>An operation other than the removal of a peer keeps it in its place; taking a task serves it or moves it up.\<close>

lemma takeWhile_removeAll_le: "length (takeWhile ((\<noteq>) i) (removeAll j xs)) \<le> length (takeWhile ((\<noteq>) i) xs)" if "i \<noteq> j"
  by (induction xs) (use that in auto)

lemma ahead_of_append: "i \<in> set (peers_queue q) \<Longrightarrow> peers_queue q' = peers_queue q @ ys \<Longrightarrow>
   ahead_of i q' = ahead_of i q \<and> i \<in> set (peers_queue q')"
  by (auto simp: ahead_of_def)

lemma run_op_ahead:
  assumes inv: "server_queue_inv q" and i: "i \<in> set (peers_queue q)" "x \<noteq> RemovePeer i" and run: "run_op x q = Some (ts, q')"
  shows "(\<exists>t \<in> set ts. task_peer_index t = i) \<or>
    i \<in> set (peers_queue q') \<and> (if x = TakeTask then ahead_of i q' < ahead_of i q else ahead_of i q' \<le> ahead_of i q)"
proof (cases x)
  case (AddTask t)
  from add_task_ok(2) [OF inv] obtain ys where "peers_queue (add_task t q) = peers_queue q @ ys" by blast
  from ahead_of_append [OF i(1) this] show ?thesis using run AddTask by auto
next
  case (AddTaskFront t)
  from add_task_ok(4) [OF inv] obtain ys where "peers_queue (add_task_front t q) = peers_queue q @ ys" by blast
  from ahead_of_append [OF i(1) this] show ?thesis using run AddTaskFront by auto
next
  case (RemovePeer j)
  with remove_peer_tasks_ok [OF inv, of j] run i show ?thesis by (auto simp: ahead_of_def takeWhile_removeAll_le)
next
  case TakeTask
  obtain j ps where q: "peers_queue q = j # ps" using i(1) by (cases "peers_queue q") auto
  from next_task_ok [OF inv q] obtain t q1 ys where
    t: "next_task q = Some (Some t, q1)" "task_peer_index t = j" "peers_queue q1 = ps @ ys" by blast
  with run TakeTask have r: "ts = [t]" "q' = q1" by auto
  show ?thesis
  proof (cases "j = i")
    case False
    with i(1) q have "i \<in> set ps" by simp
    with False q t(3) r TakeTask show ?thesis by (auto simp: ahead_of_def)
  qed (use t(2) r in simp)
qed

lemma run_ops_serves:
  "server_queue_inv q \<Longrightarrow> i \<in> set (peers_queue q) \<Longrightarrow> RemovePeer i \<notin> set xs \<Longrightarrow> ahead_of i q < count_list xs TakeTask \<Longrightarrow>
   run_ops xs q = Some (ts, q') \<Longrightarrow> \<exists>t \<in> set ts. task_peer_index t = i"
proof (induction xs arbitrary: q ts)
  case (Cons x xs)
  from Cons.prems(5) obtain a q1 b where r: "run_op x q = Some (a, q1)" "run_ops xs q1 = Some (b, q')" "ts = a @ b"
    by (auto simp: bind_eq_Some_conv)
  have inv: "server_queue_inv q1" using run_op_inv [OF Cons.prems(1), of x] r(1) by auto
  from run_op_ahead [OF Cons.prems(1,2) _ r(1)] Cons.prems(3) consider "\<exists>t \<in> set a. task_peer_index t = i"
    | "i \<in> set (peers_queue q1)" "if x = TakeTask then ahead_of i q1 < ahead_of i q else ahead_of i q1 \<le> ahead_of i q" by auto
  then show ?case
  proof cases
    case 2
    then have "ahead_of i q1 < count_list xs TakeTask" using Cons.prems(4) by (auto split: if_splits)
    from Cons.IH [OF inv 2(1) _ this r(2)] Cons.prems(3) r(3) show ?thesis by auto
  qed (use r(3) in auto)
qed simp

text \<open>
  The tasks of one peer, in the order in which they wait, and the tasks that a sequence of operations adds. A peer keeps
  its turn when it is not removed and nothing is put in front of its tasks.
\<close>

definition peer_tasks :: "ServerQueue \<Rightarrow> PeerIndex \<Rightarrow> ServerTask list" where
  "peer_tasks q i = (case tasks_queue q i of None \<Rightarrow> [] | Some ts \<Rightarrow> ts)"

fun added_by :: "ServerOp \<Rightarrow> ServerTask list" where
  "added_by (AddTask t) = [t]"
| "added_by (AddTaskFront t) = [t]"
| "added_by _ = []"

definition added :: "ServerOp list \<Rightarrow> ServerTask list" where
  "added xs = concat (map added_by xs)"

fun keeps_turn :: "PeerIndex \<Rightarrow> ServerOp \<Rightarrow> bool" where
  "keeps_turn i (AddTaskFront t) \<longleftrightarrow> task_peer_index t \<noteq> i"
| "keeps_turn i (RemovePeer j) \<longleftrightarrow> j \<noteq> i"
| "keeps_turn i _ \<longleftrightarrow> True"

definition tasks_of :: "PeerIndex \<Rightarrow> ServerTask list \<Rightarrow> ServerTask list" where
  "tasks_of i ts = filter (\<lambda>t. task_peer_index t = i) ts"

lemma tasks_of_simps [simp]:
  "tasks_of i [] = []" "tasks_of i (t # ts) = (if task_peer_index t = i then t # tasks_of i ts else tasks_of i ts)"
  "tasks_of i (xs @ ys) = tasks_of i xs @ tasks_of i ys"
  by (simp_all add: tasks_of_def)

lemma added_simps [simp]: "added [] = []" "added (x # xs) = added_by x @ added xs"
  by (simp_all add: added_def)

lemma waiting_iff: "server_queue_inv q \<Longrightarrow> i \<in> set (peers_queue q) \<longleftrightarrow> peer_tasks q i \<noteq> []"
  by (auto simp: server_queue_inv_def peer_tasks_def split: option.splits)

lemma next_task_front:
  assumes inv: "server_queue_inv q" and q: "peers_queue q = j # ps"
  obtains t q' where "next_task q = Some (Some t, q')" "task_peer_index t = j"
    "peers_queue q' = ps @ (if peer_tasks q' j = [] then [] else [j])" "peer_tasks q = (peer_tasks q')(j := t # peer_tasks q' j)"
proof -
  have "j \<in> dom (tasks_queue q)" using inv q by (auto simp: server_queue_inv_def)
  then obtain us where us: "tasks_queue q j = Some us" by blast
  then have "us \<noteq> [] \<and> (\<forall>t \<in> set us. task_peer_index t = j)" using inv by (simp add: server_queue_inv_def)
  with us obtain t ts where t: "tasks_queue q j = Some (t # ts)" "task_peer_index t = j" by (cases us) auto
  with q show ?thesis
    by (intro that [of t "snd (the (next_task q))"]) (auto simp: next_task_def peer_tasks_def fun_eq_iff split: option.splits)
qed

lemma run_op_keeps_order:
  assumes inv: "server_queue_inv q" and x: "keeps_turn i x" and run: "run_op x q = Some (ts, q')"
  shows "tasks_of i ts @ peer_tasks q' i = peer_tasks q i @ tasks_of i (added_by x)"
proof (cases x)
  case TakeTask
  show ?thesis
  proof (cases "peers_queue q")
    case (Cons j ps)
    show ?thesis by (rule next_task_front [OF inv Cons]) (use run TakeTask in auto)
  qed (use run TakeTask in \<open>simp add: next_task_empty\<close>)
next
  case (RemovePeer j)
  with run x show ?thesis by (auto simp: remove_peer_tasks_def peer_tasks_def split: if_splits)
qed (use run x in \<open>auto simp: add_task_def add_task_front_def peer_tasks_def Let_def split: option.splits\<close>)

lemma run_op_peers:
  assumes inv: "server_queue_inv q" and run: "run_op x q = Some (ts, q')"
  shows "set (peers_queue q') \<subseteq> set (peers_queue q) \<union> task_peer_index ` set (added_by x)"
proof (cases x)
  case TakeTask
  show ?thesis
  proof (cases "peers_queue q")
    case (Cons j ps)
    show ?thesis by (rule next_task_front [OF inv Cons]) (use run TakeTask Cons in auto)
  qed (use run TakeTask in \<open>simp add: next_task_empty\<close>)
next
  case (RemovePeer j)
  with remove_peer_tasks_ok [OF inv, of j] run show ?thesis by auto
qed (use run in \<open>auto simp: add_task_def add_task_front_def Let_def split: option.splits if_splits\<close>)

lemma run_ops_keeps_order:
  "server_queue_inv q \<Longrightarrow> list_all (keeps_turn i) xs \<Longrightarrow> run_ops xs q = Some (ts, q') \<Longrightarrow>
   tasks_of i ts @ peer_tasks q' i = peer_tasks q i @ tasks_of i (added xs)"
proof (induction xs arbitrary: q ts)
  case (Cons x xs)
  from Cons.prems(3) obtain a q1 b where r: "run_op x q = Some (a, q1)" "run_ops xs q1 = Some (b, q')" "ts = a @ b"
    by (auto simp: bind_eq_Some_conv)
  have inv: "server_queue_inv q1" using run_op_inv [OF Cons.prems(1), of x] r(1) by auto
  from run_op_keeps_order [OF Cons.prems(1) _ r(1), of i] Cons.prems(2)
  have 1: "tasks_of i a @ peer_tasks q1 i = peer_tasks q i @ tasks_of i (added_by x)" by simp
  from Cons.IH [OF inv _ r(2)] Cons.prems(2)
  have "tasks_of i b @ peer_tasks q' i = peer_tasks q1 i @ tasks_of i (added xs)" by simp
  then have "tasks_of i ts @ peer_tasks q' i = (tasks_of i a @ peer_tasks q1 i) @ tasks_of i (added xs)" using r(3) by simp
  then show ?case unfolding 1 by simp
qed simp

text \<open>
  The number of tasks taken before the one with \<open>k\<close> tasks of its peer in front of it, with at most \<open>n\<close> peers: it is below
  \<open>ahead_of i q + n * k\<close>, and every task taken brings it down.
\<close>

lemma take_step_turn:
  assumes inv: "server_queue_inv q" and k: "k < length (peer_tasks q i)" and S: "set (peers_queue q) \<subseteq> S" "finite S"
    and run: "run_op TakeTask q = Some (ts, q')"
  shows "\<exists>t. ts = [t] \<and> (if task_peer_index t \<noteq> i then k < length (peer_tasks q' i) \<and> ahead_of i q' < ahead_of i q
    else k = 0 \<or> k - 1 < length (peer_tasks q' i) \<and> ahead_of i q' + card S * (k - 1) < ahead_of i q + card S * k)"
proof -
  have i: "i \<in> set (peers_queue q)" using k waiting_iff [OF inv, of i] by (cases "peer_tasks q i") simp_all
  then obtain j ps where q: "peers_queue q = j # ps" by (cases "peers_queue q") auto
  obtain t q1 where t: "next_task q = Some (Some t, q1)" "task_peer_index t = j"
    "peers_queue q1 = ps @ (if peer_tasks q1 j = [] then [] else [j])" "peer_tasks q = (peer_tasks q1)(j := t # peer_tasks q1 j)"
    by (rule next_task_front [OF inv q])
  with run have r: "ts = [t]" "q' = q1" by auto
  have "peer_tasks q i = (if j = i then t # peer_tasks q1 i else peer_tasks q1 i)" by (simp add: t(4))
  note len = arg_cong [OF this, where f = length]
  show ?thesis
  proof (cases "j = i")
    case True
    have "distinct (i # ps)" using inv q True by (simp add: server_queue_inv_def)
    then have d: "i \<notin> set ps" "length (i # ps) = card (set (peers_queue q))" using q True by (simp_all add: distinct_card)
    have "takeWhile ((\<noteq>) i) (ps @ ys) = ps @ takeWhile ((\<noteq>) i) ys" for ys by (rule takeWhile_append2) (use d(1) in auto)
    then have "ahead_of i q1 \<le> length ps" unfolding ahead_of_def t(3) using True by simp
    moreover have "card (set (peers_queue q)) \<le> card S" by (rule card_mono [OF S(2,1)])
    ultimately have "Suc (ahead_of i q1) \<le> card S" using d(2) by simp
    then have "k \<noteq> 0 \<Longrightarrow> ahead_of i q1 + card S * (k - 1) < ahead_of i q + card S * k" by (cases k) simp_all
    with True t(2) k r len show ?thesis by auto
  next
    case False
    with i q have "i \<in> set ps" by simp
    then have "ahead_of i q1 < ahead_of i q" unfolding ahead_of_def q t(3) using False by simp
    with False t(2) k r len show ?thesis by simp
  qed
qed

lemma other_step_turn:
  assumes inv: "server_queue_inv q" and k: "k < length (peer_tasks q i)" and x: "x \<noteq> TakeTask" "keeps_turn i x"
    and run: "run_op x q = Some (ts, q')"
  shows "ts = [] \<and> k < length (peer_tasks q' i) \<and> ahead_of i q' \<le> ahead_of i q"
proof -
  have ts: "ts = []" using run x(1) by (cases x) auto
  have i: "i \<in> set (peers_queue q)" using k waiting_iff [OF inv, of i] by (cases "peer_tasks q i") simp_all
  from arg_cong [OF run_op_keeps_order [OF inv x(2) run], where f = length] k ts
  have "k < length (peer_tasks q' i)" by simp
  moreover have "x \<noteq> RemovePeer i" using x(2) by auto
  with run_op_ahead [OF inv i _ run] x(1) ts have "ahead_of i q' \<le> ahead_of i q" by auto
  ultimately show ?thesis using ts by simp
qed

lemma run_ops_reaches:
  "server_queue_inv q \<Longrightarrow> list_all (keeps_turn i) xs \<Longrightarrow> k < length (peer_tasks q i) \<Longrightarrow> finite S \<Longrightarrow>
   set (peers_queue q) \<union> task_peer_index ` set (added xs) \<subseteq> S \<Longrightarrow> ahead_of i q + card S * k < count_list xs TakeTask \<Longrightarrow>
   run_ops xs q = Some (ts, q') \<Longrightarrow> k < length (tasks_of i ts)"
proof (induction xs arbitrary: q ts k)
  case (Cons x xs)
  from Cons.prems(7) obtain a q1 b where r: "run_op x q = Some (a, q1)" "run_ops xs q1 = Some (b, q')" "ts = a @ b"
    by (auto simp: bind_eq_Some_conv)
  have inv: "server_queue_inv q1" using run_op_inv [OF Cons.prems(1), of x] r(1) by auto
  have S: "set (peers_queue q1) \<union> task_peer_index ` set (added xs) \<subseteq> S"
    using run_op_peers [OF Cons.prems(1) r(1)] Cons.prems(5) by auto
  have turn: "list_all (keeps_turn i) xs" using Cons.prems(2) by simp
  note IH = Cons.IH [OF inv turn _ Cons.prems(4) S _ r(2)]
  show ?case
  proof (cases "x = TakeTask")
    case False
    from other_step_turn [OF Cons.prems(1,3) False _ r(1)] Cons.prems(2,6) False r(3) IH [of k] show ?thesis by simp
  next
    case True
    from take_step_turn [OF Cons.prems(1,3) _ Cons.prems(4), of a q1] Cons.prems(5) r(1) True obtain t where
      t: "a = [t]" "if task_peer_index t \<noteq> i then k < length (peer_tasks q1 i) \<and> ahead_of i q1 < ahead_of i q
        else k = 0 \<or> k - 1 < length (peer_tasks q1 i) \<and> ahead_of i q1 + card S * (k - 1) < ahead_of i q + card S * k" by auto
    show ?thesis
      using t IH [of k] IH [of "k - 1"] Cons.prems(6) True r(3) by (cases "task_peer_index t = i") auto
  qed
qed simp

text \<open>C33: the queue of the server never panics, whatever is added, removed and taken. It is fair: a peer with a waiting
  task that is not removed is served after at most as many tasks of other peers as there were peers ahead of it, however
  many tasks arrive in the meantime. And it is first in, first out for a peer that is not removed and gets nothing in
  front of its tasks: the tasks taken for it followed by those still waiting are those that waited followed by those
  added, in this order, so that a task with \<open>k\<close> tasks of its peer in front of it is taken after at most
  \<open>ahead_of i q + n * k\<close> others, where \<open>n\<close> is the number of peers that have or get tasks. The rest of a task that is put
  back in front becomes the next task of its peer.\<close>

theorem server_queue_fair:
  assumes "run_ops before server_queue_new = Some (served, q)"
  shows "\<exists>taken q'. run_ops xs q = Some (taken, q') \<and>
    (i \<in> set (peers_queue q) \<and> RemovePeer i \<notin> set xs \<and> ahead_of i q < count_list xs TakeTask \<longrightarrow>
      (\<exists>t \<in> set taken. task_peer_index t = i)) \<and>
    (list_all (keeps_turn i) xs \<longrightarrow>
      tasks_of i taken @ peer_tasks q' i = peer_tasks q i @ tasks_of i (added xs) \<and>
      (\<forall>k < length (peer_tasks q i).
        ahead_of i q + card (set (peers_queue q) \<union> task_peer_index ` set (added xs)) * k < count_list xs TakeTask \<longrightarrow>
        k < length (tasks_of i taken))) \<and>
    peer_tasks (add_task_front t q') i = (if task_peer_index t = i then t # peer_tasks q' i else peer_tasks q' i)"
proof -
  have inv: "server_queue_inv q" using run_ops_inv [OF server_queue_new_inv, of before] assms by auto
  from run_ops_inv [OF inv, of xs] obtain taken q' where r: "run_ops xs q = Some (taken, q')" by blast
  note serves = run_ops_serves [OF inv _ _ _ r, of i] and order = run_ops_keeps_order [OF inv _ r, of i]
    and reaches = run_ops_reaches [OF inv _ _ _ order_refl _ r, of i]
  have front: "peer_tasks (add_task_front t q') i = (if task_peer_index t = i then t # peer_tasks q' i else peer_tasks q' i)"
    by (auto simp: add_task_front_def peer_tasks_def Let_def split: option.splits)
  show ?thesis
    by (intro exI [of _ taken] exI [of _ q'] conjI impI allI) (simp_all add: r serves order reaches front)
qed

theorem server_queue_fair_witness:
  "\<exists>served q taken q'. run_ops [AddTask (ServeMempool 3), AddTask (ServeMempool 3), AddTask (ServeMempool 2)] server_queue_new =
      Some (served, q) \<and> peers_queue q = [3, 2] \<and>
    run_ops [TakeTask, AddTask (ServeMempool 2), TakeTask, TakeTask] q = Some (taken, q') \<and>
    (\<exists>t \<in> set taken. task_peer_index t = 2) \<and> tasks_of 3 taken = [ServeMempool 3, ServeMempool 3]"
proof -
  let ?b = "[AddTask (ServeMempool 3), AddTask (ServeMempool 3), AddTask (ServeMempool 2)]"
  let ?x = "[TakeTask, AddTask (ServeMempool 2), TakeTask, TakeTask]"
  obtain served q where q: "run_ops ?b server_queue_new = Some (served, q)" "peers_queue q = [3, 2]"
    "peer_tasks q 3 = [ServeMempool 3, ServeMempool 3]"
    by (simp add: add_task_def server_queue_new_def peer_tasks_def)
  have a: "ahead_of 2 q = 1" "ahead_of 3 q = 0" using q(2) by (simp_all add: ahead_of_def)
  have n: "card (set (peers_queue q) \<union> task_peer_index ` set (added ?x)) = 2" using q(2) by (simp add: insert_absorb)
  have c: "count_list ?x TakeTask = 3" by simp
  have k: "list_all (keeps_turn i) ?x" "RemovePeer i \<notin> set ?x" for i by simp_all
  from server_queue_fair [OF q(1), of ?x 2 "ServeMempool 2"] obtain taken q' where
    r: "run_ops ?x q = Some (taken, q')" "\<exists>t \<in> set taken. task_peer_index t = 2" using q(2) a(1) c k(2) by auto
  from server_queue_fair [OF q(1), of ?x 3 "ServeMempool 3"] r(1) k(1) [of 3]
  have "tasks_of 3 taken @ peer_tasks q' 3 = peer_tasks q 3 @ tasks_of 3 (added ?x)"
    "\<forall>k < length (peer_tasks q 3). ahead_of 3 q + 2 * k < 3 \<longrightarrow> k < length (tasks_of 3 taken)"
    unfolding n c by (metis (no_types, lifting) option.inject prod.inject)+
  then have 3: "tasks_of 3 taken @ peer_tasks q' 3 = [ServeMempool 3, ServeMempool 3]" "1 < length (tasks_of 3 taken)"
    by (simp_all add: q(3) a(2))
  then have "tasks_of 3 taken = [ServeMempool 3, ServeMempool 3]"
    by (cases "tasks_of 3 taken"; cases "tl (tasks_of 3 taken)") (auto simp: append_eq_Cons_conv)
  with q(1,2) r show ?thesis by blast
qed

section \<open>Requests for data\<close>

text \<open>The worker on one task until nothing of it remains, at most \<open>n\<close> times: what the executor was given.\<close>

fun run_task :: "nat \<Rightarrow> 'd kv_ops \<Rightarrow> 'd BlockChainDatabase \<Rightarrow> ServerTask \<Rightarrow> served option" where
  "run_task 0 ops s task = Some (Some task, [], [])"
| "run_task (Suc n) ops s task =
     do { (remaining, tasks, bad) \<leftarrow> execute_server_task ops s task;
          case remaining of
            None \<Rightarrow> Some (None, tasks, bad)
          | Some task \<Rightarrow>
              do { (remaining, tasks', bad') \<leftarrow> run_task n ops s task; Some (remaining, tasks @ tasks', bad @ bad') } }"

definition stored_block :: "'d kv_ops \<Rightarrow> 'd BlockChainDatabase \<Rightarrow> h256 \<Rightarrow> IndexedBlock option" where
  "stored_block ops s h = Option.bind (db_block ops s (RefHash h)) (\<lambda>b. b)"

definition found_item :: "'d kv_ops \<Rightarrow> 'd BlockChainDatabase \<Rightarrow> InventoryVector \<Rightarrow> bool" where
  "found_item ops s v \<longleftrightarrow> inv_type v = MessageBlock \<and> stored_block ops s (inv_hash v) \<noteq> None"

definition missing_item :: "'d kv_ops \<Rightarrow> 'd BlockChainDatabase \<Rightarrow> InventoryVector \<Rightarrow> bool" where
  "missing_item ops s v \<longleftrightarrow> inv_type v = MessageBlock \<and> stored_block ops s (inv_hash v) = None"

definition notfound_reply :: "PeerIndex \<Rightarrow> InventoryVector list \<Rightarrow> Task list" where
  "notfound_reply i vs = (if vs = [] then [] else [NotFoundTask i \<lparr>nf_inventory = vs\<rparr>])"

lemma serve_reversed_step:
  assumes "\<And>h. \<exists>b. db_block ops s (RefHash h) = Some b"
  shows "serve_reversed_get_data ops s i \<lparr>gd_inventory = rev (v # vs)\<rparr> \<lparr>nf_inventory = nf\<rparr> =
    Some (Some (ServeReversedGetData i \<lparr>gd_inventory = rev vs\<rparr>
        \<lparr>nf_inventory = nf @ (if missing_item ops s v then [v] else [])\<rparr>),
      if found_item ops s v then [BlockTask i (the (stored_block ops s (inv_hash v)))] else [], [])"
proof -
  from assms [of "inv_hash v"] obtain b where b: "db_block ops s (RefHash (inv_hash v)) = Some b" by blast
  have "rev (v # vs) \<noteq> []" "last (rev (v # vs)) = v" "butlast (rev (v # vs)) = rev vs" by simp_all
  then show ?thesis
    unfolding serve_reversed_get_data_def Let_def
    by (cases "rev (v # vs)"; cases "inv_type v"; cases b)
      (simp_all add: b missing_item_def found_item_def stored_block_def)
qed

lemma run_reversed:
  assumes db: "\<And>h. \<exists>b. db_block ops s (RefHash h) = Some b"
  shows "run_task (Suc (length vs)) ops s (ServeReversedGetData i \<lparr>gd_inventory = rev vs\<rparr> \<lparr>nf_inventory = nf\<rparr>) =
    Some (None, map (\<lambda>v. BlockTask i (the (stored_block ops s (inv_hash v)))) (filter (found_item ops s) vs) @
      notfound_reply i (nf @ filter (missing_item ops s) vs), [])"
proof (induction vs arbitrary: nf)
  case Nil
  show ?case by (simp add: execute_server_task_def serve_reversed_get_data_def notfound_reply_def)
next
  case (Cons v vs)
  have "execute_server_task ops s (ServeReversedGetData i \<lparr>gd_inventory = rev (v # vs)\<rparr> \<lparr>nf_inventory = nf\<rparr>) =
      Some (Some (ServeReversedGetData i \<lparr>gd_inventory = rev vs\<rparr>
          \<lparr>nf_inventory = nf @ (if missing_item ops s v then [v] else [])\<rparr>),
        if found_item ops s v then [BlockTask i (the (stored_block ops s (inv_hash v)))] else [], [])"
    unfolding execute_server_task_def using serve_reversed_step [OF db] by simp
  then show ?case using Cons.IH [of "nf @ (if missing_item ops s v then [v] else [])"]
    by (simp only: run_task.simps(2) [of "Suc (length vs)"] length_Cons) (simp del: rev.simps run_task.simps)
qed

text \<open>C34: a request for data is served to its end, item by item: the peer gets the stored blocks among the requested ones,
  in the order of the request, and then one message that lists exactly the requested blocks that are not stored, in
  that order, if there are any; items that are no blocks are skipped. The number of steps is the number of items
  plus two.\<close>

theorem getdata_served_in_order:
  assumes "block_database ops db_inv op_ok" "chain_inv ops db_inv s hs"
  shows "run_task (length (gd_inventory m) + 2) ops s (ServeGetData i m) =
    Some (None,
      map (\<lambda>v. BlockTask i (the (stored_block ops s (inv_hash v)))) (filter (found_item ops s) (gd_inventory m)) @
      notfound_reply i (filter (missing_item ops s) (gd_inventory m)), [])"
proof -
  have "db_inv (bdb s)" using assms(2) by (simp add: chain_inv_def)
  then have db: "\<exists>b. db_block ops s (RefHash h) = Some b" for h
    using block_database.db_block_view [OF assms(1), of s h] by (cases "prev_of (kv_view ops (bdb s)) h") auto
  obtain vs where m: "m = \<lparr>gd_inventory = vs\<rparr>" by (cases m) auto
  have "execute_server_task ops s (ServeGetData i m) =
      Some (Some (ServeReversedGetData i \<lparr>gd_inventory = rev vs\<rparr> \<lparr>nf_inventory = []\<rparr>), [], [])"
    by (simp add: execute_server_task_def serve_get_data_def m)
  then have "run_task (Suc (Suc (length vs))) ops s (ServeGetData i m) =
      run_task (Suc (length vs)) ops s (ServeReversedGetData i \<lparr>gd_inventory = rev vs\<rparr> \<lparr>nf_inventory = []\<rparr>)"
    by (simp only: run_task.simps(2) [of "Suc (length vs)"]) (simp del: run_task.simps add: bind_eq_Some_conv split: bind_split)
  with run_reversed [OF db, of vs i "[]"] show ?thesis by (simp add: m del: run_task.simps)
qed

lemma sample_stored_block:
  "stored_block memory_ops sample_db h =
     (if h = 7 then Some (link_block 7 0) else if h = 8 then Some (link_block 8 7)
      else if h = 9 then Some (link_block 9 7) else if h = 10 then Some (link_block 10 9) else None)"
proof -
  have inv: "memory_inv (bdb sample_db)" using sample_db_ok(1) by (simp add: chain_inv_def)
  have "kv_view memory_ops (bdb sample_db) (KBlock h) = blocks_view memory_ops sample_db h" by (simp add: blocks_view_def)
  then show ?thesis
    unfolding stored_block_def db_block_def
    using memory_blocks.db_get_view [OF inv, of "KBlock h"]
    by (simp add: sample_db_ok(2) link_block_def to_raw_block_def)
qed

theorem getdata_served_in_order_witness:
  "run_task 5 memory_ops sample_db (ServeGetData 3 \<lparr>gd_inventory = [inventory_block 8, inventory_block 99, inventory_block 7]\<rparr>) =
     Some (None, [BlockTask 3 (link_block 8 7), BlockTask 3 (link_block 7 0),
       NotFoundTask 3 \<lparr>nf_inventory = [inventory_block 99]\<rparr>], [])"
proof -
  let ?m = "\<lparr>gd_inventory = [inventory_block 8, inventory_block 99, inventory_block 7]\<rparr>"
  have "length (gd_inventory ?m) + 2 = (5 :: nat)" by simp
  from getdata_served_in_order [OF memory_blocks.block_database_axioms sample_db_ok(1), of ?m 3, unfolded this] show ?thesis
    by (simp add: found_item_def missing_item_def sample_stored_block inventory_block_def notfound_reply_def
        del: run_task.simps)
qed

section \<open>Requests for headers\<close>

text \<open>The block \<open>h\<close> branches off the canonical chain \<open>hs\<close> after its block at \<open>n\<close>, or is that block.\<close>

definition branches_at :: "(h256 \<Rightarrow> h256 option) \<Rightarrow> h256 list \<Rightarrow> h256 \<Rightarrow> nat \<Rightarrow> bool" where
  "branches_at prev hs h n \<longleftrightarrow>
     n < length hs \<and> (\<exists>r. linked prev (hs ! n) r \<and> last (hs ! n # r) = h \<and> set r \<inter> set hs = {})"

text \<open>No stored block is its own ancestor.\<close>

definition acyclic_store :: "(h256 \<Rightarrow> h256 option) \<Rightarrow> bool" where
  "acyclic_store prev \<longleftrightarrow> wf {(p, h). prev h = Some p}"

text \<open>Storing a new block below a stored one keeps the store acyclic.\<close>

lemma acyclic_store_insert:
  assumes "acyclic_store prev" "parents_stored prev hs" "prev h = None" "h \<noteq> 0" "prev p \<noteq> None"
  shows "acyclic_store (prev(h \<mapsto> p))"
proof -
  let ?R = "{(p, h). prev h = Some p}"
  have "{(q, k). (prev(h \<mapsto> p)) k = Some q} = insert (p, h) ?R" using assms(3) by (auto split: if_splits)
  moreover have "(h, k) \<notin> ?R" for k using assms(2-4) unfolding parents_stored_def by fastforce
  then have "(h, p) \<notin> ?R\<^sup>*" using assms(3,5) by (auto elim: converse_rtranclE)
  ultimately show ?thesis using assms(1) by (simp add: acyclic_store_def)
qed

lemma branches_at_canonical: "n < length hs \<Longrightarrow> branches_at prev hs (hs ! n) n"
  unfolding branches_at_def by (intro conjI exI [of _ "[]"]) simp_all

lemma branches_at_step:
  assumes "branches_at prev hs p n" "prev h = Some p" "h \<notin> set hs"
  shows "branches_at prev hs h n"
proof -
  from assms(1) obtain r where r: "n < length hs" "linked prev (hs ! n) r" "last (hs ! n # r) = p" "set r \<inter> set hs = {}"
    unfolding branches_at_def by blast
  then have "linked prev (hs ! n) (r @ [h])" using assms(2) by (simp add: linked_append)
  with r assms(3) show ?thesis unfolding branches_at_def by (intro conjI exI [of _ "r @ [h]"]) auto
qed

lemma branch_unique:
  "linked prev a r \<Longrightarrow> linked prev b q \<Longrightarrow> last (a # r) = last (b # q) \<Longrightarrow> a \<in> H \<Longrightarrow> b \<in> H \<Longrightarrow>
   set r \<inter> H = {} \<Longrightarrow> set q \<inter> H = {} \<Longrightarrow> a = b"
proof (induction r arbitrary: q rule: rev_induct)
  case Nil
  show ?case
  proof (cases q rule: rev_cases)
    case (snoc q' x)
    with Nil have "x = a" by simp
    with snoc Nil show ?thesis by auto
  qed (use Nil in simp)
next
  case (snoc x r)
  show ?case
  proof (cases q rule: rev_cases)
    case Nil
    with snoc.prems have "x = b" by simp
    with snoc.prems show ?thesis by auto
  next
    case (snoc q' y)
    with snoc.prems have y: "y = x" by simp
    have "linked prev a r" "prev x = Some (last (a # r))" using snoc.prems(1) by (auto simp: linked_append)
    moreover have "linked prev b q'" "prev x = Some (last (b # q'))" using snoc.prems(2) snoc y by (auto simp: linked_append)
    moreover have "set r \<inter> H = {}" "set q' \<inter> H = {}" using snoc.prems(6,7) snoc by auto
    ultimately show ?thesis using snoc.IH [of q'] snoc.prems(4,5) by simp
  qed
qed

lemma branches_at_unique:
  assumes "distinct hs" "branches_at prev hs h n" "branches_at prev hs h m"
  shows "n = m"
proof -
  from assms(2,3) obtain r q where
    r: "n < length hs" "linked prev (hs ! n) r" "last (hs ! n # r) = h" "set r \<inter> set hs = {}" and
    q: "m < length hs" "linked prev (hs ! m) q" "last (hs ! m # q) = h" "set q \<inter> set hs = {}"
    unfolding branches_at_def by blast
  have "hs ! n = hs ! m"
    by (rule branch_unique [OF r(2) q(2) _ nth_mem [OF r(1)] nth_mem [OF q(1)] r(4) q(4)]) (simp only: r(3) q(3))
  with r(1) q(1) assms(1) show ?thesis by (simp add: nth_eq_iff_index_eq)
qed

context block_database
begin

lemma db_block_header_prev:
  assumes "db_inv (bdb s)"
  shows "prev_of (kv_view ops (bdb s)) h = None \<Longrightarrow> db_block_header ops s (RefHash h) = Some None"
    "prev_of (kv_view ops (bdb s)) h = Some p \<Longrightarrow>
      \<exists>x. db_block_header ops s (RefHash h) = Some (Some x) \<and> previous_header_hash (raw x) = p \<and> hash x = h"
  using db_block_header_blocks [OF assms, of h]
  by (auto simp: prev_of_blocks split: option.splits)

lemma locate_in_fork_ok:
  assumes s: "chain_inv ops db_inv s hs" and prev: "prev = prev_of (kv_view ops (bdb s))"
    and closed: "parents_stored prev hs" and acyclic: "acyclic_store prev"
  shows "h \<notin> set hs \<Longrightarrow> if prev h = None then locate_in_fork ops s h = Some None
    else \<exists>n. locate_in_fork ops s h = Some (Some (of_nat n)) \<and> branches_at prev hs h n"
proof (induction h rule: wf_induct_rule [OF acyclic [unfolded acyclic_store_def]])
  case (1 h)
  have inv: "db_inv (bdb s)" using s by (simp add: chain_inv_def)
  show ?case
  proof (cases "prev h")
    case None
    with db_block_header_prev(1) [OF inv] prev show ?thesis by (simp add: locate_in_fork.simps)
  next
    case (Some p)
    with db_block_header_prev(2) [OF inv] prev obtain x where
      x: "db_block_header ops s (RefHash h) = Some (Some x)" "previous_header_hash (raw x) = p" by blast
    have unfold: "locate_in_fork ops s h = (case find_pos p hs of
        Some n \<Rightarrow> Some (Some (of_nat n)) | None \<Rightarrow> locate_in_fork ops s p)"
      by (subst locate_in_fork.simps) (simp add: x db_block_number_chain [OF s] split: option.splits)
    show ?thesis
    proof (cases "find_pos p hs")
      case None
      then have p: "p \<notin> set hs" by simp
      have "prev p \<noteq> None" using closed Some "1.prems" unfolding parents_stored_def by (auto split: if_splits)
      with "1.IH" [of p] Some p obtain n where n: "locate_in_fork ops s p = Some (Some (of_nat n))" "branches_at prev hs p n"
        by (auto split: if_splits)
      have "branches_at prev hs h n" by (rule branches_at_step [OF n(2) \<open>prev h = Some p\<close> "1.prems"])
      with n(1) unfold None Some show ?thesis by auto
    next
      case (Some n)
      then have n: "n < length hs" "hs ! n = p" by (auto dest: find_pos_Some)
      have "branches_at prev hs h n"
        by (rule branches_at_step [OF branches_at_canonical [OF n(1)] _ "1.prems"]) (simp add: n(2) \<open>prev h = Some p\<close>)
      with unfold Some \<open>prev h = Some p\<close> show ?thesis by auto
    qed
  qed
qed

lemma locate_loop_ok:
  assumes s: "chain_inv ops db_inv s hs" and prev: "prev = prev_of (kv_view ops (bdb s))"
    and closed: "parents_stored prev hs" and acyclic: "acyclic_store prev"
  shows "case find (\<lambda>h. prev h \<noteq> None) ks of
      None \<Rightarrow> locate_loop ops s ks = Some None
    | Some h \<Rightarrow> \<exists>n. locate_loop ops s ks = Some (Some (of_nat n)) \<and> branches_at prev hs h n"
proof (induction ks)
  case (Cons k ks)
  have linked: "linked prev 0 hs" using s prev by (simp add: chain_inv_def chain_view_def)
  show ?case
  proof (cases "find_pos k hs")
    case None
    then have k: "k \<notin> set hs" by simp
    with locate_in_fork_ok [OF s prev closed acyclic k] Cons.IH show ?thesis
      by (cases "prev k") (auto simp: db_block_number_chain [OF s] None split: option.splits)
  next
    case (Some n)
    then have n: "n < length hs" "hs ! n = k" by (auto dest: find_pos_Some)
    then have "prev k \<noteq> None" using linked_prev [OF linked] by (metis nth_mem)
    with branches_at_canonical [OF n(1), of prev] n(2) show ?thesis by (auto simp: db_block_number_chain [OF s] Some)
  qed
qed simp

end

definition raw_header_at :: "'d kv_ops \<Rightarrow> 'd BlockChainDatabase \<Rightarrow> h256 \<Rightarrow> BlockHeader" where
  "raw_header_at ops s h = block_header (the (Option.bind (blocks_view ops s h) as_block))"

lemma numbers_after_eq:
  assumes "n + k + 1 < 2 ^ 32"
  shows "numbers_after (of_nat n) k = map of_nat [Suc n ..< Suc n + k]"
proof -
  have "unat (of_nat n + 1 :: u32) = Suc n" "unat (of_nat n + 1 + of_nat k :: u32) = Suc n + k"
    using assms unat_of_nat_u32 [of "Suc n"] unat_of_nat_u32 [of "Suc n + k"] by (simp_all add: ac_simps)
  then show ?thesis by (simp add: numbers_after_def)
qed

context block_database
begin

lemma headers_at_ok:
  assumes s: "chain_inv ops db_inv s hs"
  shows "length hs < 2 ^ 32 \<Longrightarrow> i + k < 2 ^ 32 \<Longrightarrow> headers_at ops s stop (map of_nat [i ..< i + k]) =
    Some (map (raw_header_at ops s) (takeWhile ((\<noteq>) stop) (take k (drop i hs))))"
proof (induction k arbitrary: i)
  case (Suc k)
  have i: "unat (of_nat i :: u32) = i" using Suc.prems by (intro unat_of_nat_u32) simp
  have range: "[i ..< i + Suc k] = i # [Suc i ..< Suc i + k]" by (simp add: upt_rec)
  have IH: "headers_at ops s stop (map of_nat [Suc i ..< Suc i + k]) =
      Some (map (raw_header_at ops s) (takeWhile ((\<noteq>) stop) (take k (drop (Suc i) hs))))"
    by (rule Suc.IH) (use Suc.prems in simp_all)
  show ?case
  proof (cases "i < length hs")
    case True
    have inv: "db_inv (bdb s)" and linked: "linked (prev_of (kv_view ops (bdb s))) 0 hs"
      using s by (simp_all add: chain_inv_def chain_view_def)
    from linked_prev [OF linked nth_mem [OF True]] obtain x where
      x: "Option.bind (blocks_view ops s (hs ! i)) as_block = Some x" by (auto simp: prev_of_blocks)
    from True have "drop i hs = hs ! i # drop (Suc i) hs" by (simp add: Cons_nth_drop_Suc)
    then show ?thesis
      unfolding range using IH True by (simp add: db_block_hash_chain [OF s] i db_block_header_blocks [OF inv] x raw_header_at_def)
  next
    case False
    then show ?thesis unfolding range by (simp add: db_block_hash_chain [OF s] i)
  qed
qed simp

end

text \<open>C35: the answer to a request for headers, on a store whose blocks all descend from the first one. The first hash of the
  locator, or the stop hash, that is stored decides: the answer continues the canonical chain after the block where
  that hash branches off it, with at most 2000 headers, and ends before the stop hash. When none is stored the peer
  is reported. The search always ends.\<close>

theorem getheaders_continues_chain:
  assumes "block_database ops db_inv op_ok" "stored_chain ops db_inv s hs" "prev = prev_of (kv_view ops (bdb s))"
    and "acyclic_store prev" "length hs + GETHEADERS_MAX_RESPONSE_HEADERS < 2 ^ 32"
  shows "case find (\<lambda>h. prev h \<noteq> None) (gh_locator m @ [gh_hash_stop m]) of
      None \<Rightarrow> serve_get_headers ops s i m request_id = Some (None, [], [i])
    | Some h \<Rightarrow> \<exists>n. branches_at prev hs h n \<and> serve_get_headers ops s i m request_id =
        Some (None, [HeadersTask i \<lparr>headers_list = map (raw_header_at ops s) (takeWhile ((\<noteq>) (gh_hash_stop m))
          (take GETHEADERS_MAX_RESPONSE_HEADERS (drop (Suc n) hs)))\<rparr> (Some request_id)], [])"
proof -
  have s: "chain_inv ops db_inv s hs" and closed: "parents_stored prev hs"
    using assms(2,3) by (simp_all add: stored_chain_def)
  note loc = block_database.locate_loop_ok [OF assms(1) s assms(3) closed assms(4), of "gh_locator m @ [gh_hash_stop m]"]
  show ?thesis
  proof (cases "find (\<lambda>h. prev h \<noteq> None) (gh_locator m @ [gh_hash_stop m])")
    case None
    with loc show ?thesis by (simp add: serve_get_headers_def locate_best_common_block_def)
  next
    case (Some h)
    with loc obtain n where n: "locate_loop ops s (gh_locator m @ [gh_hash_stop m]) = Some (Some (of_nat n))"
      "branches_at prev hs h n" by auto
    then have "n < length hs" by (simp add: branches_at_def)
    then have "headers_at ops s (gh_hash_stop m) (numbers_after (of_nat n) GETHEADERS_MAX_RESPONSE_HEADERS) =
        Some (map (raw_header_at ops s) (takeWhile ((\<noteq>) (gh_hash_stop m))
          (take GETHEADERS_MAX_RESPONSE_HEADERS (drop (Suc n) hs))))"
      using assms(5) numbers_after_eq [of n GETHEADERS_MAX_RESPONSE_HEADERS]
        block_database.headers_at_ok [OF assms(1) s, of "Suc n" GETHEADERS_MAX_RESPONSE_HEADERS "gh_hash_stop m"] by simp
    with n Some show ?thesis by (auto simp: serve_get_headers_def locate_best_common_block_def)
  qed
qed

lemma sample_acyclic: "acyclic_store (prev_of (kv_view memory_ops (bdb sample_db)))"
proof -
  have "{(p, h). ([7 \<mapsto> 0, 8 \<mapsto> 7, 9 \<mapsto> 7, 10 \<mapsto> 9] :: h256 \<rightharpoonup> h256) h = Some p} \<subseteq> measure unat"
    by (auto split: if_splits)
  then show ?thesis unfolding acyclic_store_def sample_db_prev by (rule wf_subset [OF wf_measure])
qed

lemma sample_branch: "branches_at (prev_of (kv_view memory_ops (bdb sample_db))) [7, 8] 10 0"
  unfolding branches_at_def sample_db_prev by (intro conjI exI [of _ "[9, 10]"]) simp_all

theorem getheaders_continues_chain_witness:
  "serve_get_headers memory_ops sample_db 3 (with_block_locator_hashes [99, 10, 7]) 1 =
     Some (None, [HeadersTask 3 \<lparr>headers_list = [raw (header (link_block 8 7))]\<rparr> (Some 1)], [])"
proof -
  let ?m = "with_block_locator_hashes [99, 10, 7]" and ?prev = "prev_of (kv_view memory_ops (bdb sample_db))"
  have find: "find (\<lambda>h. ?prev h \<noteq> None) (gh_locator ?m @ [gh_hash_stop ?m]) = Some 10"
    by (simp add: sample_db_prev with_block_locator_hashes_def)
  have len: "length [7 :: h256, 8] + GETHEADERS_MAX_RESPONSE_HEADERS < 2 ^ 32"
    by (simp add: GETHEADERS_MAX_RESPONSE_HEADERS_def)
  from getheaders_continues_chain [OF memory_blocks.block_database_axioms sample_stored refl sample_acyclic len,
      where m = ?m and i = 3 and request_id = 1, unfolded find] obtain n where
    n: "branches_at ?prev [7, 8] 10 n" "serve_get_headers memory_ops sample_db 3 ?m 1 =
      Some (None, [HeadersTask 3 \<lparr>headers_list = map (raw_header_at memory_ops sample_db) (takeWhile ((\<noteq>) (gh_hash_stop ?m))
          (take GETHEADERS_MAX_RESPONSE_HEADERS (drop (Suc n) [7, 8])))\<rparr> (Some 1)], [])" by auto
  have "n = 0" by (rule branches_at_unique [OF _ n(1) sample_branch]) simp
  moreover have "raw_header_at memory_ops sample_db 8 = raw (header (link_block 8 7))"
    by (simp add: raw_header_at_def sample_db_ok(2) to_raw_block_def)
  ultimately show ?thesis using n(2) by (simp add: with_block_locator_hashes_def GETHEADERS_MAX_RESPONSE_HEADERS_def)
qed

end
