(* ===== verification/Miner.thy ===== *)
theory Miner
  imports Consensus
begin

text \<open>
  Mining (\<^verbatim>\<open>miner/src\<close> and the mining thread of \<^verbatim>\<open>randchaind/commands/start.rs\<close>): the block assembler
  takes a template from the store, the CPU miner evaluates the delay function in steps of 1024 squarings until
  the header hash meets the target, and the solution becomes a block. Shown: the search returns, it finds the
  first solution, and the block made from it is accepted by the verifier.

  The clock is a parameter: \<open>expired n\<close> is the value of the timeout test in the \<open>n\<close>-th pass of the loop. The random
  number of the mock miner is a parameter too.
\<close>

section \<open>The block assembler\<close>

definition BLOCK_VERSION :: u32 where "BLOCK_VERSION = 0x20000000"

record BlockTemplate =
  t_version :: u32
  t_previous_header_hash :: h256
  t_time :: u32
  t_bits :: u32
  t_height :: u32

definition create_new_block ::
  "(u256 \<Rightarrow> u256 \<Rightarrow> u256 option) \<Rightarrow> 'd kv_ops \<Rightarrow> 'd BlockChainDatabase \<Rightarrow> u32 \<Rightarrow> Network \<Rightarrow> BlockTemplate option" where
  "create_new_block u256_mul ops store now network =
     (let best_block = best store;
          previous = bb_hash best_block;
          height = bb_number best_block + 1
      in do { bits \<leftarrow> work_required u256_mul previous now height (db_block_header ops store) network;
              Some \<lparr>t_version = BLOCK_VERSION, t_previous_header_hash = previous, t_time = now,
                    t_bits = bits, t_height = height\<rparr> })"

section \<open>The miner\<close>

definition STEP :: u32 where "STEP = 1024"

record Solution =
  s_iterations :: u32
  s_randomness :: int
  s_proof :: "int list"

definition miner_h_g_inner :: "externs \<Rightarrow> bytes \<Rightarrow> int" where
  "miner_h_g_inner X data = expand_2048 X (ascii ''residue_part_'') (dhash256 X data)"

definition miner_h_g :: "externs \<Rightarrow> BlockTemplate \<Rightarrow> h256 \<Rightarrow> int" where
  "miner_h_g X block pk =
     miner_h_g_inner X
       (ser_u32 (t_version block) @ ser_h256 (t_previous_header_hash block) @ ser_u32 (t_time block) @
        ser_compact (t_bits block) @ ser_bytes (ser_h256 pk))"

definition solution_header :: "BlockTemplate \<Rightarrow> h256 \<Rightarrow> u32 \<Rightarrow> int \<Rightarrow> BlockHeader" where
  "solution_header block pk its y =
     \<lparr>version = t_version block, previous_header_hash = t_previous_header_hash block, time = t_time block,
      bits = t_bits block, pubkey = pk, iterations = its, randomness = y\<rparr>"

text \<open>One pass of the loop: \<open>n\<close> counts the passes, \<open>its\<close> is the \<^verbatim>\<open>u64\<close> counter, which never comes near its width.\<close>

function find_solution_loop ::
  "externs \<Rightarrow> BlockTemplate \<Rightarrow> h256 \<Rightarrow> (nat \<Rightarrow> bool) \<Rightarrow> int \<Rightarrow> nat \<Rightarrow> int \<Rightarrow> nat \<Rightarrow> Solution option option" where
  "find_solution_loop X block pk expired g n cur_y its =
     (if expired n then Some None
      else let its = its + unat STEP
      in if its > 2 ^ 32 - 1 then Some None
      else let new_y = vdf_eval cur_y STEP;
               h = dhash256 X (ser_header X (solution_header block pk (of_nat its) new_y))
      in if is_valid_proof_of_work_hash (t_bits block) h
         then do { p \<leftarrow> vdf_prove X g new_y (of_nat its);
                   Some (Some \<lparr>s_iterations = of_nat its, s_randomness = new_y, s_proof = p\<rparr>) }
         else find_solution_loop X block pk expired g (Suc n) new_y its)"
  by pat_completeness auto
termination
  by (relation "measure (\<lambda>(X, block, pk, expired, g, n, cur_y, its). 2 ^ 32 - its)") (auto simp: STEP_def)

declare find_solution_loop.simps [simp del]

definition find_solution ::
  "externs \<Rightarrow> BlockTemplate \<Rightarrow> h256 \<Rightarrow> (nat \<Rightarrow> bool) \<Rightarrow> Solution option option" where
  "find_solution X block pk expired =
     (let g = miner_h_g X block pk in find_solution_loop X block pk expired g 0 g 0)"

text \<open>The block the mining thread makes from a template and a solution.\<close>

definition mined_block :: "BlockTemplate \<Rightarrow> h256 \<Rightarrow> Solution \<Rightarrow> Block" where
  "mined_block block pk sol =
     \<lparr>block_header = solution_header block pk (s_iterations sol) (s_randomness sol), block_proof = s_proof sol\<rparr>"

text \<open>The mock miner: \<open>lucky\<close> is the outcome of the comparison of the random float \<open>r\<close> with the target.\<close>

definition MOCK_STEP :: u32 where "MOCK_STEP = 233868"

definition try_solve_one_shot ::
  "externs \<Rightarrow> BlockTemplate \<Rightarrow> h256 \<Rightarrow> u64 \<Rightarrow> bool \<Rightarrow> bytes \<Rightarrow> Solution option option" where
  "try_solve_one_shot X block pk its lucky r =
     (let g = miner_h_g X block pk;
          its = its + ucast MOCK_STEP
      in if its > 0xffffffff then Some None
         else if lucky
         then let y = miner_h_g_inner X r
              in do { p \<leftarrow> vdf_prove X g y (ucast its);
                      Some (Some \<lparr>s_iterations = ucast its, s_randomness = y, s_proof = p\<rparr>) }
         else Some None)"

section \<open>The search\<close>

lemma unat_STEP [simp]: "unat STEP = 1024"
  by (simp add: STEP_def)

definition solved_at :: "externs \<Rightarrow> BlockTemplate \<Rightarrow> h256 \<Rightarrow> nat \<Rightarrow> bool" where
  "solved_at X block pk k =
     is_valid_proof_of_work_hash (t_bits block)
       (block_header_hash X (solution_header block pk (of_nat (1024 * k))
          (vdf_eval_loop (1024 * k) (miner_h_g X block pk))))"

text \<open>The first pass that ends the search, if any, decides its result.\<close>

lemma find_solution_loop_unfold:
  assumes "g = miner_h_g X block pk"
  shows "find_solution_loop X block pk expired g n (vdf_eval_loop (1024 * n) g) (1024 * n) =
    (if expired n \<or> 2 ^ 32 \<le> 1024 * Suc n then Some None
     else if solved_at X block pk (Suc n)
     then map_option (\<lambda>p. Some \<lparr>s_iterations = of_nat (1024 * Suc n), s_randomness = vdf_eval_loop (1024 * Suc n) g,
                               s_proof = p\<rparr>)
            (vdf_prove X g (vdf_eval_loop (1024 * Suc n) g) (of_nat (1024 * Suc n)))
     else find_solution_loop X block pk expired g (Suc n) (vdf_eval_loop (1024 * Suc n) g) (1024 * Suc n))"
proof -
  have step: "1024 * n + unat STEP = 1024 * Suc n" by simp
  have eval: "vdf_eval (vdf_eval_loop (1024 * n) g) STEP = vdf_eval_loop (1024 * Suc n) g"
    using vdf_eval_loop_add [of "1024 * n" 1024 g] by (simp add: vdf_eval_def add.commute)
  have stop: "m > 2 ^ 32 - 1 \<longleftrightarrow> 2 ^ 32 \<le> m" for m :: nat by auto
  have bind: "Option.bind v (\<lambda>p. Some (f p)) = map_option f v" for v :: "int list option" and f :: "_ \<Rightarrow> Solution option"
    by (cases v) simp_all
  show ?thesis
    unfolding find_solution_loop.simps [of X block pk expired g n "vdf_eval_loop (1024 * n) g" "1024 * n"]
      Let_def step eval stop bind solved_at_def block_header_hash_def assms [symmetric]
    by (cases "expired n"; cases "2 ^ 32 \<le> 1024 * Suc n") (simp_all only: if_True if_False simp_thms)
qed

lemma honest_proof:
  assumes "pow_mod_ok X" "0 < k" "1024 * k < 2 ^ 32"
  shows "\<exists>p. vdf_prove X g (vdf_eval_loop (1024 * k) g) (of_nat (1024 * k)) = Some p \<and>
    vdf_verify X g (vdf_eval_loop (1024 * k) g) (of_nat (1024 * k)) p = Some True"
proof -
  have "unat (of_nat (1024 * k) :: u32) = 1024 * k"
    using assms(3) take_bit_nat_eq_self [of "1024 * k" 32] by (simp only: unat_of_nat) simp
  moreover have "vdf_claim g (vdf_eval_loop (1024 * k) g) (1024 * k)"
    by (simp add: vdf_claim_def vdf_eval_loop_power)
  ultimately show ?thesis
    using vdf_prove_verify [OF assms(1), of g _ "1024 * k"] assms(2)
    by (simp add: vdf_prove_def vdf_verify_def)
qed

text \<open>The result of the search from pass \<open>n\<close> on: stopped by the clock or the counter, or the first solution.\<close>

definition search_result ::
  "externs \<Rightarrow> BlockTemplate \<Rightarrow> h256 \<Rightarrow> (nat \<Rightarrow> bool) \<Rightarrow> nat \<Rightarrow> Solution option \<Rightarrow> bool" where
  "search_result X block pk expired n r \<longleftrightarrow>
     (\<exists>k > n. (\<forall>j. n < j \<and> j < k \<longrightarrow> \<not> solved_at X block pk j \<and> \<not> expired (j - 1) \<and> 1024 * j < 2 ^ 32) \<and>
       (case r of
          None \<Rightarrow> expired (k - 1) \<or> 2 ^ 32 \<le> 1024 * k
        | Some s \<Rightarrow> solved_at X block pk k \<and> \<not> expired (k - 1) \<and> 1024 * k < 2 ^ 32 \<and>
            s_iterations s = of_nat (1024 * k) \<and>
            s_randomness s = vdf_eval_loop (1024 * k) (miner_h_g X block pk) \<and>
            vdf_verify X (miner_h_g X block pk) (s_randomness s) (s_iterations s) (s_proof s) = Some True))"

lemma search_result_later:
  assumes "search_result X block pk expired (Suc n) r"
    and "\<not> solved_at X block pk (Suc n)" "\<not> expired n" "1024 * Suc n < 2 ^ 32"
  shows "search_result X block pk expired n r"
proof -
  from assms(1) obtain k where k: "Suc n < k"
    "\<forall>j. Suc n < j \<and> j < k \<longrightarrow> \<not> solved_at X block pk j \<and> \<not> expired (j - 1) \<and> 1024 * j < 2 ^ 32"
    and r: "case r of None \<Rightarrow> expired (k - 1) \<or> 2 ^ 32 \<le> 1024 * k
        | Some s \<Rightarrow> solved_at X block pk k \<and> \<not> expired (k - 1) \<and> 1024 * k < 2 ^ 32 \<and>
            s_iterations s = of_nat (1024 * k) \<and>
            s_randomness s = vdf_eval_loop (1024 * k) (miner_h_g X block pk) \<and>
            vdf_verify X (miner_h_g X block pk) (s_randomness s) (s_iterations s) (s_proof s) = Some True"
    unfolding search_result_def by blast
  have "\<not> solved_at X block pk j \<and> \<not> expired (j - 1) \<and> 1024 * j < 2 ^ 32" if "n < j" "j < k" for j
    using that k(2) assms(2-4) by (cases "j = Suc n") auto
  with k(1) r show ?thesis unfolding search_result_def by (intro exI [of _ k]) auto
qed

lemma find_solution_loop_ok:
  assumes X: "pow_mod_ok X" and g: "g = miner_h_g X block pk"
  shows "\<exists>r. find_solution_loop X block pk expired g n (vdf_eval_loop (1024 * n) g) (1024 * n) = Some r \<and>
    search_result X block pk expired n r"
proof (induction "2 ^ 32 - n" arbitrary: n rule: less_induct)
  case less
  note unfold = find_solution_loop_unfold [OF g, of expired n]
  consider (stop) "expired n \<or> 2 ^ 32 \<le> 1024 * Suc n"
    | (found) "\<not> expired n" "1024 * Suc n < 2 ^ 32" "solved_at X block pk (Suc n)"
    | (go) "\<not> expired n" "1024 * Suc n < 2 ^ 32" "\<not> solved_at X block pk (Suc n)" by linarith
  then show ?case
  proof cases
    case stop
    then have "search_result X block pk expired n None"
      unfolding search_result_def by (intro exI [of _ "Suc n"]) auto
    with stop show ?thesis unfolding unfold by simp
  next
    case found
    from honest_proof [OF X _ found(2), of g] obtain p where p:
      "vdf_prove X g (vdf_eval_loop (1024 * Suc n) g) (of_nat (1024 * Suc n)) = Some p"
      "vdf_verify X g (vdf_eval_loop (1024 * Suc n) g) (of_nat (1024 * Suc n)) p = Some True" by blast
    have "search_result X block pk expired n (Some \<lparr>s_iterations = of_nat (1024 * Suc n),
        s_randomness = vdf_eval_loop (1024 * Suc n) g, s_proof = p\<rparr>)"
      unfolding search_result_def using found p(2) g by (intro exI [of _ "Suc n"]) auto
    with found p(1) show ?thesis unfolding unfold by simp
  next
    case go
    then have "2 ^ 32 - Suc n < 2 ^ 32 - n" by simp
    from less.hyps [OF this] search_result_later go show ?thesis unfolding unfold by auto
  qed
qed

lemma find_solution_ok:
  "pow_mod_ok X \<Longrightarrow>
   \<exists>r. find_solution X block pk expired = Some r \<and> search_result X block pk expired 0 r"
  using find_solution_loop_ok [of X "miner_h_g X block pk" block pk expired 0]
  by (simp add: find_solution_def Let_def)

text \<open>C22: with no timeout the search always returns. It returns nothing only when no multiple of 1024 iterations
  below \<open>2 ^ 32\<close> meets the target; otherwise it returns the first one that does, with the evaluated
  randomness and a proof the verifier accepts.\<close>

theorem find_solution_finds_first:
  assumes "pow_mod_ok X" "\<forall>n. \<not> expired n"
  shows "\<exists>r. find_solution X block pk expired = Some r \<and>
    (case r of
       None \<Rightarrow> \<forall>k. 0 < k \<and> 1024 * k < 2 ^ 32 \<longrightarrow> \<not> solved_at X block pk k
     | Some s \<Rightarrow>
         \<exists>k. 0 < k \<and> 1024 * k < 2 ^ 32 \<and> solved_at X block pk k \<and>
             (\<forall>j. 0 < j \<and> j < k \<longrightarrow> \<not> solved_at X block pk j) \<and>
             s_iterations s = of_nat (1024 * k) \<and>
             s_randomness s = vdf_eval_loop (1024 * k) (miner_h_g X block pk) \<and>
             vdf_verify X (miner_h_g X block pk) (s_randomness s) (s_iterations s) (s_proof s) = Some True)"
proof -
  from find_solution_ok [OF assms(1)] obtain r where
    r: "find_solution X block pk expired = Some r" "search_result X block pk expired 0 r" by blast
  show ?thesis
  proof (cases r)
    case None
    with r(2) assms(2) obtain k where
      k: "2 ^ 32 \<le> 1024 * k" "\<forall>j. 0 < j \<and> j < k \<longrightarrow> \<not> solved_at X block pk j"
      by (auto simp: search_result_def)
    have "\<not> solved_at X block pk j" if "0 < j \<and> 1024 * j < 2 ^ 32" for j
    proof -
      have "j < k" using that k(1) by linarith
      with that k(2) show ?thesis by blast
    qed
    with None r(1) show ?thesis by (intro exI [of _ r]) simp
  next
    case (Some s)
    with r(2) obtain k where "0 < k" "\<forall>j. 0 < j \<and> j < k \<longrightarrow> \<not> solved_at X block pk j"
      "solved_at X block pk k" "1024 * k < 2 ^ 32" "s_iterations s = of_nat (1024 * k)"
      "s_randomness s = vdf_eval_loop (1024 * k) (miner_h_g X block pk)"
      "vdf_verify X (miner_h_g X block pk) (s_randomness s) (s_iterations s) (s_proof s) = Some True"
      unfolding search_result_def by auto
    with Some r(1) show ?thesis by auto
  qed
qed

section \<open>From the template to acceptance\<close>

lemma mined_block_simps:
  "raw (header (indexed_block_from_raw X (mined_block block pk sol))) =
     solution_header block pk (s_iterations sol) (s_randomness sol)"
  "vdf_proof (indexed_block_from_raw X (mined_block block pk sol)) = s_proof sol"
  "block_hash_of (indexed_block_from_raw X (mined_block block pk sol)) =
     block_header_hash X (solution_header block pk (s_iterations sol) (s_randomness sol))"
  by (simp_all add: indexed_block_from_raw_def indexed_header_from_raw_def mined_block_def)

text \<open>The miner and the verifier derive the same input of the delay function.\<close>

lemma miner_h_g_consistent:
  "h_g X (indexed_block_from_raw X (mined_block block pk sol)) = miner_h_g X block pk"
  by (simp add: h_g_def miner_h_g_def miner_h_g_inner_def mined_block_simps solution_header_def Let_def)

lemma mined_block_rules:
  assumes "pow_mod_ok X" "find_solution X block pk expired = Some (Some sol)"
    and "within_limit network (t_bits block)" "t_time block \<le> now + BLOCK_MAX_FUTURE"
  shows "block_rules X network now (indexed_block_from_raw X (mined_block block pk sol))"
proof -
  from find_solution_ok [OF assms(1), of block pk expired] assms(2) obtain k where
    k: "solved_at X block pk k" "s_iterations sol = of_nat (1024 * k)"
      "s_randomness sol = vdf_eval_loop (1024 * k) (miner_h_g X block pk)"
      "vdf_verify X (miner_h_g X block pk) (s_randomness sol) (s_iterations sol) (s_proof sol) = Some True"
    by (auto simp: search_result_def)
  have "is_valid_proof_of_work_hash (t_bits block)
      (block_header_hash X (solution_header block pk (s_iterations sol) (s_randomness sol)))"
    using k(1-3) by (simp add: solved_at_def)
  then have "\<exists>mb. network_max_bits network = Some mb \<and> is_valid_proof_of_work mb (t_bits block)
      (block_header_hash X (solution_header block pk (s_iterations sol) (s_randomness sol)))"
    using assms(3)
    by (auto simp: within_limit_def is_valid_proof_of_work_def is_valid_proof_of_work_hash_def)
  with k(4) assms(4) show ?thesis
    unfolding block_rules_def miner_h_g_consistent mined_block_simps by (simp add: solution_header_def)
qed

lemma chain_store_stored:
  assumes "chain_store blocks hs r = Some (Some h)"
  shows "\<exists>k b. blocks k = Some (VBlock b) \<and> raw h = block_header b"
proof -
  from assms obtain k where "stored_header blocks k = Some h" by (cases r) (auto split: if_splits)
  then show ?thesis
    by (intro exI [of _ k]) (auto simp: stored_header_def bind_eq_Some_conv elim!: as_block.elims)
qed

context block_database
begin

lemma mined_block_ok:
  assumes s: "chain_inv ops db_inv s hs" "hs \<noteq> []" and len: "length hs + MAX_FORK_ROUTE_PRESET < 2 ^ 32"
    and parents: "parents_stored (prev_of (kv_view ops (bdb s))) hs"
    and limit: "\<forall>h b. blocks_view ops s h = Some (VBlock b) \<longrightarrow> within_limit network (bits (block_header b))"
    and X: "pow_mod_ok X"
    and tpl: "create_new_block u256_mul ops s now network = Some block"
    and sol: "find_solution X block pk expired = Some (Some sol)"
    and b: "b = indexed_block_from_raw X (mined_block block pk sol)"
    and new: "prev_of (kv_view ops (bdb s)) (block_hash_of b) = None"
    and m: "median_timestamp_inclusive (last hs) (db_block_header ops s) = Some m" "m < now"
    and future: "now \<le> later + BLOCK_MAX_FUTURE"
  shows "verify_block X u256_mul ops s network later level b = Some (Inr ())"
proof -
  let ?store = "chain_store (blocks_view ops s) hs"
  have bs: "best s = best_of hs" using s(1) by (simp add: chain_inv_def)
  have eqs: "bb_hash (best s) = last hs" "bb_number (best s) + 1 = of_nat (length hs)"
    using s(2) by (simp_all add: bs best_of_def of_nat_diff Suc_leI)
  note store = db_block_header_chain [OF s(1)]
  from tpl have t: "t_previous_header_hash block = last hs" "t_time block = now"
    "work_required u256_mul (last hs) now (of_nat (length hs)) ?store network = Some (t_bits block)"
    by (auto simp: create_new_block_def eqs store Let_def bind_eq_Some_conv)
  have hdr: "previous_header_hash (raw (header b)) = last hs" "time (raw (header b)) = now"
    "bits (raw (header b)) = t_bits block"
    by (simp_all add: b mined_block_simps solution_header_def t)
  have "within_limit network (t_bits block)"
  proof (rule work_required_within_limit [OF _ t(3)])
    fix r h assume "?store r = Some (Some h)"
    from chain_store_stored [OF this] limit show "within_limit network (bits (raw h))" by auto
  qed
  then have "block_rules X network later b"
    unfolding b by (intro mined_block_rules [OF X sol]) (simp_all add: t future)
  moreover have "header_rules u256_mul network ?store (of_nat (length hs)) (raw (header b))"
    using m t(3) by (simp add: header_rules_def median_timestamp_def hdr store)
  ultimately show ?thesis by (rule verify_block_complete [OF s len parents new hdr(1)])
qed

end

text \<open>C1: mining and verification agree. Let the store hold a canonical chain whose blocks respect the limit of the
  network. A template the assembler takes from it and a solution the miner finds for it give a block on top of
  the best block that the verifier accepts, provided the block is new, the assembler's clock is past the
  median time of the chain and the verifier's clock is not more than the allowed skew behind.\<close>

theorem mined_block_accepted:
  assumes "block_database ops db_inv op_ok" "chain_inv ops db_inv s hs" "hs \<noteq> []"
    and "length hs + MAX_FORK_ROUTE_PRESET < 2 ^ 32" "parents_stored (prev_of (kv_view ops (bdb s))) hs"
    and "\<forall>h b. blocks_view ops s h = Some (VBlock b) \<longrightarrow> within_limit network (bits (block_header b))"
    and "pow_mod_ok X" "create_new_block u256_mul ops s now network = Some block"
    and "find_solution X block pk expired = Some (Some sol)"
    and "b = indexed_block_from_raw X (mined_block block pk sol)"
    and "prev_of (kv_view ops (bdb s)) (block_hash_of b) = None"
    and "median_timestamp_inclusive (last hs) (db_block_header ops s) = Some m" "m < now"
    and "now \<le> later + BLOCK_MAX_FUTURE"
  shows "verify_block X u256_mul ops s network later level b = Some (Inr ())"
  by (rule block_database.mined_block_ok [OF assms])

definition constant_externs :: externs where
  "constant_externs = reference_externs\<lparr>sha256 := \<lambda>_. 9\<rparr>"

lemma constant_externs_simps [simp]: "pow_mod_ok constant_externs" "dhash256 constant_externs bs = 9"
  using reference_externs_ok by (simp_all add: constant_externs_def pow_mod_ok_def dhash256_def)

lemma constant_externs_solves:
  assumes "t_bits block = 0x207fffff"
  shows "\<exists>sol. find_solution constant_externs block pk (\<lambda>_. False) = Some (Some sol)"
proof -
  have s: "solved_at constant_externs block pk k" for k
    by (simp add: solved_at_def assms block_header_hash_def is_valid_proof_of_work_hash_def max_bits_target)
  from find_solution_ok [of constant_externs block pk "\<lambda>_. False"] obtain r where
    r: "find_solution constant_externs block pk (\<lambda>_. False) = Some r"
      "search_result constant_externs block pk (\<lambda>_. False) 0 r" by auto
  have "r \<noteq> None"
  proof
    assume "r = None"
    with r(2) s obtain k :: nat where "2 ^ 32 \<le> 1024 * k" "\<forall>j. \<not> (0 < j \<and> j < k)"
      by (auto simp: search_result_def)
    moreover have "\<not> (0 < (1::nat) \<and> 1 < k)" using calculation(2) by blast
    ultimately show False by simp
  qed
  with r(1) show ?thesis by auto
qed

theorem find_solution_finds_first_witness:
  "\<exists>r. find_solution constant_externs
     \<lparr>t_version = 1, t_previous_header_hash = 2, t_time = 3, t_bits = 0x207fffff, t_height = 4\<rparr> 5 (\<lambda>_. False) =
     Some r"
  using find_solution_finds_first [of constant_externs "\<lambda>_. False"
      "\<lparr>t_version = 1, t_previous_header_hash = 2, t_time = 3, t_bits = 0x207fffff, t_height = 4\<rparr>" 5]
  by auto

lemma pow_db_template:
  "create_new_block wrapping_mul memory_ops pow_db 6 Mainnet =
   Some \<lparr>t_version = BLOCK_VERSION, t_previous_header_hash = 8, t_time = 6, t_bits = 0x207fffff, t_height = 2\<rparr>"
  "\<exists>m. median_timestamp_inclusive 8 (db_block_header memory_ops pow_db) = Some m \<and> m < 6"
proof -
  have r: "header_rules wrapping_mul Mainnet (db_block_header memory_ops pow_db) 2 (pow_header 8 6)"
    unfolding memory_blocks.db_block_header_chain [OF pow_db_ok(1)]
    by (rule pow_db_header_rules) simp_all
  have "best pow_db = \<lparr>bb_number = 1, bb_hash = 8\<rparr>"
    using pow_db_ok(1) by (simp add: chain_inv_def best_of_def)
  with r show "create_new_block wrapping_mul memory_ops pow_db 6 Mainnet =
     Some \<lparr>t_version = BLOCK_VERSION, t_previous_header_hash = 8, t_time = 6, t_bits = 0x207fffff, t_height = 2\<rparr>"
    by (simp add: create_new_block_def header_rules_def Let_def)
  from r show "\<exists>m. median_timestamp_inclusive 8 (db_block_header memory_ops pow_db) = Some m \<and> m < 6"
    by (simp add: header_rules_def median_timestamp_def)
qed

theorem mined_block_accepted_witness:
  "\<exists>block sol. create_new_block wrapping_mul memory_ops pow_db 6 Mainnet = Some block \<and>
     find_solution constant_externs block 5 (\<lambda>_. False) = Some (Some sol) \<and>
     verify_block constant_externs wrapping_mul memory_ops pow_db Mainnet 6 Full
       (indexed_block_from_raw constant_externs (mined_block block 5 sol)) = Some (Inr ())"
proof -
  let ?t = "\<lparr>t_version = BLOCK_VERSION, t_previous_header_hash = 8, t_time = 6, t_bits = 0x207fffff, t_height = 2\<rparr>"
  obtain sol where sol: "find_solution constant_externs ?t 5 (\<lambda>_. False) = Some (Some sol)"
    using constant_externs_solves [of ?t 5] by auto
  from pow_db_template(2) obtain m where m: "median_timestamp_inclusive 8 (db_block_header memory_ops pow_db) = Some m"
    "m < 6" by blast
  have limit: "\<forall>h b. blocks_view memory_ops pow_db h = Some (VBlock b) \<longrightarrow>
      within_limit Mainnet (bits (block_header b))"
    using max_bits_within_limit [OF network_max_bits_main] by (auto simp: pow_db_ok(2) split: if_splits)
  have "prev_of (kv_view memory_ops (bdb pow_db))
      (block_hash_of (indexed_block_from_raw constant_externs (mined_block ?t 5 sol))) = None"
    by (simp add: mined_block_simps block_header_hash_def pow_db_prev)
  from mined_block_accepted [OF memory_blocks.block_database_axioms pow_db_ok(1) _ _ pow_db_parents limit
      constant_externs_simps(1) pow_db_template(1) sol refl this, of m 6 Full] m
  have "verify_block constant_externs wrapping_mul memory_ops pow_db Mainnet 6 Full
       (indexed_block_from_raw constant_externs (mined_block ?t 5 sol)) = Some (Inr ())"
    by (simp add: MAX_FORK_ROUTE_PRESET_def BLOCK_MAX_FUTURE_def)
  with pow_db_template(1) sol show ?thesis by auto
qed

end
