(* ===== verification/Sync_Node.thy ===== *)
theory Sync_Node
  imports Sync_Manager Sync_Server Miner
begin

text \<open>
  The node that the parts of the \<^verbatim>\<open>sync\<close> crate make up: the verifier with its parameters and its thread
  (\<^verbatim>\<open>synchronization_verifier.rs\<close>), the client (\<^verbatim>\<open>synchronization_client.rs\<close>), the local node (\<^verbatim>\<open>local_node.rs\<close>), the inbound
  connections (\<^verbatim>\<open>inbound_connection.rs\<close>, \<^verbatim>\<open>inbound_connection_factory.rs\<close>) and the bulk importer of blocks (\<^verbatim>\<open>blocks_writer.rs\<close>).

  Storage, peers and the core are shared references in the code; here they are in the state of the core, which the
  verifier and the server read. The channel of the verification thread is the list \<open>verification_work\<close>; a step of that
  thread takes its first task. A future of a waiting peer is the number of a server task in \<open>node_futures\<close>; running
  it gives the task to the server.
\<close>

section \<open>Verifier\<close>

record VerificationParameters =
  verification_level :: VerificationLevel
  verification_edge :: h256

record ChainVerifierWrapper =
  wrapper_params :: VerificationParameters
  enforce_full_verification :: bool

datatype VerificationTask = VerifyBlock IndexedBlock | StopVerification

text \<open>The surroundings of the node: those of the core, the third-party code and the product of 256-bit numbers.\<close>

record 'd node_env =
  ne_core :: "'d env"
  ne_externs :: externs
  ne_mul :: "u256 \<Rightarrow> u256 \<Rightarrow> u256 option"

definition wrapper_new ::
  "'d kv_ops \<Rightarrow> 'd BlockChainDatabase \<Rightarrow> VerificationParameters \<Rightarrow> ChainVerifierWrapper option" where
  "wrapper_new ops s params =
     do { passed \<leftarrow> contains_block ops s (RefHash (verification_edge params));
          Some \<lparr>wrapper_params = params, enforce_full_verification = passed\<rparr> }"

definition wrapper_verify_block ::
  "'d node_env \<Rightarrow> 'd BlockChainDatabase \<Rightarrow> ChainVerifierWrapper \<Rightarrow> IndexedBlock \<Rightarrow>
   ((VError + unit) \<times> ChainVerifierWrapper) option" where
  "wrapper_verify_block N s w b =
     do { let w = (if block_hash_of b = verification_edge (wrapper_params w)
                   then w\<lparr>enforce_full_verification := True\<rparr> else w);
          let level = (if enforce_full_verification w then Full else verification_level (wrapper_params w));
          result \<leftarrow> verify_block (ne_externs N) (ne_mul N) (e_ops (ne_core N)) s (e_network (ne_core N))
                     (e_time (ne_core N)) level b;
          Some (result, w) }"

section \<open>State of the node\<close>

record 'd SyncNode =
  node_core :: "'d Core"
  node_wrapper :: ChainVerifierWrapper
  verification_work :: "VerificationTask list"
  node_server :: ServerQueue
  node_futures :: "ServerTask list"
  session_counter :: nat

definition create_local_sync_node ::
  "'d kv_ops \<Rightarrow> 'd BlockChainDatabase \<Rightarrow> PeersImpl \<Rightarrow> VerificationParameters \<Rightarrow> 'd SyncNode option" where
  "create_local_sync_node ops s ps params =
     do { chain \<leftarrow> chain_new ops s;
          core \<leftarrow> core_new False ps chain;
          wrapper \<leftarrow> wrapper_new ops s params;
          Some \<lparr>node_core = core, node_wrapper = wrapper, verification_work = [], node_server = server_queue_new,
                node_futures = [], session_counter = 0\<rparr> }"

text \<open>A handler of the core; the futures it runs give their tasks to the server.\<close>

definition run_futures :: "nat list \<Rightarrow> 'd SyncNode \<Rightarrow> 'd SyncNode" where
  "run_futures fs n = n\<lparr>node_server := fold (\<lambda>f. add_task (node_futures n ! f)) fs (node_server n)\<rparr>"

definition on_core :: "('d Core \<Rightarrow> 'd Core option) \<Rightarrow> 'd SyncNode \<Rightarrow> 'd SyncNode option" where
  "on_core f n =
     do { core \<leftarrow> f (node_core n);
          Some (run_futures (drop (length (woken (log (node_core n)))) (woken (log core))) (n\<lparr>node_core := core\<rparr>)) }"

section \<open>Verification thread\<close>

definition execute_single_task :: "'d node_env \<Rightarrow> VerificationTask \<Rightarrow> 'd SyncNode \<Rightarrow> (bool \<times> 'd SyncNode) option" where
  "execute_single_task N task n =
     (case task of
        VerifyBlock b \<Rightarrow>
          do { (result, w) \<leftarrow> wrapper_verify_block N (chain_storage (core_chain (node_core n))) (node_wrapper n) b;
               let n = n\<lparr>node_wrapper := w\<rparr>;
               n \<leftarrow> (case result of
                       Inr _ \<Rightarrow> on_core (on_block_verification_success (ne_core N) b) n
                     | Inl _ \<Rightarrow> on_core (on_block_verification_error (ne_core N) (block_hash_of b)) n);
               Some (True, n) }
      | StopVerification \<Rightarrow> Some (False, n))"

definition verification_worker_step :: "'d node_env \<Rightarrow> 'd SyncNode \<Rightarrow> (bool \<times> 'd SyncNode) option" where
  "verification_worker_step N n =
     (case verification_work n of
        [] \<Rightarrow> Some (True, n)
      | task # rest \<Rightarrow> execute_single_task N task (n\<lparr>verification_work := rest\<rparr>))"

definition verifier_verify_block :: "IndexedBlock \<Rightarrow> 'd SyncNode \<Rightarrow> 'd SyncNode" where
  "verifier_verify_block b n = n\<lparr>verification_work := verification_work n @ [VerifyBlock b]\<rparr>"

section \<open>Client\<close>

definition client_on_block :: "'d node_env \<Rightarrow> PeerIndex \<Rightarrow> IndexedBlock \<Rightarrow> 'd SyncNode \<Rightarrow> 'd SyncNode option" where
  "client_on_block N i b n =
     do { (blocks_to_verify, core) \<leftarrow> on_block (ne_core N) i b (node_core n);
          let n = n\<lparr>node_core := core\<rparr>;
          let n = (case blocks_to_verify of None \<Rightarrow> n | Some bs \<Rightarrow> fold verifier_verify_block bs n);
          (switched, core) \<leftarrow> try_switch_to_saturated_state (ne_core N) (node_core n);
          let n = n\<lparr>node_core := core\<rparr>;
          if switched then Some n else on_core (execute_synchronization_tasks (ne_core N) None None) n }"

section \<open>Local node\<close>

definition local_on_connect :: "'d node_env \<Rightarrow> PeerIndex \<Rightarrow> Version \<Rightarrow> 'd SyncNode \<Rightarrow> 'd SyncNode option" where
  "local_on_connect N i v n =
     do { let core = node_core n;
          let core = (if version_relay v then core
                      else core\<lparr>core_peers := set_transaction_announcement_type (core_peers core) i DoNotAnnounceTransactions\<rparr>);
          on_core (on_connect (ne_core N) i) (n\<lparr>node_core := core\<rparr>) }"

definition local_on_disconnect :: "'d node_env \<Rightarrow> PeerIndex \<Rightarrow> 'd SyncNode \<Rightarrow> 'd SyncNode option" where
  "local_on_disconnect N i n = on_core (on_disconnect (ne_core N) i) n"

definition local_on_inventory :: "'d node_env \<Rightarrow> PeerIndex \<Rightarrow> Inv \<Rightarrow> 'd SyncNode \<Rightarrow> 'd SyncNode option" where
  "local_on_inventory N i m n = on_core (on_inventory (ne_core N) i m) n"

definition local_on_headers :: "'d node_env \<Rightarrow> PeerIndex \<Rightarrow> IndexedBlockHeader list \<Rightarrow> 'd SyncNode \<Rightarrow> 'd SyncNode option" where
  "local_on_headers N i hs n = on_core (on_headers (ne_core N) i hs) n"

definition local_on_notfound :: "'d node_env \<Rightarrow> PeerIndex \<Rightarrow> NotFound \<Rightarrow> 'd SyncNode \<Rightarrow> 'd SyncNode option" where
  "local_on_notfound N i m n = on_core (on_notfound (ne_core N) i m) n"

definition local_on_getdata :: "PeerIndex \<Rightarrow> GetData \<Rightarrow> 'd SyncNode \<Rightarrow> 'd SyncNode" where
  "local_on_getdata i m n = n\<lparr>node_server := add_task (ServeGetData i m) (node_server n)\<rparr>"

definition local_on_getblocks :: "PeerIndex \<Rightarrow> GetBlocks \<Rightarrow> 'd SyncNode \<Rightarrow> 'd SyncNode" where
  "local_on_getblocks i m n = n\<lparr>node_server := add_task (ServeGetBlocks i m) (node_server n)\<rparr>"

definition local_on_getheaders :: "PeerIndex \<Rightarrow> GetHeaders \<Rightarrow> RequestId \<Rightarrow> 'd SyncNode \<Rightarrow> 'd SyncNode option" where
  "local_on_getheaders i m request_id n =
     on_core (\<lambda>c. Some (after_peer_nearly_blocks_verified i (length (node_futures n)) c))
       (n\<lparr>node_futures := node_futures n @ [ServeGetHeaders i m request_id]\<rparr>)"

definition local_on_sendheaders :: "PeerIndex \<Rightarrow> 'd SyncNode \<Rightarrow> 'd SyncNode" where
  "local_on_sendheaders i n =
     n\<lparr>node_core := (node_core n)\<lparr>core_peers :=
       set_block_announcement_type (core_peers (node_core n)) i AnnounceHeaders\<rparr>\<rparr>"

definition get_block_template :: "'d node_env \<Rightarrow> 'd SyncNode \<Rightarrow> BlockTemplate option" where
  "get_block_template N n =
     create_new_block (ne_mul N) (e_ops (ne_core N)) (chain_storage (core_chain (node_core n))) (e_time (ne_core N))
       (e_network (ne_core N))"

definition local_install_sync_listener :: "'d SyncNode \<Rightarrow> 'd SyncNode option" where
  "local_install_sync_listener n = on_core install_sync_listener n"

section \<open>Inbound connections\<close>

definition INV_MAX_INVENTORY_LEN :: nat where "INV_MAX_INVENTORY_LEN = 50000"
definition GETDATA_MAX_INVENTORY_LEN :: nat where "GETDATA_MAX_INVENTORY_LEN = 50000"
definition HEADERS_MAX_HEADERS_LEN :: nat where "HEADERS_MAX_HEADERS_LEN = 2000"

definition create_sync_session :: "Services \<Rightarrow> 'd SyncNode \<Rightarrow> (PeerIndex \<times> 'd SyncNode) option" where
  "create_sync_session services n =
     (let i = session_counter n + 1; core = node_core n
      in do { ps \<leftarrow> peers_insert (core_peers core) i services;
              Some (i, n\<lparr>session_counter := i, node_core := core\<lparr>core_peers := ps\<rparr>\<rparr>) })"

definition start_sync_session :: "'d node_env \<Rightarrow> PeerIndex \<Rightarrow> Version \<Rightarrow> 'd SyncNode \<Rightarrow> 'd SyncNode option" where
  "start_sync_session N i v n = local_on_connect N i v n"

definition close_session :: "'d node_env \<Rightarrow> PeerIndex \<Rightarrow> 'd SyncNode \<Rightarrow> 'd SyncNode option" where
  "close_session N i n =
     (let core = node_core n
      in local_on_disconnect N i (n\<lparr>node_core := core\<lparr>core_peers := peers_remove (core_peers core) i\<rparr>\<rparr>))"

definition inbound_on_inventory :: "'d node_env \<Rightarrow> PeerIndex \<Rightarrow> Inv \<Rightarrow> 'd SyncNode \<Rightarrow> 'd SyncNode option" where
  "inbound_on_inventory N i m n =
     (if inv_inventory m = [] then Some n
      else if length (inv_inventory m) > INV_MAX_INVENTORY_LEN then Some (n\<lparr>node_core := dos i (node_core n)\<rparr>)
      else local_on_inventory N i m n)"

definition inbound_on_getdata :: "PeerIndex \<Rightarrow> GetData \<Rightarrow> 'd SyncNode \<Rightarrow> 'd SyncNode" where
  "inbound_on_getdata i m n =
     (if gd_inventory m = [] then n
      else if length (gd_inventory m) > GETDATA_MAX_INVENTORY_LEN then n\<lparr>node_core := dos i (node_core n)\<rparr>
      else local_on_getdata i m n)"

definition inbound_on_block :: "'d node_env \<Rightarrow> PeerIndex \<Rightarrow> BlockMessage \<Rightarrow> 'd SyncNode \<Rightarrow> 'd SyncNode option" where
  "inbound_on_block N i m n =
     (let b = indexed_block_from_raw (ne_externs N) (bm_block m); core = node_core n
      in client_on_block N i b
           (n\<lparr>node_core := core\<lparr>core_peers := peers_hash_known_as (core_peers core) i (block_hash_of b) KnownBlockHash\<rparr>\<rparr>))"

definition inbound_on_headers :: "'d node_env \<Rightarrow> PeerIndex \<Rightarrow> Headers \<Rightarrow> 'd SyncNode \<Rightarrow> 'd SyncNode option" where
  "inbound_on_headers N i m n =
     (if headers_list m = [] then Some n
      else if length (headers_list m) > HEADERS_MAX_HEADERS_LEN then Some (n\<lparr>node_core := dos i (node_core n)\<rparr>)
      else local_on_headers N i (map (indexed_header_from_raw (ne_externs N)) (headers_list m)) n)"

section \<open>Bulk import\<close>

definition MAX_ORPHANED_BLOCKS :: nat where "MAX_ORPHANED_BLOCKS = 1024"

datatype SyncError = TooManyOrphanBlocks | DatabaseError Error | VerificationFailed VError

record 'd BlocksWriter =
  bw_pool :: OrphanBlocksPool
  bw_chain :: "'d Chain"
  bw_wrapper :: ChainVerifierWrapper

definition writer_new ::
  "'d kv_ops \<Rightarrow> 'd BlockChainDatabase \<Rightarrow> VerificationParameters \<Rightarrow> 'd BlocksWriter option" where
  "writer_new ops s params =
     do { chain \<leftarrow> chain_new ops s;
          wrapper \<leftarrow> wrapper_new ops s params;
          Some \<lparr>bw_pool = pool_new, bw_chain = chain, bw_wrapper = wrapper\<rparr> }"

text \<open>Verifying a block and storing it; the error that the sink keeps is taken at once.\<close>

definition writer_verify ::
  "'d node_env \<Rightarrow> IndexedBlock \<Rightarrow> 'd BlocksWriter \<Rightarrow> ((SyncError + unit) \<times> 'd BlocksWriter) option" where
  "writer_verify N b w =
     do { (result, wrapper) \<leftarrow> wrapper_verify_block N (chain_storage (bw_chain w)) (bw_wrapper w) b;
          let w = w\<lparr>bw_wrapper := wrapper\<rparr>;
          case result of
            Inl e \<Rightarrow> Some (Inl (VerificationFailed e), w)
          | Inr _ \<Rightarrow>
              do { (chain, inserted) \<leftarrow> insert_best_block (e_ops (ne_core N)) (bw_chain w) b;
                   Some (case inserted of Inl e \<Rightarrow> Inl (DatabaseError e) | Inr _ \<Rightarrow> Inr (), w\<lparr>bw_chain := chain\<rparr>) } }"

fun writer_loop ::
  "'d node_env \<Rightarrow> IndexedBlock list \<Rightarrow> 'd BlocksWriter \<Rightarrow> ((SyncError + unit) \<times> 'd BlocksWriter) option" where
  "writer_loop N [] w = Some (Inr (), w)"
| "writer_loop N (b # bs) w =
     do { (result, w) \<leftarrow> writer_verify N b w;
          case result of Inl e \<Rightarrow> Some (Inl e, w) | Inr _ \<Rightarrow> writer_loop N bs w }"

definition append_block ::
  "'d node_env \<Rightarrow> IndexedBlock \<Rightarrow> 'd BlocksWriter \<Rightarrow> ((SyncError + unit) \<times> 'd BlocksWriter) option" where
  "append_block N b w =
     do { stored \<leftarrow> contains_block (e_ops (ne_core N)) (chain_storage (bw_chain w)) (RefHash (block_hash_of b));
          if stored then Some (Inr (), w)
          else do {
            parent_stored \<leftarrow> contains_block (e_ops (ne_core N)) (chain_storage (bw_chain w))
                              (RefHash (previous_header_hash (raw (header b))));
            if \<not> parent_stored
            then (let w = w\<lparr>bw_pool := insert_orphaned_block (bw_pool w) b\<rparr>
                  in Some (if pool_len (bw_pool w) > MAX_ORPHANED_BLOCKS then Inl TooManyOrphanBlocks else Inr (), w))
            else (let (orphans, pool) = remove_blocks_for_parent (bw_pool w) (block_hash_of b)
                  in writer_loop N (b # orphans) (w\<lparr>bw_pool := pool\<rparr>)) } }"

end
