(* ===== verification/Spec2Isabelle.thy ===== *)
theory Spec2Isabelle
  imports Client_Events Messages Sync_Node
begin

text \<open>
  A verification development of RandChain, a prototype of a block chain node in Rust whose blocks carry the output of a
  verifiable delay function.

  \<^bold>\<open>The program.\<close> A node stores blocks in a key-value database (\<^verbatim>\<open>db\<close>, \<^verbatim>\<open>storage\<close>) and keeps one canonical chain among them.
  It talks to its peers in a framed binary protocol (\<^verbatim>\<open>serialization\<close>, \<^verbatim>\<open>message\<close>, \<^verbatim>\<open>p2p\<close>). The synchronization (\<^verbatim>\<open>sync\<close>) asks
  peers for headers and blocks, verifies the blocks (\<^verbatim>\<open>verification\<close>, \<^verbatim>\<open>vdf\<close>), inserts them into the store, reorganizes
  the chain when a side chain becomes longer, serves the requests of the peers and relays new blocks. Miners
  (\<^verbatim>\<open>miner\<close>) make a block from a template and a solution of the delay function.

  \<^bold>\<open>Theories,\<close> in the order in which they build on each other:
  \<^item> \<open>Prelude\<close>: machine integers as words, generic facts on lists, association lists and words.
  \<^item> \<open>Serialization\<close> (\<^verbatim>\<open>serialization/src\<close>): readers and writers; the contract of an encoding is the locale \<open>codec\<close>, with
    \<open>sized_codec\<close> for encodings of known size; interpreted for every basic type.
  \<^item> \<open>Externals\<close>: third-party functions (SHA-256, big integers, public keys) as the record \<open>externs\<close> and their documented
    behaviour as predicates, with an instance that satisfies them.
  \<^item> \<open>Block_Types\<close> (\<^verbatim>\<open>chain/src\<close>): headers, blocks, indexed forms, hashing while parsing.
  \<^item> \<open>Messages\<close> (\<^verbatim>\<open>message/src\<close>, \<^verbatim>\<open>p2p/src/io\<close>): all payloads, message headers, framing and the reading of messages. Each
    payload interprets the locale \<open>payload_codec\<close>, from which the round trip of framed messages follows.
  \<^item> \<open>Compact_Bits\<close> (\<^verbatim>\<open>primitives/src/compact.rs\<close>, \<^verbatim>\<open>network/src\<close>): compact targets and network parameters.
  \<^item> \<open>Vdf\<close> (\<^verbatim>\<open>vdf/src\<close>): evaluation, prover and verifier.
  \<^item> \<open>Kv_Store\<close> (\<^verbatim>\<open>db/src/kv\<close>): transactions, memory database, overlay, cache, flushing overlay, disk. The contract is the
    locale \<open>kv_database\<close>; it holds of each layer over a layer for which it holds.
  \<^item> \<open>Block_Db\<close> (\<^verbatim>\<open>db/src/block_chain_db.rs\<close>, \<^verbatim>\<open>storage/src\<close>): the block chain database over any key-value store, locale
    \<open>block_database\<close>. Its abstract state is the list of hashes of the canonical chain.
  \<^item> \<open>Consensus\<close> (\<^verbatim>\<open>verification/src\<close>) and \<open>Miner\<close> (\<^verbatim>\<open>miner/src\<close>): the rules a block has to satisfy, and how blocks that satisfy
    them are made.
  \<^item> \<open>Hash_Queue\<close>, \<open>Best_Headers\<close>, \<open>Orphan_Pool\<close>, \<open>Speed_Meter\<close> (\<^verbatim>\<open>sync/src/utils\<close>), \<open>Peers_Tasks\<close>, \<open>Peers\<close>: the parts of the
    synchronization, each with its invariant.
  \<^item> \<open>Sync_Chain\<close> and \<open>Sync_Invariant\<close> (\<^verbatim>\<open>synchronization_chain.rs\<close>): store, queues and headers together.
  \<^item> \<open>Client_Core\<close> (\<^verbatim>\<open>synchronization_client_core.rs\<close>): the handlers of the client. \<open>Client_Invariant\<close> has what the handlers do to
    chain and pool, \<open>Client_Safety\<close> one lemma per handler, \<open>Client_Events\<close> the client as a machine that takes events.
  \<^item> \<open>Sync_Manager\<close>, \<open>Sync_Server\<close>: the management rounds and the server.
  \<^item> \<open>Sync_Node\<close>: verifier, local node, inbound connections and the bulk import of blocks.

  \<^bold>\<open>How code becomes definitions.\<close> A struct is a record, an enum a datatype, a method a function from the old state to the
  result and the new state. A panic, which includes a failed \<^verbatim>\<open>expect\<close>, an assertion and an index out of range, is \<open>None\<close>; a
  Rust \<^verbatim>\<open>Result\<close> is a sum with the error on the left. Integers have their width and wrap as in a release build, lengths
  are natural numbers. Floats are reals, so their rounding is not modelled. Maps and sets that the code iterates over are association lists and lists without
  repetition. A critical section under a lock is one step; a thread is a sequence of steps, a channel a list. Sent messages,
  closed connections and events of the listener are logs in the state. Clocks and random numbers are arguments.

  \<^bold>\<open>What is shown.\<close>
  \<^item> Formats: every encoding is read back as what was written, over whole messages; wrong networks and
    commands and trailing bytes are refused.
  \<^item> Storage: each database layer and their production stack behave as a map; the operations of the block chain database
    append to, cut and reorganize a list of hashes; a restart finds the same chain.
  \<^item> Consensus: an accepted block satisfies every rule on the chain it extends; mined blocks are accepted; honest delay
    proofs of one iteration or an even number of them verify, while the verifier ignores the claimed iterations and rejects
    honest proofs of three; retargeting is bounded as long as its product fits 256 bits, and fails at the limit of the main
    network, where it does not.
  \<^item> Synchronization: queues keep their order and lose nothing; locators are correct; a new block goes to verification with
    all its descendants; requests are divided among peers without loss; stalled requests are taken back; the server takes
    the tasks of a peer in order, is fair among the peers and answers with the right blocks and headers; and, over all handlers, an event that can occur never makes the
    client panic.
  \<^item> Deviations between the code and its comments are theorems of their own, for example \<open>require_peer_services_inverted\<close>.

  \<^bold>\<open>Hypotheses and bounds.\<close> Properties of the database hold for any store that satisfies \<open>block_database\<close>, and the in-memory
  database does. Properties of the client assume that different headers have different hashes, that headers form no cycle
  (\<open>sound_headers\<close>), and that chain, queues and pool together hold fewer than \<open>2 ^ 31\<close> blocks: numbers of blocks are 32-bit
  words. They also assume that a verified block has a place in the chain when it is stored (\<open>storable\<close>): lemma
  \<open>verified_storable\<close> derives this from acceptance at the levels \<^verbatim>\<open>Full\<close> and \<^verbatim>\<open>Header\<close>; at the level \<^verbatim>\<open>NoVerification\<close> nothing
  is checked, and a block without a place makes the client panic when it is stored. Loops of the code are structural recursion or have a termination proof; \<open>locate_in_fork\<close>, \<open>collect_children\<close> and the
  loops of the locator, whose end depends on the stored data, are partial functions with theorems that they return. The loop of
  \<open>block_origin\<close> is bounded by \<open>MAX_FORK_ROUTE_PRESET\<close> in the code itself.

  \<^bold>\<open>Not modelled.\<close> The asynchronous socket code of \<^verbatim>\<open>p2p\<close> (sessions, handshake, table of known nodes), which is written over
  \<^verbatim>\<open>tokio\<close> and \<^verbatim>\<open>futures\<close>; the JSON-RPC interface \<^verbatim>\<open>rpc\<close>; command line, configuration and start-up of \<^verbatim>\<open>randchaind\<close> apart from
  the block a miner thread makes; logging; the procedural macros of \<^verbatim>\<open>serialization_derive\<close>, whose generated code is
  modelled with the types it is generated for; test data, tests and functions that exist only in test builds.
\<close>

end
